(* ===== verification/Netx_Prelude.thy ===== *)
theory Netx_Prelude
  imports Main "HOL-Library.Word" "HOL-Library.Finite_Map" "HOL-Library.Multiset"
begin

text \<open>
  Shared vocabulary of the go-netx development.

  \<^item> Machine integers: Go's \<open>uint64\<close>, \<open>int64\<close> and \<open>int\<close> (64 bits) are
    \<open>64 word\<close>; \<open>sint\<close> reads the signed types and \<open>unat\<close> the unsigned ones, so
    wrap-around is kept. Lengths and indices of slices, which the code never lets leave
    the slice, are \<open>nat\<close>.
  \<^item> Results: a call returns a value and a state, or panics and leaves the state it had
    reached (a deferred recover can observe that state).
  \<^item> Sequences of calls: \<open>run_ops\<close> runs a list of operations; the locales
    \<open>op_invariant\<close> and \<open>op_refinement\<close> lift facts of one operation to every sequence.
  \<^item> Sequences of events that return nothing: \<open>event_invariant\<close>.
  \<^item> Step relations: the locale \<open>step_invariant\<close> lifts a one-step invariant to every
    reachable state.
  \<^item> The doubling loop \<open>size <<= 1\<close> that the queue and the flow table share.
\<close>

unbundle bit_operations_syntax

type_synonym u64 = "64 word"
type_synonym i64 = "64 word"
type_synonym u32 = "32 word"
type_synonym i32 = "32 word"
type_synonym u16 = "16 word"
type_synonym byte = "8 word"

named_theorems netx_defs "definitions of the operations of a component"
named_theorems netx_inv "an operation keeps the invariant of its component"

section \<open>Results of a call\<close>

datatype ('a, 's) res = Ret 'a 's | Panic string 's

primrec res_state :: "('a, 's) res \<Rightarrow> 's" where
  "res_state (Ret a s) = s"
| "res_state (Panic m s) = s"

primrec panics :: "('a, 's) res \<Rightarrow> bool" where
  "panics (Ret a s) = False"
| "panics (Panic m s) = True"

lemma not_panics_iff: "\<not> panics r \<longleftrightarrow> (\<exists>a s. r = Ret a s)"
  by (cases r) auto

section \<open>Signed 64-bit arithmetic\<close>

lemma sint64_bounds: "- (2 ^ 63) \<le> sint (x :: i64)" "sint (x :: i64) < 2 ^ 63"
  using sint_ge [of x] sint_lt [of x] by simp_all

lemma sint64_add:
  assumes "- (2 ^ 63) \<le> sint a + sint b" and "sint a + sint b < 2 ^ 63"
  shows "sint (a + b :: i64) = sint a + sint b"
  using assms by (simp add: sint_word_add signed_take_bit_int_eq_self)

lemma sint64_diff:
  assumes "- (2 ^ 63) \<le> sint a - sint b" and "sint a - sint b < 2 ^ 63"
  shows "sint (a - b :: i64) = sint a - sint b"
  using assms by (simp add: sint_word_diff signed_take_bit_int_eq_self)

lemma sint64_minus:
  assumes "sint a \<noteq> - (2 ^ 63)"
  shows "sint (- a :: i64) = - sint a"
  using assms sint64_bounds [of a]
  by (simp add: sint_word_minus signed_take_bit_int_eq_self)

lemma sint64_1 [simp]: "sint (1 :: i64) = 1"
  by simp

lemma sint64_of_nat: "n < 2 ^ 63 \<Longrightarrow> sint (of_nat n :: i64) = int n"
  by (simp add: signed_of_nat signed_take_bit_int_eq_self)

lemma sint64_of_int: "- (2 ^ 63) \<le> k \<Longrightarrow> k < 2 ^ 63 \<Longrightarrow> sint (of_int k :: i64) = k"
  by (simp add: signed_of_int signed_take_bit_int_eq_self)

lemma unat64_Suc: "unat x < 2 ^ 64 - 1 \<Longrightarrow> unat (x + 1 :: u64) = Suc (unat x)"
  by (simp add: unat_word_ariths)

lemma unat64_pow2:
  assumes "k < 64"
  shows "unat (2 ^ k :: u64) = 2 ^ k"
proof -
  have "(2 :: nat) ^ k < 2 ^ 64" using assms by (intro power_strict_increasing) auto
  then have "unat (of_nat (2 ^ k) :: u64) = 2 ^ k" by (simp only: unat_of_nat) simp
  then show ?thesis by simp
qed

section \<open>Sequences of operations\<close>

primrec run_ops :: "('e \<Rightarrow> 's \<Rightarrow> 'o \<times> 's) \<Rightarrow> 'e list \<Rightarrow> 's \<Rightarrow> 'o list \<times> 's" where
  "run_ops step [] s = ([], s)"
| "run_ops step (e # es) s =
     (let (x, s') = step e s; (xs, s'') = run_ops step es s' in (x # xs, s''))"

lemma run_ops_Cons [simp]:
  "run_ops step (e # es) s =
     (fst (step e s) # fst (run_ops step es (snd (step e s))),
      snd (run_ops step es (snd (step e s))))"
  by (simp add: case_prod_beta)

declare run_ops.simps(2) [simp del]

lemma run_ops_append:
  "run_ops step (es @ fs) s =
     (fst (run_ops step es s) @ fst (run_ops step fs (snd (run_ops step es s))),
      snd (run_ops step fs (snd (run_ops step es s))))"
  by (induction es arbitrary: s) auto

lemma length_run_ops: "length (fst (run_ops step es s)) = length es"
  by (induction es arbitrary: s) auto

locale op_invariant =
  fixes step :: "'e \<Rightarrow> 's \<Rightarrow> 'o \<times> 's"
    and inv :: "'s \<Rightarrow> bool"
  assumes step_inv: "inv s \<Longrightarrow> inv (snd (step e s))"
begin

lemma run_inv: "inv s \<Longrightarrow> inv (snd (run_ops step es s))"
  by (induction es arbitrary: s) (auto intro: step_inv)

end

locale op_refinement = op_invariant step inv
  for step :: "'e \<Rightarrow> 's \<Rightarrow> 'o \<times> 's" and inv :: "'s \<Rightarrow> bool" +
  fixes astep :: "'e \<Rightarrow> 'a \<Rightarrow> 'o \<times> 'a"
    and abs :: "'s \<Rightarrow> 'a"
  assumes step_refines: "inv s \<Longrightarrow> astep e (abs s) = (fst (step e s), abs (snd (step e s)))"
begin

lemma run_refines:
  "inv s \<Longrightarrow> run_ops astep es (abs s) = (fst (run_ops step es s), abs (snd (run_ops step es s)))"
proof (induction es arbitrary: s)
  case Nil
  then show ?case by simp
next
  case (Cons e es)
  from Cons.IH [OF step_inv [OF Cons.prems, of e]] step_refines [OF Cons.prems, of e]
  show ?case by simp
qed

end

text \<open>Events that only change the state.\<close>

locale event_invariant =
  fixes step :: "'e \<Rightarrow> 's \<Rightarrow> 's"
    and inv :: "'s \<Rightarrow> bool"
  assumes event_keeps: "inv s \<Longrightarrow> inv (step e s)"
begin

lemma events_keep: "inv s \<Longrightarrow> inv (fold step es s)"
  by (induction es arbitrary: s) (auto intro: event_keeps)

end

section \<open>Step relations\<close>

locale step_invariant =
  fixes step :: "'s \<Rightarrow> 's \<Rightarrow> bool"
    and inv :: "'s \<Rightarrow> bool"
  assumes step_keeps: "step s t \<Longrightarrow> inv s \<Longrightarrow> inv t"
begin

lemma reachable_keeps: "step\<^sup>*\<^sup>* s t \<Longrightarrow> inv s \<Longrightarrow> inv t"
  by (induction rule: rtranclp_induct) (auto intro: step_keeps)

end

section \<open>The doubling loop\<close>

text \<open>
  \<^verbatim>\<open>for size < n { size <<= 1 }\<close> on a 64-bit \<open>int\<close>: not returning is \<open>None\<close>.
\<close>

partial_function (option) pow2_loop :: "i64 \<Rightarrow> i64 \<Rightarrow> i64 option" where
  "pow2_loop n sz = (if sz <s n then pow2_loop n (push_bit 1 sz) else Some sz)"

lemma sint64_pow2:
  assumes "k < 63"
  shows "sint (2 ^ k :: i64) = 2 ^ k"
proof -
  have "(2 :: int) ^ k < 2 ^ 63" using assms by (intro power_strict_increasing) auto
  moreover have "- (2 ^ 63) \<le> (2 :: int) ^ k" by (rule order.trans [of _ 0]) simp_all
  ultimately show ?thesis using sint64_of_int [of "2 ^ k"] by simp
qed

lemma pow2_loop_step:
  "pow2_loop n (2 ^ k) = (if 2 ^ k <s n then pow2_loop n (2 ^ Suc k) else Some (2 ^ k))"
  by (subst pow2_loop.simps) (simp add: push_bit_eq_mult ac_simps)

text \<open>Up to \<open>2\<^sup>6\<^sup>2\<close> the loop stops at the least power of two that is at least \<open>n\<close>.\<close>

lemma pow2_loop_from:
  assumes "sint n \<le> 2 ^ 62" and "k \<le> 62" and "k = 0 \<or> 2 ^ (k - 1) < sint n"
  shows "\<exists>j. k \<le> j \<and> j \<le> 62 \<and> pow2_loop n (2 ^ k) = Some (2 ^ j) \<and>
           sint n \<le> 2 ^ j \<and> (j = 0 \<or> 2 ^ (j - 1) < sint n)"
  using assms(2,3)
proof (induction "62 - k" arbitrary: k)
  case 0
  then have k: "k = 62" by simp
  then have "\<not> (2 ^ k <s n)" using assms(1) sint64_pow2 [of k] by (simp add: word_sless_alt)
  then have "pow2_loop n (2 ^ k) = Some (2 ^ k)" by (simp only: pow2_loop_step [of n k] if_False)
  then show ?case using 0 k assms(1) by (intro exI [of _ k]) auto
next
  case (Suc d)
  have s: "2 ^ k <s n \<longleftrightarrow> 2 ^ k < sint n"
    using Suc.hyps(2) sint64_pow2 [of k] by (simp add: word_sless_alt)
  show ?case
  proof (cases "2 ^ k < sint n")
    case True
    have "\<exists>j. Suc k \<le> j \<and> j \<le> 62 \<and> pow2_loop n (2 ^ Suc k) = Some (2 ^ j) \<and>
            sint n \<le> 2 ^ j \<and> (j = 0 \<or> 2 ^ (j - 1) < sint n)"
      using Suc.hyps True by (intro Suc.hyps(1)) auto
    then show ?thesis using True s unfolding pow2_loop_step [of n k] by (auto intro: Suc_leD)
  next
    case False
    then show ?thesis using s Suc.prems
      by (intro exI [of _ k]) (auto simp: pow2_loop_step [of n k])
  qed
qed

lemma pow2_loop_returns:
  assumes "sint n \<le> 2 ^ 62"
  shows "\<exists>j \<le> 62. pow2_loop n 1 = Some (2 ^ j) \<and> sint n \<le> 2 ^ j \<and>
           (j = 0 \<or> 2 ^ (j - 1) < sint n)"
  using pow2_loop_from [OF assms, of 0] by auto

text \<open>Above \<open>2\<^sup>6\<^sup>2\<close> the size overflows to zero and the loop never stops.\<close>

lemma pow2_loop_zero:
  assumes "0 < sint n"
  shows "pow2_loop n 0 = None"
proof (rule ccontr)
  assume "pow2_loop n 0 \<noteq> None"
  then obtain r where r: "pow2_loop n 0 = Some r" by auto
  have "\<not> (0 < sint n \<and> (0 :: i64) = 0)"
  proof (rule pow2_loop.raw_induct [where P = "\<lambda>n s r. \<not> (0 < sint n \<and> s = 0)", OF _ r])
    fix f n s r
    assume IH: "\<And>n s r. f n s = Some r \<Longrightarrow> \<not> (0 < sint n \<and> s = 0)"
      and eq: "(if s <s n then f n (push_bit 1 s) else Some s) = Some r"
    show "\<not> (0 < sint n \<and> s = 0)"
      using IH [of n 0 r] eq by (auto simp: word_sless_alt)
  qed
  with assms show False by simp
qed

lemma pow2_loop_climbs:
  assumes "2 ^ 62 < sint n" and "k \<le> 63"
  shows "pow2_loop n (2 ^ (63 - k)) = None"
  using assms(2)
proof (induction k)
  case 0
  have "sint (2 ^ 63 :: i64) < 0" and "2 ^ Suc 63 = (0 :: i64)" by simp_all
  then show ?case using assms(1) pow2_loop_zero [of n]
    by (simp only: pow2_loop_step [of n 63] diff_zero) (simp add: word_sless_alt)
next
  case (Suc k)
  have "sint (2 ^ (63 - Suc k) :: i64) = 2 ^ (63 - Suc k)"
    using Suc.prems by (intro sint64_pow2) simp
  also have "(2 :: int) ^ (63 - Suc k) \<le> 2 ^ 62" by (intro power_increasing) auto
  finally have "2 ^ (63 - Suc k) <s n" using assms(1) by (simp add: word_sless_alt)
  moreover have "Suc (63 - Suc k) = 63 - k" using Suc.prems by simp
  ultimately show ?case using Suc.IH Suc.prems unfolding pow2_loop_step [of n "63 - Suc k"] by simp
qed

lemma pow2_loop_diverges: "2 ^ 62 < sint n \<Longrightarrow> pow2_loop n 1 = None"
  using pow2_loop_climbs [of n 63] by simp

end
