(* ===== verification/Queue.thy ===== *)
theory Queue
  imports Netx_Prelude
begin

text \<open>
  Package \<open>queue\<close> (\<open>src/queue/queue.go\<close>): the bounded ring.

  \<open>ring\<close> is the struct \<open>Ring\<close>: the slots, the index mask, \<open>head\<close> and \<open>n\<close>, the
  closed flag, the overflow policy, whether \<open>onDrop\<close> is set, the two capacity-one
  channels (\<open>True\<close> when a token is in the channel), the closed state of \<open>done\<close>, and the
  counters. The zero value of the element type is the constant 0 of class \<open>zero\<close>. Each
  operation returns its result, the items it hands to \<open>OnDrop\<close> in call order, and the new
  ring; what runs under the mutex is a separate definition (suffix \<open>_cs\<close>), so that
  \<open>Queue_Wait\<close> can interleave it with the signals sent after the unlock.

  The abstract specification is a bounded list (\<open>fifo\<close>). The lemmas show that the ring
  keeps its invariant, that every operation refines the list operation, that vacated
  slots are zeroed, and that no item is lost or duplicated.
\<close>

section \<open>Data\<close>

datatype policy = Reject | DropOldest

record Stats =
  Len :: nat
  Pushed :: u64
  Popped :: u64
  Dropped :: u64
  Rejected :: u64

record 'a ring =
  r_items :: "'a list"
  r_mask :: nat
  r_head :: nat
  r_n :: nat
  r_closed :: bool
  r_policy :: policy
  r_onDrop :: bool
  r_notEmpty :: bool
  r_notFull :: bool
  r_done :: bool
  r_stats :: Stats

definition zero_stats :: Stats where
  "zero_stats = \<lparr>Len = 0, Pushed = 0, Popped = 0, Dropped = 0, Rejected = 0\<rparr>"

section \<open>Operations\<close>

text \<open>\<open>New\<close>: \<open>None\<close> when the size loop does not stop.\<close>

definition Ring_New :: "i64 \<Rightarrow> policy \<Rightarrow> bool \<Rightarrow> ('a :: zero ring, unit) res option" where
  "Ring_New Cap p od =
     (if sint Cap \<le> 0 then Some (Panic ''queue: Cap must be positive'' ())
      else map_option (\<lambda>sz. Ret
             \<lparr>r_items = replicate (unat sz) 0, r_mask = unat (sz - 1), r_head = 0, r_n = 0, r_closed = False,
              r_policy = p, r_onDrop = od, r_notEmpty = False, r_notFull = False, r_done = False,
              r_stats = zero_stats\<rparr> ())
             (pow2_loop Cap 1))"

text \<open>A non-blocking send on a channel of capacity one.\<close>

definition signal :: "bool \<Rightarrow> bool" where
  "signal c = True"

definition signal_notEmpty :: "'a ring \<Rightarrow> 'a ring" where
  "signal_notEmpty r = r\<lparr>r_notEmpty := signal (r_notEmpty r)\<rparr>"

definition signal_notFull :: "'a ring \<Rightarrow> 'a ring" where
  "signal_notFull r = r\<lparr>r_notFull := signal (r_notFull r)\<rparr>"

definition count_rejected :: "'a ring \<Rightarrow> 'a ring" where
  "count_rejected r = r\<lparr>r_stats := (r_stats r)\<lparr>Rejected := Rejected (r_stats r) + 1\<rparr>\<rparr>"

definition put :: "'a \<Rightarrow> 'a ring \<Rightarrow> 'a ring" where
  "put v r = r\<lparr>r_items := (r_items r)[(r_head r + r_n r) AND r_mask r := v], r_n := r_n r + 1,
               r_stats := (r_stats r)\<lparr>Pushed := Pushed (r_stats r) + 1\<rparr>\<rparr>"

definition popLocked :: "'a :: zero ring \<Rightarrow> 'a \<times> 'a ring" where
  "popLocked r =
     (r_items r ! r_head r,
      r\<lparr>r_items := (r_items r)[r_head r := 0], r_head := (r_head r + 1) AND r_mask r, r_n := r_n r - 1\<rparr>)"

definition Ring_Push_cs :: "'a :: zero \<Rightarrow> 'a ring \<Rightarrow> (bool \<times> 'a option) \<times> 'a ring" where
  "Ring_Push_cs v r =
     (if r_closed r then ((False, None), count_rejected r)
      else if r_n r = length (r_items r) then
        (if r_policy r = Reject then ((False, None), count_rejected r)
         else (let (dropped, r1) = popLocked r;
                   r2 = r1\<lparr>r_stats := (r_stats r1)\<lparr>Dropped := Dropped (r_stats r1) + 1\<rparr>\<rparr>
               in ((True, Some dropped), put v r2)))
      else ((True, None), put v r))"

definition to_onDrop :: "'a ring \<Rightarrow> 'a option \<Rightarrow> 'a list" where
  "to_onDrop r x = (case x of None \<Rightarrow> [] | Some v \<Rightarrow> if r_onDrop r then [v] else [])"

definition Ring_Push :: "'a :: zero \<Rightarrow> 'a ring \<Rightarrow> (bool \<times> 'a list) \<times> 'a ring" where
  "Ring_Push v r =
     (let ((ok, evicted), r1) = Ring_Push_cs v r
      in if \<not> ok then ((False, []), r1)
         else ((True, to_onDrop r1 evicted), signal_notEmpty r1))"

text \<open>One pass of the \<open>PushWait\<close> loop under the lock; \<open>PW_Full\<close> goes on to the select.\<close>

datatype pushwait = PW_Closed | PW_Stored bool | PW_Full

definition Ring_PushWait_cs :: "'a \<Rightarrow> 'a ring \<Rightarrow> pushwait \<times> 'a ring" where
  "Ring_PushWait_cs v r =
     (if r_closed r then (PW_Closed, count_rejected r)
      else if r_n r < length (r_items r) then
        (let r1 = put v r in (PW_Stored (r_n r1 < length (r_items r1)), r1))
      else (PW_Full, r))"

definition Ring_Pop_cs :: "'a :: zero ring \<Rightarrow> ('a \<times> bool) option \<times> 'a ring" where
  "Ring_Pop_cs r =
     (if r_n r = 0 then (None, r)
      else (let (v, r1) = popLocked r;
                r2 = r1\<lparr>r_stats := (r_stats r1)\<lparr>Popped := Popped (r_stats r1) + 1\<rparr>\<rparr>
            in (Some (v, r_n r2 > 0), r2)))"

definition Ring_Pop :: "'a :: zero ring \<Rightarrow> 'a option \<times> 'a ring" where
  "Ring_Pop r =
     (case Ring_Pop_cs r of
        (None, r1) \<Rightarrow> (None, r1)
      | (Some (v, others), r1) \<Rightarrow>
          (Some v, (if others then signal_notEmpty (signal_notFull r1) else signal_notFull r1)))"

definition Ring_Close_cs :: "'a ring \<Rightarrow> bool \<times> 'a ring" where
  "Ring_Close_cs r = (if r_closed r then (False, r) else (True, r\<lparr>r_closed := True\<rparr>))"

definition close_done :: "'a ring \<Rightarrow> 'a ring" where
  "close_done r = r\<lparr>r_done := True\<rparr>"

definition Ring_Close :: "'a ring \<Rightarrow> 'a ring" where
  "Ring_Close r = (let (first, r1) = Ring_Close_cs r in if first then close_done r1 else r1)"

function drain_loop :: "'a :: zero list \<Rightarrow> 'a ring \<Rightarrow> 'a list \<times> 'a ring" where
  "drain_loop acc r =
     (if r_n r > 0 then (let (v, r1) = popLocked r in drain_loop (acc @ [v]) r1) else (acc, r))"
  by pat_completeness auto
termination
  by (relation "measure (\<lambda>(acc, r). r_n r)") (auto simp: popLocked_def)

declare drain_loop.simps [simp del]

definition Ring_Drain :: "'a :: zero ring \<Rightarrow> (nat \<times> 'a list) \<times> 'a ring" where
  "Ring_Drain r =
     (let (xs, r1) = drain_loop [] r;
          r2 = r1\<lparr>r_stats := (r_stats r1)\<lparr>Dropped := Dropped (r_stats r1) + of_nat (length xs)\<rparr>\<rparr>
      in ((length xs, if r_onDrop r2 then xs else []), r2))"

definition Ring_Len :: "'a ring \<Rightarrow> nat" where
  "Ring_Len r = r_n r"

definition Ring_Cap :: "'a ring \<Rightarrow> nat" where
  "Ring_Cap r = length (r_items r)"

definition Ring_Stats :: "'a ring \<Rightarrow> Stats" where
  "Ring_Stats r = (r_stats r)\<lparr>Len := r_n r\<rparr>"

lemmas ring_defs [netx_defs] = signal_def signal_notEmpty_def signal_notFull_def count_rejected_def put_def
  popLocked_def Ring_Push_cs_def to_onDrop_def Ring_Push_def Ring_PushWait_cs_def Ring_Pop_cs_def Ring_Pop_def Ring_Close_cs_def close_done_def
  Ring_Close_def Ring_Drain_def Ring_Len_def Ring_Cap_def Ring_Stats_def


section \<open>The ring invariant\<close>

text \<open>
  The slot count is a power of two and the mask is one less; \<open>head\<close> is a slot and at most
  all slots are in use; a slot outside the window holds the zero value (nothing popped stays
  referenced); closing sets both the flag and the channel; and the counters balance modulo
  \<open>2\<^sup>6\<^sup>4\<close>.
\<close>

definition window :: "'a ring \<Rightarrow> nat list" where
  "window r = map (\<lambda>i. (r_head r + i) mod length (r_items r)) [0..<r_n r]"

definition contents :: "'a ring \<Rightarrow> 'a list" where
  "contents r = map (\<lambda>i. r_items r ! i) (window r)"

definition ring_wf :: "'a :: zero ring \<Rightarrow> bool" where
  "ring_wf r \<longleftrightarrow>
     (\<exists>k. length (r_items r) = 2 ^ k) \<and> r_mask r = length (r_items r) - 1 \<and>
     r_head r < length (r_items r) \<and> r_n r \<le> length (r_items r) \<and>
     (\<forall>i < length (r_items r). i \<notin> set (window r) \<longrightarrow> r_items r ! i = 0)"

definition ring_inv :: "'a :: zero ring \<Rightarrow> bool" where
  "ring_inv r \<longleftrightarrow> ring_wf r \<and> r_done r = r_closed r \<and>
     Pushed (r_stats r) = Popped (r_stats r) + Dropped (r_stats r) + of_nat (r_n r)"

lemma and_mask_mod: "(x :: nat) AND (2 ^ k - 1) = x mod 2 ^ k"
  using take_bit_eq_mask [of k x] by (simp add: take_bit_eq_mod mask_eq_exp_minus_1)

lemma ring_index:
  assumes "ring_wf r"
  shows "x AND r_mask r = x mod length (r_items r)"
proof -
  obtain k where "length (r_items r) = 2 ^ k" and "r_mask r = 2 ^ k - 1"
    using assms by (auto simp: ring_wf_def)
  then show ?thesis by (simp only: and_mask_mod)
qed

lemma ring_slots: "ring_wf r \<Longrightarrow> 0 < length (r_items r)"
  by (auto simp: ring_wf_def)

lemma window_inj:
  assumes "(h + i) mod c = (h + j) mod (c :: nat)" and "i < c" and "j < c"
  shows "i = j"
proof -
  have aux: "i = j" if "(h + i) mod c = (h + j) mod c" "i \<le> j" "j < c" for i j
  proof -
    have "c dvd (h + j) - (h + i)" using that by (metis mod_eq_dvd_iff_nat nat_add_left_cancel_le)
    then have "c dvd j - i" by simp
    then show "i = j" using that by (metis diff_is_0_eq dvd_imp_le leD le_antisym less_imp_diff_less not_gr_zero)
  qed
  show ?thesis using aux [of i j] aux [of j i] assms by (cases "i \<le> j") auto
qed

lemma length_window [simp]: "length (window r) = r_n r"
  by (simp add: window_def)

lemma length_contents [simp]: "length (contents r) = r_n r"
  by (simp add: contents_def)

lemma set_window:
  "i \<in> set (window r) \<longleftrightarrow> (\<exists>j < r_n r. i = (r_head r + j) mod length (r_items r))"
  by (auto simp: window_def)

lemma window_fresh:
  assumes "r_n r < length (r_items r)"
  shows "(r_head r + r_n r) mod length (r_items r) \<notin> set (window r)"
  using assms by (auto simp: set_window dest!: window_inj)

lemma distinct_window: "r_n r \<le> length (r_items r) \<Longrightarrow> distinct (window r)"
  unfolding window_def distinct_map by (auto intro!: inj_onI dest: window_inj)

subsection \<open>Storing an item\<close>

lemma put_contents:
  assumes "ring_wf r" and "r_n r < length (r_items r)"
  shows "contents (put v r) = contents r @ [v]"
proof -
  let ?c = "length (r_items r)" and ?p = "(r_head r + r_n r) mod length (r_items r)"
  have p: "?p < ?c" using ring_slots [OF assms(1)] by simp
  have "(r_items r)[?p := v] ! i = r_items r ! i" if "i \<in> set (window r)" for i
    using that window_fresh [OF assms(2)] by (metis nth_list_update_neq)
  then show ?thesis using p
    by (simp add: contents_def put_def ring_index [OF assms(1)] window_def)
qed

lemma put_fields [simp]:
  "length (r_items (put v r)) = length (r_items r)" "r_mask (put v r) = r_mask r"
  "r_head (put v r) = r_head r" "r_n (put v r) = Suc (r_n r)" "r_closed (put v r) = r_closed r"
  "r_policy (put v r) = r_policy r" "r_onDrop (put v r) = r_onDrop r" "r_done (put v r) = r_done r"
  "r_stats (put v r) = (r_stats r)\<lparr>Pushed := Pushed (r_stats r) + 1\<rparr>"
  "r_notEmpty (put v r) = r_notEmpty r" "r_notFull (put v r) = r_notFull r"
  by (simp_all add: put_def)

lemma put_wf [netx_inv]:
  assumes "ring_wf r" and "r_n r < length (r_items r)"
  shows "ring_wf (put v r)"
proof -
  let ?p = "(r_head r + r_n r) mod length (r_items r)"
  have "set (window (put v r)) = insert ?p (set (window r))"
    by (auto simp: window_def put_def)
  moreover have "r_items (put v r) = (r_items r)[?p := v]"
    by (simp add: put_def ring_index [OF assms(1)])
  ultimately show ?thesis using assms
    by (auto simp: ring_wf_def put_def nth_list_update)
qed

subsection \<open>Taking the oldest item\<close>

lemma window_pop:
  assumes "ring_wf r" and "0 < r_n r"
  shows "window r = r_head r # window (snd (popLocked r))"
proof -
  let ?c = "length (r_items r)"
  have h: "r_head r mod ?c = r_head r" using assms(1) by (simp add: ring_wf_def)
  obtain m where m: "r_n r = Suc m" using assms(2) by (cases "r_n r") auto
  have "[0..<Suc m] = 0 # map Suc [0..<m]"
    by (simp add: map_Suc_upt upt_conv_Cons del: upt_Suc)
  then have "window r = r_head r # map (\<lambda>i. (r_head r + Suc i) mod ?c) [0..<m]"
    by (simp add: window_def m h)
  then show ?thesis
    by (simp add: window_def popLocked_def ring_index [OF assms(1)] m mod_simps)
qed

lemma popLocked_items: "r_items (snd (popLocked r)) = (r_items r)[r_head r := 0]"
  by (simp add: popLocked_def)

lemma popLocked_inv_window:
  assumes "ring_wf r" and "0 < r_n r"
  shows "r_head r \<notin> set (window (snd (popLocked r)))"
proof -
  have "distinct (window r)" using assms by (simp add: distinct_window ring_wf_def)
  then show ?thesis by (simp add: window_pop [OF assms])
qed

lemma popLocked_contents:
  assumes "ring_wf r" and "0 < r_n r"
  shows "contents r = fst (popLocked r) # contents (snd (popLocked r))"
proof -
  have "r_items (snd (popLocked r)) ! i = r_items r ! i"
    if "i \<in> set (window (snd (popLocked r)))" for i
    using that popLocked_inv_window [OF assms]
    by (metis nth_list_update_neq popLocked_items)
  then show ?thesis by (simp add: contents_def window_pop [OF assms]) (simp add: popLocked_def)
qed

text \<open>Everything but the balance of the counters survives \<open>popLocked\<close>.\<close>

lemma popLocked_zeroed:
  assumes "ring_wf r" and "0 < r_n r"
    and "i < length (r_items r)" and "i \<notin> set (window (snd (popLocked r)))"
  shows "r_items (snd (popLocked r)) ! i = 0"
proof (cases "i = r_head r")
  case True
  then show ?thesis using assms(3) by (simp add: popLocked_def)
next
  case False
  then have "i \<notin> set (window r)" using assms(4) by (simp add: window_pop [OF assms(1,2)])
  then show ?thesis using False assms(1,3) by (simp add: popLocked_def ring_wf_def nth_list_update_neq)
qed

lemma popLocked_fields [simp]:
  "length (r_items (snd (popLocked r))) = length (r_items r)"
  "r_mask (snd (popLocked r)) = r_mask r" "r_n (snd (popLocked r)) = r_n r - 1"
  "r_closed (snd (popLocked r)) = r_closed r" "r_policy (snd (popLocked r)) = r_policy r"
  "r_onDrop (snd (popLocked r)) = r_onDrop r" "r_done (snd (popLocked r)) = r_done r"
  "r_stats (snd (popLocked r)) = r_stats r" "r_notEmpty (snd (popLocked r)) = r_notEmpty r"
  "r_notFull (snd (popLocked r)) = r_notFull r"
  by (simp_all add: popLocked_def)

lemma popLocked_head:
  "ring_wf r \<Longrightarrow> r_head (snd (popLocked r)) < length (r_items r)"
  using ring_slots [of r] by (simp add: popLocked_def ring_index)


lemma popLocked_wf [netx_inv]:
  assumes "ring_wf r" and "0 < r_n r"
  shows "ring_wf (snd (popLocked r))"
  using assms popLocked_head [OF assms(1)] popLocked_zeroed [OF assms]
  by (auto simp: ring_wf_def)

text \<open>Fields outside the slots do not matter to the well-formedness of the ring.\<close>

lemma window_cong [simp]:
  "window (r\<lparr>r_stats := s\<rparr>) = window r" "window (r\<lparr>r_notEmpty := b\<rparr>) = window r"
  "window (r\<lparr>r_notFull := b\<rparr>) = window r" "window (r\<lparr>r_closed := b\<rparr>) = window r"
  "window (r\<lparr>r_done := b\<rparr>) = window r"
  by (simp_all add: window_def)

lemma contents_cong [simp]:
  "contents (r\<lparr>r_stats := s\<rparr>) = contents r" "contents (r\<lparr>r_notEmpty := b\<rparr>) = contents r"
  "contents (r\<lparr>r_notFull := b\<rparr>) = contents r" "contents (r\<lparr>r_closed := b\<rparr>) = contents r"
  "contents (r\<lparr>r_done := b\<rparr>) = contents r"
  by (simp_all add: contents_def)

lemma ring_wf_cong [simp]:
  "ring_wf (r\<lparr>r_stats := s\<rparr>) = ring_wf r" "ring_wf (r\<lparr>r_notEmpty := b\<rparr>) = ring_wf r"
  "ring_wf (r\<lparr>r_notFull := b\<rparr>) = ring_wf r" "ring_wf (r\<lparr>r_closed := b\<rparr>) = ring_wf r"
  "ring_wf (r\<lparr>r_done := b\<rparr>) = ring_wf r"
  by (simp_all add: ring_wf_def)

lemma drain_loop_correct:
  "ring_wf r \<Longrightarrow> fst (drain_loop acc r) = acc @ contents r \<and>
     ring_wf (snd (drain_loop acc r)) \<and> r_n (snd (drain_loop acc r)) = 0 \<and>
     r_stats (snd (drain_loop acc r)) = r_stats r \<and> r_onDrop (snd (drain_loop acc r)) = r_onDrop r \<and>
     r_closed (snd (drain_loop acc r)) = r_closed r \<and> r_policy (snd (drain_loop acc r)) = r_policy r \<and>
     r_notFull (snd (drain_loop acc r)) = r_notFull r \<and> r_done (snd (drain_loop acc r)) = r_done r \<and>
     r_notEmpty (snd (drain_loop acc r)) = r_notEmpty r \<and>
     length (r_items (snd (drain_loop acc r))) = length (r_items r)"
proof (induction acc r rule: drain_loop.induct)
  case (1 acc r)
  show ?case
  proof (cases "r_n r > 0")
    case True
    have "drain_loop acc r = drain_loop (acc @ [fst (popLocked r)]) (snd (popLocked r))"
      using True by (subst drain_loop.simps) (simp add: case_prod_beta)
    then show ?thesis
      using "1.IH" [OF True refl, of "fst (popLocked r)" "snd (popLocked r)"] popLocked_wf [OF "1.prems" True]
        popLocked_contents [OF "1.prems" True] by simp
  next
    case False
    then have "drain_loop acc r = (acc, r)" by (subst drain_loop.simps) simp
    then show ?thesis using False "1.prems" by (simp add: contents_def window_def)
  qed
qed

section \<open>The abstract queue\<close>

record 'a fifo =
  q_list :: "'a list"
  q_cap :: nat
  q_closed :: bool
  q_policy :: policy
  q_onDrop :: bool
  q_stats :: Stats

definition ring_abs :: "'a ring \<Rightarrow> 'a fifo" where
  "ring_abs r = \<lparr>q_list = contents r, q_cap = length (r_items r), q_closed = r_closed r,
                 q_policy = r_policy r, q_onDrop = r_onDrop r, q_stats = r_stats r\<rparr>"

text \<open>One pass of \<open>PushWait\<close> with the signals it sends after the unlock.\<close>

definition Ring_PushWait_pass :: "'a \<Rightarrow> 'a ring \<Rightarrow> pushwait \<times> 'a ring" where
  "Ring_PushWait_pass v r =
     (case Ring_PushWait_cs v r of
        (PW_Stored others, r1) \<Rightarrow>
          (PW_Stored others, if others then signal_notFull (signal_notEmpty r1) else signal_notEmpty r1)
      | (x, r1) \<Rightarrow> (x, r1))"

datatype 'a ring_op = OpPush 'a | OpPushWait 'a | OpPop | OpClose | OpDrain | OpLen | OpCap | OpStats

datatype 'a ring_out = OutPush bool "'a list" | OutPushWait pushwait | OutPop "'a option" | OutClose
  | OutDrain nat "'a list" | OutNat nat | OutStats Stats

fun ring_step :: "'a :: zero ring_op \<Rightarrow> 'a ring \<Rightarrow> 'a ring_out \<times> 'a ring" where
  "ring_step (OpPush v) r = (let ((ok, ds), r') = Ring_Push v r in (OutPush ok ds, r'))"
| "ring_step (OpPushWait v) r = (let (x, r') = Ring_PushWait_pass v r in (OutPushWait x, r'))"
| "ring_step OpPop r = (let (x, r') = Ring_Pop r in (OutPop x, r'))"
| "ring_step OpClose r = (OutClose, Ring_Close r)"
| "ring_step OpDrain r = (let ((k, ds), r') = Ring_Drain r in (OutDrain k ds, r'))"
| "ring_step OpLen r = (OutNat (Ring_Len r), r)"
| "ring_step OpCap r = (OutNat (Ring_Cap r), r)"
| "ring_step OpStats r = (OutStats (Ring_Stats r), r)"

abbreviation q_reject :: "'a fifo \<Rightarrow> 'a fifo" where
  "q_reject q \<equiv> q\<lparr>q_stats := (q_stats q)\<lparr>Rejected := Rejected (q_stats q) + 1\<rparr>\<rparr>"

abbreviation q_add :: "'a \<Rightarrow> 'a fifo \<Rightarrow> 'a fifo" where
  "q_add v q \<equiv> q\<lparr>q_list := q_list q @ [v],
                 q_stats := (q_stats q)\<lparr>Pushed := Pushed (q_stats q) + 1\<rparr>\<rparr>"

fun fifo_step :: "'a ring_op \<Rightarrow> 'a fifo \<Rightarrow> 'a ring_out \<times> 'a fifo" where
  "fifo_step (OpPush v) q =
     (if q_closed q then (OutPush False [], q_reject q)
      else if length (q_list q) < q_cap q then (OutPush True [], q_add v q)
      else if q_policy q = Reject then (OutPush False [], q_reject q)
      else (OutPush True (if q_onDrop q then [hd (q_list q)] else []),
            q_add v (q\<lparr>q_list := tl (q_list q),
                       q_stats := (q_stats q)\<lparr>Dropped := Dropped (q_stats q) + 1\<rparr>\<rparr>)))"
| "fifo_step (OpPushWait v) q =
     (if q_closed q then (OutPushWait PW_Closed, q_reject q)
      else if length (q_list q) < q_cap q
        then (OutPushWait (PW_Stored (Suc (length (q_list q)) < q_cap q)), q_add v q)
      else (OutPushWait PW_Full, q))"
| "fifo_step OpPop q =
     (case q_list q of [] \<Rightarrow> (OutPop None, q)
      | v # vs \<Rightarrow> (OutPop (Some v),
                  q\<lparr>q_list := vs, q_stats := (q_stats q)\<lparr>Popped := Popped (q_stats q) + 1\<rparr>\<rparr>))"
| "fifo_step OpClose q = (OutClose, q\<lparr>q_closed := True\<rparr>)"
| "fifo_step OpDrain q =
     (OutDrain (length (q_list q)) (if q_onDrop q then q_list q else []),
      q\<lparr>q_list := [], q_stats := (q_stats q)\<lparr>Dropped := Dropped (q_stats q) + of_nat (length (q_list q))\<rparr>\<rparr>)"
| "fifo_step OpLen q = (OutNat (length (q_list q)), q)"
| "fifo_step OpCap q = (OutNat (q_cap q), q)"
| "fifo_step OpStats q = (OutStats ((q_stats q)\<lparr>Len := length (q_list q)\<rparr>), q)"


section \<open>Every operation keeps the invariant and refines the abstract queue\<close>

lemmas ring_op_defs = Ring_Push_def Ring_Push_cs_def Ring_PushWait_pass_def Ring_PushWait_cs_def
  Ring_Pop_def Ring_Pop_cs_def Ring_Close_cs_def close_done_def Ring_Close_def Ring_Drain_def Ring_Len_def Ring_Cap_def Ring_Stats_def
  signal_def signal_notEmpty_def signal_notFull_def count_rejected_def to_onDrop_def

lemma ring_room: "ring_wf r \<Longrightarrow> r_n r \<noteq> length (r_items r) \<Longrightarrow> r_n r < length (r_items r)"
  by (simp add: ring_wf_def)

lemma of_nat_pred64: "0 < k \<Longrightarrow> (of_nat (k - 1) :: u64) = of_nat k - 1"
  by (cases k) auto

text \<open>Eviction: a full ring drops its oldest item and stores the new one.\<close>

definition evicting :: "'a :: zero ring \<Rightarrow> 'a ring" where
  "evicting r = (snd (popLocked r))\<lparr>r_stats := (r_stats r)\<lparr>Dropped := Dropped (r_stats r) + 1\<rparr>\<rparr>"

lemma evict:
  assumes "ring_wf r" and "r_n r = length (r_items r)"
  shows "0 < r_n r" and "ring_wf (evicting r)" and "r_n (evicting r) < length (r_items (evicting r))"
    and "contents r = fst (popLocked r) # contents (evicting r)"
proof -
  show pos: "0 < r_n r" using assms ring_slots by simp
  show "ring_wf (evicting r)" using popLocked_wf [OF assms(1) pos] by (simp add: evicting_def)
  show "r_n (evicting r) < length (r_items (evicting r))" using assms(2) pos by (simp add: evicting_def)
  show "contents r = fst (popLocked r) # contents (evicting r)"
    using popLocked_contents [OF assms(1) pos] by (simp add: evicting_def)
qed

lemma Ring_Push_eq:
  "Ring_Push v r =
     (if r_closed r \<or> r_n r = length (r_items r) \<and> r_policy r = Reject
        then ((False, []), count_rejected r)
      else if r_n r = length (r_items r)
        then ((True, if r_onDrop r then [fst (popLocked r)] else []), signal_notEmpty (put v (evicting r)))
      else ((True, []), signal_notEmpty (put v r)))"
  by (simp add: Ring_Push_def Ring_Push_cs_def to_onDrop_def evicting_def case_prod_beta Let_def)

lemma ring_push_inv [netx_inv]:
  assumes "ring_inv r"
  shows "ring_inv (snd (Ring_Push v r))"
proof -
  have wf: "ring_wf r" using assms by (simp add: ring_inv_def)
  have "ring_inv (signal_notEmpty (put v (evicting r)))" if full: "r_n r = length (r_items r)"
    using assms evict [OF wf full] put_wf [OF evict(2,3) [OF wf full]]
    by (simp add: ring_inv_def signal_notEmpty_def) (simp add: evicting_def of_nat_pred64)
  moreover have "ring_inv (signal_notEmpty (put v r))" if "r_n r \<noteq> length (r_items r)"
    using assms put_wf [OF wf ring_room [OF wf that]] by (simp add: ring_inv_def signal_notEmpty_def)
  ultimately show ?thesis
    using assms by (simp add: Ring_Push_eq) (simp add: ring_inv_def count_rejected_def)
qed

lemma ring_pushwait_inv [netx_inv]: "ring_inv r \<Longrightarrow> ring_inv (snd (Ring_PushWait_pass v r))"
  by (auto simp: ring_inv_def ring_op_defs case_prod_beta Let_def intro!: put_wf)

lemma ring_pop_inv [netx_inv]: "ring_inv r \<Longrightarrow> ring_inv (snd (Ring_Pop r))"
  by (cases "r_n r = 1")
     (auto simp: ring_inv_def ring_op_defs case_prod_beta Let_def of_nat_pred64 [simplified]
       intro!: popLocked_wf)

lemma ring_close_inv [netx_inv]: "ring_inv r \<Longrightarrow> ring_inv (Ring_Close r)"
  by (auto simp: ring_inv_def ring_op_defs)

lemma ring_drain_inv [netx_inv]: "ring_inv r \<Longrightarrow> ring_inv (snd (Ring_Drain r))"
  using drain_loop_correct [of r "[]"]
  by (auto simp: ring_inv_def ring_op_defs case_prod_beta Let_def)

lemma ring_step_inv: "ring_inv r \<Longrightarrow> ring_inv (snd (ring_step e r))"
  by (cases e) (simp_all add: case_prod_beta Let_def netx_inv)

lemma Ring_Push_refines:
  assumes "ring_inv r"
  shows "fifo_step (OpPush v) (ring_abs r) = (fst (ring_step (OpPush v) r), ring_abs (snd (ring_step (OpPush v) r)))"
proof -
  have wf: "ring_wf r" using assms by (simp add: ring_inv_def)
  have "ring_abs (signal_notEmpty (put v (evicting r))) = snd (fifo_step (OpPush v) (ring_abs r))"
    if full: "r_n r = length (r_items r)" and "\<not> r_closed r" "r_policy r \<noteq> Reject"
    using that put_contents [OF evict(2,3) [OF wf full]] evict(4) [OF wf full]
    by (simp add: ring_abs_def signal_notEmpty_def) (simp add: evicting_def)
  moreover have "contents (put v r) = contents r @ [v]" if "r_n r \<noteq> length (r_items r)"
    using put_contents [OF wf ring_room [OF wf that]] .
  moreover have "hd (contents r) = fst (popLocked r)" if "r_n r = length (r_items r)"
    using evict(4) [OF wf that] by simp
  ultimately show ?thesis
    using ring_room [OF wf]
    by (auto simp: Ring_Push_eq ring_abs_def signal_notEmpty_def count_rejected_def)
qed

lemma Ring_PushWait_refines:
  assumes "ring_inv r"
  shows "fifo_step (OpPushWait v) (ring_abs r) =
           (fst (ring_step (OpPushWait v) r), ring_abs (snd (ring_step (OpPushWait v) r)))"
  using assms put_contents [of r v]
  by (auto simp: ring_inv_def ring_abs_def Ring_PushWait_pass_def Ring_PushWait_cs_def Let_def
      signal_notEmpty_def signal_notFull_def count_rejected_def signal_def)

lemma Ring_Pop_refines:
  assumes "ring_inv r"
  shows "fifo_step OpPop (ring_abs r) = (fst (ring_step OpPop r), ring_abs (snd (ring_step OpPop r)))"
  using assms popLocked_contents [of r]
  by (cases "r_n r = 0")
     (auto simp: ring_inv_def ring_abs_def Ring_Pop_def Ring_Pop_cs_def Let_def case_prod_beta
      signal_notEmpty_def signal_notFull_def signal_def contents_def window_def)

lemma Ring_Drain_refines:
  assumes "ring_inv r"
  shows "fifo_step OpDrain (ring_abs r) = (fst (ring_step OpDrain r), ring_abs (snd (ring_step OpDrain r)))"
  using assms drain_loop_correct [of r "[]"]
  by (auto simp: ring_inv_def ring_abs_def Ring_Drain_def Let_def case_prod_beta contents_def window_def)

lemma ring_step_refines:
  assumes "ring_inv r"
  shows "fifo_step e (ring_abs r) = (fst (ring_step e r), ring_abs (snd (ring_step e r)))"
proof (cases e)
  case OpClose
  then show ?thesis by (simp add: ring_abs_def Ring_Close_def Ring_Close_cs_def close_done_def)
qed (use assms in \<open>simp_all only: Ring_Push_refines Ring_PushWait_refines Ring_Pop_refines
       Ring_Drain_refines\<close>, simp_all add: ring_abs_def Ring_Len_def Ring_Cap_def Ring_Stats_def)

interpretation ringq: op_refinement ring_step ring_inv fifo_step ring_abs
  by unfold_locales (simp_all add: ring_step_inv ring_step_refines)


section \<open>A new ring\<close>

lemma Ring_New_returns:
  assumes "0 < sint Cap" and "sint Cap \<le> 2 ^ 62"
  obtains r :: "'a :: zero ring" where "Ring_New Cap p od = Some (Ret r ())" and "ring_inv r"
    and "contents r = []" and "r_policy r = p" and "r_onDrop r = od" and "\<not> r_closed r"
    and "r_stats r = zero_stats" and "\<not> r_notEmpty r" and "\<not> r_notFull r"
    and "sint Cap \<le> int (Ring_Cap r)" and "Ring_Cap r = 1 \<or> int (Ring_Cap r) < 2 * sint Cap"
proof -
  obtain j where j: "j \<le> 62" "pow2_loop Cap 1 = Some (2 ^ j)" "sint Cap \<le> 2 ^ j"
      "j = 0 \<or> 2 ^ (j - 1) < sint Cap"
    using pow2_loop_returns [OF assms(2)] by blast
  define sz :: i64 where "sz = 2 ^ j"
  have u: "unat sz = 2 ^ j" using j(1) by (simp add: sz_def unat64_pow2)
  then have m: "unat (sz - 1) = 2 ^ j - 1" by (simp add: unat_sub_if')
  define r :: "'a ring" where "r =
     \<lparr>r_items = replicate (unat sz) 0, r_mask = unat (sz - 1), r_head = 0, r_n = 0, r_closed = False,
      r_policy = p, r_onDrop = od, r_notEmpty = False, r_notFull = False, r_done = False,
      r_stats = zero_stats\<rparr>"
  have "2 ^ j < 2 * sint Cap" if "j \<noteq> 0" using j(4) that by (cases j) auto
  then have "Ring_Cap r = 1 \<or> int (Ring_Cap r) < 2 * sint Cap"
    by (cases "j = 0") (simp_all add: r_def Ring_Cap_def u)
  then show thesis using j assms
    by (intro that [of r])
       (auto simp: r_def Ring_New_def ring_inv_def ring_wf_def contents_def window_def u m
         zero_stats_def Ring_Cap_def simp flip: sz_def)
qed

section \<open>No item is lost, duplicated or reordered\<close>

fun taken_in :: "'a ring_op \<Rightarrow> 'a ring_out \<Rightarrow> 'a list" where
  "taken_in (OpPush v) (OutPush ok ds) = (if ok then [v] else [])"
| "taken_in (OpPushWait v) (OutPushWait x) = (case x of PW_Stored b \<Rightarrow> [v] | _ \<Rightarrow> [])"
| "taken_in e x = []"

primrec handed_out :: "'a ring_out \<Rightarrow> 'a list" where
  "handed_out (OutPush ok ds) = ds"
| "handed_out (OutPushWait x) = []"
| "handed_out (OutPop x) = (case x of None \<Rightarrow> [] | Some v \<Rightarrow> [v])"
| "handed_out OutClose = []"
| "handed_out (OutDrain k ds) = ds"
| "handed_out (OutNat k) = []"
| "handed_out (OutStats s) = []"

definition all_taken_in :: "'a ring_op list \<Rightarrow> 'a ring_out list \<Rightarrow> 'a list" where
  "all_taken_in es xs = concat (map2 taken_in es xs)"

definition all_handed_out :: "'a ring_out list \<Rightarrow> 'a list" where
  "all_handed_out xs = concat (map handed_out xs)"

lemma fifo_step_conserves:
  assumes "q_onDrop q" and "0 < q_cap q"
  shows "handed_out (fst (fifo_step e q)) @ q_list (snd (fifo_step e q)) =
           q_list q @ taken_in e (fst (fifo_step e q))"
proof -
  have "hd (q_list q) # tl (q_list q) = q_list q" if "q_cap q \<le> length (q_list q)"
    using assms(2) that by (cases "q_list q") auto
  then show ?thesis using assms by (cases e) (auto split: list.splits simp: not_less)
qed

lemma fifo_step_frame:
  "q_onDrop (snd (fifo_step e q)) = q_onDrop q" "q_cap (snd (fifo_step e q)) = q_cap q"
  by (cases e; auto split: list.splits)+

lemma fifo_run_conserves:
  assumes "q_onDrop q" and "0 < q_cap q"
  shows "all_handed_out (fst (run_ops fifo_step es q)) @ q_list (snd (run_ops fifo_step es q)) =
           q_list q @ all_taken_in es (fst (run_ops fifo_step es q))"
  using assms
proof (induction es arbitrary: q)
  case Nil
  then show ?case by (simp add: all_handed_out_def all_taken_in_def)
next
  case (Cons e es)
  let ?q = "snd (fifo_step e q)"
  have "all_handed_out (fst (run_ops fifo_step es ?q)) @ q_list (snd (run_ops fifo_step es ?q)) =
          q_list ?q @ all_taken_in es (fst (run_ops fifo_step es ?q))"
    using Cons by (simp add: fifo_step_frame)
  then show ?case
    using fifo_step_conserves [OF Cons.prems, of e]
    by (simp add: all_handed_out_def all_taken_in_def)
qed


section \<open>Properties of the ring\<close>

definition new_fifo :: "nat \<Rightarrow> policy \<Rightarrow> bool \<Rightarrow> 'a fifo" where
  "new_fifo c p od = \<lparr>q_list = [], q_cap = c, q_closed = False, q_policy = p, q_onDrop = od,
                      q_stats = zero_stats\<rparr>"

lemma Ring_New_range:
  "Ring_New cap p od = Some (Ret r ()) \<Longrightarrow> 0 < sint cap \<and> sint cap \<le> 2 ^ 62"
  using pow2_loop_diverges [of cap]
  by (cases "2 ^ 62 < sint cap") (auto simp: Ring_New_def split: if_splits)

lemma Ring_New_facts:
  assumes "Ring_New cap p od = Some (Ret r ())"
  shows "ring_inv r" and "ring_abs r = new_fifo (Ring_Cap r) p od" and "contents r = []"
proof -
  obtain r' :: "'a ring" where r': "Ring_New cap p od = Some (Ret r' ())" "ring_inv r'" "contents r' = []"
      "r_policy r' = p" "r_onDrop r' = od" "\<not> r_closed r'" "r_stats r' = zero_stats"
    using Ring_New_returns Ring_New_range [OF assms] by metis
  then have "r' = r" using assms by simp
  then show "ring_inv r" and "ring_abs r = new_fifo (Ring_Cap r) p od" and "contents r = []"
    using r' by (simp_all add: ring_abs_def new_fifo_def Ring_Cap_def)
qed

lemma pow2_loop_3: "pow2_loop 3 1 = Some 4"
  by (simp add: pow2_loop.simps word_sless_alt)

lemma Ring_New_3:
  "Ring_New 3 p od = Some (Ret \<lparr>r_items = [0, 0, 0, 0], r_mask = 3, r_head = 0, r_n = 0, r_closed = False,
     r_policy = p, r_onDrop = od, r_notEmpty = False, r_notFull = False, r_done = False,
     r_stats = zero_stats\<rparr> ())"
  by (simp add: Ring_New_def pow2_loop_3) (simp add: eval_nat_numeral)

text \<open>
  C1: A ring behaves as a bounded FIFO list. From \<open>New\<close>, every sequence of \<open>Push\<close>,
  passes of \<open>PushWait\<close>, \<open>Pop\<close>, \<open>Close\<close>, \<open>Drain\<close>, \<open>Len\<close>, \<open>Cap\<close> and
  \<open>Stats\<close> calls returns exactly what the list specification returns (values, errors,
  evicted items and counters), and ends in the ring that represents the list.
\<close>

theorem ring_is_bounded_fifo:
  assumes "Ring_New cap p od = Some (Ret r ())"
  shows "run_ops fifo_step es (new_fifo (Ring_Cap r) p od) =
           (fst (run_ops ring_step es r), ring_abs (snd (run_ops ring_step es r)))"
  using ringq.run_refines [OF Ring_New_facts(1) [OF assms]] Ring_New_facts(2) [OF assms] by simp

theorem ring_is_bounded_fifo_witness:
  "\<exists>r :: int ring. Ring_New 3 DropOldest True = Some (Ret r ()) \<and>
     run_ops fifo_step (map OpPush [1, 2, 3, 4, 5] @ [OpPop, OpLen]) (new_fifo (Ring_Cap r) DropOldest True) =
       (fst (run_ops ring_step (map OpPush [1, 2, 3, 4, 5] @ [OpPop, OpLen]) r),
        ring_abs (snd (run_ops ring_step (map OpPush [1, 2, 3, 4, 5] @ [OpPop, OpLen]) r)))"
  using Ring_New_3 ring_is_bounded_fifo [OF Ring_New_3] by blast

text \<open>
  C32: The ring never loses, duplicates or reorders an item. When \<open>OnDrop\<close> is set, the
  items handed out by \<open>Pop\<close>, by eviction and by \<open>Drain\<close>, in that order, followed by
  what is still queued, are exactly the items that \<open>Push\<close> and \<open>PushWait\<close> accepted, in
  the order they were accepted; so each accepted item leaves once, to one owner.
\<close>

theorem ring_conserves_items:
  assumes "Ring_New cap p True = Some (Ret r ())"
  shows "all_handed_out (fst (run_ops ring_step es r)) @ contents (snd (run_ops ring_step es r)) =
           all_taken_in es (fst (run_ops ring_step es r))"
proof -
  have "0 < Ring_Cap r"
    using ring_slots [of r] Ring_New_facts(1) [OF assms] by (simp add: Ring_Cap_def ring_inv_def)
  then have "all_handed_out (fst (run_ops fifo_step es (ring_abs r))) @ q_list (snd (run_ops fifo_step es (ring_abs r))) =
          q_list (ring_abs r) @ all_taken_in es (fst (run_ops fifo_step es (ring_abs r)))"
    by (intro fifo_run_conserves) (simp_all add: Ring_New_facts(2) [OF assms] new_fifo_def)
  then show ?thesis
    using ringq.run_refines [OF Ring_New_facts(1) [OF assms], of es] Ring_New_facts(3) [OF assms]
    by (simp add: ring_abs_def)
qed

theorem ring_conserves_items_witness:
  "\<exists>r :: int ring. Ring_New 3 DropOldest True = Some (Ret r ()) \<and>
     all_handed_out (fst (run_ops ring_step (map OpPush [1, 2, 3, 4, 5] @ [OpPop]) r)) @
       contents (snd (run_ops ring_step (map OpPush [1, 2, 3, 4, 5] @ [OpPop]) r)) =
     all_taken_in (map OpPush [1, 2, 3, 4, 5] @ [OpPop])
       (fst (run_ops ring_step (map OpPush [1, 2, 3, 4, 5] @ [OpPop]) r))"
  using Ring_New_3 ring_conserves_items [OF Ring_New_3] by blast

text \<open>
  Bounds, accounting and hygiene of the ring after any sequence of calls: it holds at
  most \<open>Cap\<close> items and \<open>Cap\<close> never changes, every slot without a queued item holds the
  zero value, so nothing handed out stays reachable through the ring, and \<open>Pushed\<close> equals
  \<open>Popped\<close> plus \<open>Dropped\<close> plus \<open>Len\<close> in 64-bit arithmetic, even after a counter wraps.
\<close>

theorem ring_bounded_and_balanced:
  assumes "Ring_New cap p od = Some (Ret r ())" and "r' = snd (run_ops ring_step es r)"
  shows "Ring_Len r' \<le> Ring_Cap r' \<and> Ring_Cap r' = Ring_Cap r \<and>
     (\<forall>i < Ring_Cap r'. i \<notin> set (window r') \<longrightarrow> r_items r' ! i = 0) \<and>
     Pushed (Ring_Stats r') = Popped (Ring_Stats r') + Dropped (Ring_Stats r') + of_nat (Ring_Len r')"
proof -
  have inv: "ring_inv r'" using ringq.run_inv [OF Ring_New_facts(1) [OF assms(1)]] assms(2) by simp
  have "q_cap (snd (run_ops fifo_step es q)) = q_cap q" for q :: "'a fifo"
    by (induction es arbitrary: q) (simp_all add: fifo_step_frame)
  then have "q_cap (ring_abs r') = q_cap (ring_abs r)"
    using ringq.run_refines [OF Ring_New_facts(1) [OF assms(1)], of es] assms(2) by (metis snd_conv)
  then show ?thesis using inv
    by (simp add: ring_inv_def ring_wf_def ring_abs_def Ring_Cap_def Ring_Len_def Ring_Stats_def)
qed

theorem ring_bounded_and_balanced_witness:
  "\<exists>r r' :: int ring. Ring_New 3 Reject False = Some (Ret r ()) \<and>
     r' = snd (run_ops ring_step [OpPush 7, OpPush 8, OpPop] r) \<and> Ring_Len r' \<le> Ring_Cap r' \<and>
     Pushed (Ring_Stats r') = Popped (Ring_Stats r') + Dropped (Ring_Stats r') + of_nat (Ring_Len r')"
  using Ring_New_3 ring_bounded_and_balanced [OF Ring_New_3 refl] by blast


end
