(* ===== verification/Queue_Wait.thy ===== *)
theory Queue_Wait
  imports Queue
begin

text \<open>
  The blocking calls of \<open>src/queue/queue.go\<close> under concurrency: \<open>PushWait\<close> and
  \<open>PopWait\<close> with the two capacity-one channels, next to \<open>Push\<close>, \<open>Pop\<close>,
  \<open>Close\<close> and \<open>Drain\<close>, for any number of goroutines.

  A goroutine is a program counter; a step is one critical section, one channel
  operation, or one branch of a \<open>select\<close>, so every interleaving the mutex and the
  channels allow is a run. The lemmas show that no wakeup is lost: whenever everything
  else has come to rest, a consumer waits only on an empty open ring and a producer only
  on a full open ring. For producers this needs the rule of \<open>Drain\<close>'s comment, that it
  is called after \<open>Close\<close>; a run without it strands a producer.
\<close>

section \<open>Goroutines\<close>

datatype 'a pc =
    Idle
  | Push_Signal
  | PushW_Try 'a
  | PushW_Signal bool
  | PushW_Signal_more
  | PushW_Select 'a
  | Pop_Signal bool
  | Pop_Signal_more
  | PopW_Try
  | PopW_Check
  | PopW_Select
  | Close_Done

record 'a wsys =
  w_ring :: "'a ring"
  w_pc :: "nat \<Rightarrow> 'a pc"

definition goto :: "'a wsys \<Rightarrow> nat \<Rightarrow> 'a pc \<Rightarrow> 'a ring \<Rightarrow> 'a wsys" where
  "goto s i p r = \<lparr>w_ring = r, w_pc = (w_pc s)(i := p)\<rparr>"

lemma goto_simps [simp]:
  "w_ring (goto s i p r) = r" "w_pc (goto s i p r) = (w_pc s)(i := p)"
  by (simp_all add: goto_def)

fun after_pushwait :: "'a \<Rightarrow> pushwait \<Rightarrow> 'a pc" where
  "after_pushwait v PW_Closed = Idle"
| "after_pushwait v (PW_Stored others) = PushW_Signal others"
| "after_pushwait v PW_Full = PushW_Select v"

fun after_pop :: "bool \<Rightarrow> ('a \<times> bool) option \<Rightarrow> 'a pc" where
  "after_pop waiting None = (if waiting then PopW_Check else Idle)"
| "after_pop waiting (Some (v, others)) = Pop_Signal others"

text \<open>\<open>open_drain\<close> says whether \<open>Drain\<close> may run on a ring that is not closed.\<close>

inductive wstep :: "bool \<Rightarrow> 'a :: zero wsys \<Rightarrow> 'a wsys \<Rightarrow> bool" for open_drain where
  call_push: "w_pc s i = Idle \<Longrightarrow> Ring_Push_cs v (w_ring s) = ((ok, ev), r) \<Longrightarrow>
    wstep open_drain s (goto s i (if ok then Push_Signal else Idle) r)"
| push_signal: "w_pc s i = Push_Signal \<Longrightarrow>
    wstep open_drain s (goto s i Idle (signal_notEmpty (w_ring s)))"
| call_pushwait: "w_pc s i = Idle \<Longrightarrow> wstep open_drain s (goto s i (PushW_Try v) (w_ring s))"
| pushwait_try: "w_pc s i = PushW_Try v \<Longrightarrow> Ring_PushWait_cs v (w_ring s) = (x, r) \<Longrightarrow>
    wstep open_drain s (goto s i (after_pushwait v x) r)"
| pushwait_signal: "w_pc s i = PushW_Signal others \<Longrightarrow>
    wstep open_drain s (goto s i (if others then PushW_Signal_more else Idle) (signal_notEmpty (w_ring s)))"
| pushwait_signal_more: "w_pc s i = PushW_Signal_more \<Longrightarrow>
    wstep open_drain s (goto s i Idle (signal_notFull (w_ring s)))"
| pushwait_token: "w_pc s i = PushW_Select v \<Longrightarrow> r_notFull (w_ring s) \<Longrightarrow>
    wstep open_drain s (goto s i (PushW_Try v) ((w_ring s)\<lparr>r_notFull := False\<rparr>))"
| pushwait_done: "w_pc s i = PushW_Select v \<Longrightarrow> r_done (w_ring s) \<Longrightarrow>
    wstep open_drain s (goto s i (PushW_Try v) (w_ring s))"
| pushwait_ctx: "w_pc s i = PushW_Select v \<Longrightarrow> wstep open_drain s (goto s i Idle (w_ring s))"
| call_pop: "w_pc s i = Idle \<Longrightarrow> Ring_Pop_cs (w_ring s) = (x, r) \<Longrightarrow>
    wstep open_drain s (goto s i (after_pop False x) r)"
| pop_signal: "w_pc s i = Pop_Signal others \<Longrightarrow>
    wstep open_drain s (goto s i (if others then Pop_Signal_more else Idle) (signal_notFull (w_ring s)))"
| pop_signal_more: "w_pc s i = Pop_Signal_more \<Longrightarrow>
    wstep open_drain s (goto s i Idle (signal_notEmpty (w_ring s)))"
| call_popwait: "w_pc s i = Idle \<Longrightarrow> wstep open_drain s (goto s i PopW_Try (w_ring s))"
| popwait_try: "w_pc s i = PopW_Try \<Longrightarrow> Ring_Pop_cs (w_ring s) = (x, r) \<Longrightarrow>
    wstep open_drain s (goto s i (after_pop True x) r)"
| popwait_check: "w_pc s i = PopW_Check \<Longrightarrow>
    wstep open_drain s (goto s i
      (if r_closed (w_ring s) \<and> r_n (w_ring s) = 0 then Idle else PopW_Select) (w_ring s))"
| popwait_token: "w_pc s i = PopW_Select \<Longrightarrow> r_notEmpty (w_ring s) \<Longrightarrow>
    wstep open_drain s (goto s i PopW_Try ((w_ring s)\<lparr>r_notEmpty := False\<rparr>))"
| popwait_done: "w_pc s i = PopW_Select \<Longrightarrow> r_done (w_ring s) \<Longrightarrow>
    wstep open_drain s (goto s i PopW_Try (w_ring s))"
| popwait_ctx: "w_pc s i = PopW_Select \<Longrightarrow> wstep open_drain s (goto s i Idle (w_ring s))"
| call_close: "w_pc s i = Idle \<Longrightarrow> Ring_Close_cs (w_ring s) = (first, r) \<Longrightarrow>
    wstep open_drain s (goto s i (if first then Close_Done else Idle) r)"
| close_close_done: "w_pc s i = Close_Done \<Longrightarrow>
    wstep open_drain s (goto s i Idle (close_done (w_ring s)))"
| call_drain: "w_pc s i = Idle \<Longrightarrow> open_drain \<or> r_closed (w_ring s) \<Longrightarrow>
    wstep open_drain s (goto s i Idle (snd (Ring_Drain (w_ring s))))"

text \<open>A system starts with a fresh ring and every goroutine idle.\<close>

definition w_start :: "'a :: zero wsys \<Rightarrow> bool" where
  "w_start s \<longleftrightarrow> ring_inv (w_ring s) \<and> r_n (w_ring s) = 0 \<and> \<not> r_closed (w_ring s) \<and> w_pc s = (\<lambda>_. Idle)"

text \<open>At rest: nobody can go on without a wakeup, a new call or a cancelled context.\<close>

definition at_rest :: "'a wsys \<Rightarrow> bool" where
  "at_rest s \<longleftrightarrow> (\<forall>i. case w_pc s i of Idle \<Rightarrow> True | PushW_Select v \<Rightarrow> True | PopW_Select \<Rightarrow> True | _ \<Rightarrow> False)"

section \<open>No wakeup is lost\<close>

primrec owes_notEmpty :: "'a pc \<Rightarrow> bool" where
  "owes_notEmpty Idle = False"
| "owes_notEmpty Push_Signal = True"
| "owes_notEmpty (PushW_Try v) = False"
| "owes_notEmpty (PushW_Signal others) = True"
| "owes_notEmpty PushW_Signal_more = False"
| "owes_notEmpty (PushW_Select v) = False"
| "owes_notEmpty (Pop_Signal others) = others"
| "owes_notEmpty Pop_Signal_more = True"
| "owes_notEmpty PopW_Try = True"
| "owes_notEmpty PopW_Check = False"
| "owes_notEmpty PopW_Select = False"
| "owes_notEmpty Close_Done = False"

primrec owes_notFull :: "'a pc \<Rightarrow> bool" where
  "owes_notFull Idle = False"
| "owes_notFull Push_Signal = False"
| "owes_notFull (PushW_Try v) = True"
| "owes_notFull (PushW_Signal others) = others"
| "owes_notFull PushW_Signal_more = True"
| "owes_notFull (PushW_Select v) = False"
| "owes_notFull (Pop_Signal others) = True"
| "owes_notFull Pop_Signal_more = False"
| "owes_notFull PopW_Try = False"
| "owes_notFull PopW_Check = False"
| "owes_notFull PopW_Select = False"
| "owes_notFull Close_Done = False"

definition some_pc :: "('a pc \<Rightarrow> bool) \<Rightarrow> 'a wsys \<Rightarrow> bool" where
  "some_pc P s \<longleftrightarrow> (\<exists>j. P (w_pc s j))"

lemma some_pc_goto_hit [simp]: "P p \<Longrightarrow> some_pc P (goto s i p r)"
  unfolding some_pc_def by (rule exI [of _ i]) simp

lemma some_pc_goto_other [simp]:
  assumes "\<not> P p" and "\<not> P (w_pc s i)"
  shows "some_pc P (goto s i p r) = some_pc P s"
proof -
  have "P (((w_pc s)(i := p)) j) = P (w_pc s j)" for j using assms by simp
  then show ?thesis by (simp add: some_pc_def)
qed

lemma some_pc_goto_less: "some_pc P (goto s i p r) \<Longrightarrow> \<not> P p \<Longrightarrow> some_pc P s"
  unfolding some_pc_def by (auto split: if_splits)

primrec waits_notFull :: "'a pc \<Rightarrow> bool" where
  "waits_notFull Idle = False"
| "waits_notFull Push_Signal = False"
| "waits_notFull (PushW_Try v) = False"
| "waits_notFull (PushW_Signal others) = False"
| "waits_notFull PushW_Signal_more = False"
| "waits_notFull (PushW_Select v) = True"
| "waits_notFull (Pop_Signal others) = False"
| "waits_notFull Pop_Signal_more = False"
| "waits_notFull PopW_Try = False"
| "waits_notFull PopW_Check = False"
| "waits_notFull PopW_Select = False"
| "waits_notFull Close_Done = False"

definition consumers_inv :: "'a wsys \<Rightarrow> bool" where
  "consumers_inv s \<longleftrightarrow>
     r_n (w_ring s) = 0 \<or> r_notEmpty (w_ring s) \<or> some_pc owes_notEmpty s"

definition producers_inv :: "'a wsys \<Rightarrow> bool" where
  "producers_inv s \<longleftrightarrow>
     r_n (w_ring s) = length (r_items (w_ring s)) \<or> r_closed (w_ring s) \<or>
     r_notFull (w_ring s) \<or> some_pc owes_notFull s \<or> \<not> some_pc waits_notFull s"

definition closing_inv :: "'a wsys \<Rightarrow> bool" where
  "closing_inv s \<longleftrightarrow>
     \<not> r_closed (w_ring s) \<or> r_done (w_ring s) \<or> some_pc (\<lambda>p. p = Close_Done) s"

text \<open>What each critical section does to the fields the protocol reads.\<close>

lemma Push_cs_fields:
  assumes "Ring_Push_cs v r = ((ok, ev), r')" and "ring_wf r"
  shows "ring_wf r' \<and> length (r_items r') = length (r_items r) \<and> r_closed r' = r_closed r \<and> r_done r' = r_done r \<and>
    r_notEmpty r' = r_notEmpty r \<and> r_notFull r' = r_notFull r \<and> r_n r \<le> r_n r' \<and> (\<not> ok \<longrightarrow> r_n r' = r_n r)"
proof -
  have "ring_wf (put v (evicting r))" if "r_n r = length (r_items r)"
    using put_wf [OF evict(2,3) [OF assms(2) that]] .
  moreover have "ring_wf (put v r)" if "r_n r \<noteq> length (r_items r)"
    using put_wf [OF assms(2) ring_room [OF assms(2) that]] .
  moreover have "Suc (r_n (evicting r)) = r_n r" if "r_n r = length (r_items r)"
    using evict(1) [OF assms(2) that] by (simp add: evicting_def)
  ultimately show ?thesis using assms
    by (auto simp: Ring_Push_cs_def case_prod_beta Let_def count_rejected_def evicting_def split: if_splits)
qed

lemma PushWait_cs_fields:
  assumes "Ring_PushWait_cs v r = (x, r')" and "ring_wf r"
  shows "ring_wf r' \<and> length (r_items r') = length (r_items r) \<and> r_closed r' = r_closed r \<and> r_done r' = r_done r \<and>
    r_notEmpty r' = r_notEmpty r \<and> r_notFull r' = r_notFull r \<and> r_n r \<le> r_n r' \<and>
    (case x of PW_Closed \<Rightarrow> r_closed r \<and> r_n r' = r_n r
     | PW_Stored others \<Rightarrow> others = (r_n r' < length (r_items r'))
     | PW_Full \<Rightarrow> r_n r' = length (r_items r') \<and> r' = r)"
  using assms put_wf [of r v]
  by (auto simp: Ring_PushWait_cs_def Let_def count_rejected_def ring_wf_def split: if_splits)

lemma Pop_cs_fields:
  assumes "Ring_Pop_cs r = (x, r')" and "ring_wf r"
  shows "ring_wf r' \<and> length (r_items r') = length (r_items r) \<and> r_closed r' = r_closed r \<and> r_done r' = r_done r \<and>
    r_notEmpty r' = r_notEmpty r \<and> r_notFull r' = r_notFull r \<and>
    (case x of None \<Rightarrow> r_n r = 0 \<and> r' = r | Some (v, others) \<Rightarrow> others = (0 < r_n r') \<and> 0 < r_n r)"
  using assms popLocked_wf [of r]
  by (auto simp: Ring_Pop_cs_def Let_def case_prod_beta split: if_splits)

lemma Close_cs_fields:
  assumes "Ring_Close_cs r = (first, r')"
  shows "ring_wf r' = ring_wf r \<and> length (r_items r') = length (r_items r) \<and> r_closed r' \<and> r_done r' = r_done r \<and>
    r_notEmpty r' = r_notEmpty r \<and> r_notFull r' = r_notFull r \<and> r_n r' = r_n r \<and> first = (\<not> r_closed r)"
  using assms by (auto simp: Ring_Close_cs_def split: if_splits)

lemma Drain_fields:
  assumes "ring_wf r"
  shows "ring_wf (snd (Ring_Drain r)) \<and> r_closed (snd (Ring_Drain r)) = r_closed r \<and>
    r_done (snd (Ring_Drain r)) = r_done r \<and> r_n (snd (Ring_Drain r)) = 0 \<and>
    r_notEmpty (snd (Ring_Drain r)) = r_notEmpty r \<and> r_notFull (snd (Ring_Drain r)) = r_notFull r \<and>
    length (r_items (snd (Ring_Drain r))) = length (r_items r)"
  using drain_loop_correct [OF assms, of "[]"] by (simp add: Ring_Drain_def Let_def case_prod_beta)

lemma signal_fields [simp]:
  "r_n (signal_notEmpty r) = r_n r" "r_n (signal_notFull r) = r_n r"
  "r_items (signal_notEmpty r) = r_items r" "r_items (signal_notFull r) = r_items r"
  "r_closed (signal_notEmpty r) = r_closed r" "r_closed (signal_notFull r) = r_closed r"
  "r_done (signal_notEmpty r) = r_done r" "r_done (signal_notFull r) = r_done r"
  "r_notEmpty (signal_notEmpty r)" "r_notFull (signal_notFull r)"
  "r_notFull (signal_notEmpty r) = r_notFull r" "r_notEmpty (signal_notFull r) = r_notEmpty r"
  "ring_wf (signal_notEmpty r) = ring_wf r" "ring_wf (signal_notFull r) = ring_wf r"
  by (simp_all add: signal_notEmpty_def signal_notFull_def signal_def)

lemma close_done_fields [simp]:
  "r_n (close_done r) = r_n r" "r_items (close_done r) = r_items r" "r_closed (close_done r) = r_closed r"
  "r_notFull (close_done r) = r_notFull r" "r_notEmpty (close_done r) = r_notEmpty r" "r_done (close_done r)"
  "ring_wf (close_done r) = ring_wf r"
  by (simp_all add: close_done_def)

lemmas cs_fields = Push_cs_fields PushWait_cs_fields Pop_cs_fields

lemma wstep_wf: "wstep d s t \<Longrightarrow> ring_wf (w_ring s) \<Longrightarrow> ring_wf (w_ring t)"
  by (cases rule: wstep.cases) (auto dest: cs_fields Close_cs_fields simp: Drain_fields)

lemma wstep_closing:
  assumes "wstep d s t" and "ring_wf (w_ring s)" and "closing_inv s"
  shows "closing_inv t"
  using assms(1)
proof (cases rule: wstep.cases)
  case (call_push i v ok ev r)
  then show ?thesis using assms(2,3) Push_cs_fields [of v "w_ring s" ok ev r]
    by (cases ok) (auto simp: closing_inv_def)
next
  case (pushwait_try i v x r)
  then show ?thesis using assms(2,3) PushWait_cs_fields [of v "w_ring s" x r]
    by (cases x) (auto simp: closing_inv_def)
next
  case (call_pop i x r)
  then show ?thesis using assms(2,3) Pop_cs_fields [of "w_ring s" x r]
    by (cases x) (auto simp: closing_inv_def)
next
  case (popwait_try i x r)
  then show ?thesis using assms(2,3) Pop_cs_fields [of "w_ring s" x r]
    by (cases x) (auto simp: closing_inv_def)
next
  case (call_close i first r)
  then show ?thesis using assms(2,3) Close_cs_fields [of "w_ring s" first r]
    by (cases first) (auto simp: closing_inv_def)
next
  case (call_drain i)
  then show ?thesis using assms(2,3) Drain_fields [of "w_ring s"] by (auto simp: closing_inv_def)
qed (use assms(3) in \<open>auto simp: closing_inv_def split: if_splits\<close>)


lemma wstep_consumers:
  assumes "wstep d s t" and "ring_wf (w_ring s)" and "consumers_inv s"
  shows "consumers_inv t"
  using assms(1)
proof (cases rule: wstep.cases)
  case (call_push i v ok ev r)
  then show ?thesis using assms(2,3) Push_cs_fields [of v "w_ring s" ok ev r]
    by (cases ok) (auto simp: consumers_inv_def)
next
  case (pushwait_try i v x r)
  then show ?thesis using assms(2,3) PushWait_cs_fields [of v "w_ring s" x r]
    by (cases x) (auto simp: consumers_inv_def)
next
  case (call_pop i x r)
  then show ?thesis using assms(2,3) Pop_cs_fields [of "w_ring s" x r]
    by (cases x) (auto simp: consumers_inv_def)
next
  case (popwait_try i x r)
  then show ?thesis using assms(2,3) Pop_cs_fields [of "w_ring s" x r]
    by (cases x) (auto simp: consumers_inv_def)
next
  case (pop_signal i others)
  then show ?thesis using assms(3) by (cases others) (auto simp: consumers_inv_def)
next
  case (call_close i first r)
  then show ?thesis using assms(2,3) Close_cs_fields [of "w_ring s" first r]
    by (cases first) (auto simp: consumers_inv_def)
next
  case (call_drain i)
  then show ?thesis using assms(2,3) Drain_fields [of "w_ring s"] by (auto simp: consumers_inv_def)
qed (use assms(3) in \<open>auto simp: consumers_inv_def split: if_splits\<close>)

lemma wstep_producers:
  assumes "wstep False s t" and "ring_wf (w_ring s)" and "producers_inv s"
  shows "producers_inv t"
  using assms(1)
proof (cases rule: wstep.cases)
  case (call_push i v ok ev r)
  then show ?thesis using assms(2,3) Push_cs_fields [of v "w_ring s" ok ev r]
    by (cases ok) (auto simp: producers_inv_def ring_wf_def)
next
  case (pushwait_try i v x r)
  then show ?thesis using assms(2,3) PushWait_cs_fields [of v "w_ring s" x r]
    by (cases x) (auto simp: producers_inv_def ring_wf_def)
next
  case (pushwait_signal i others)
  then show ?thesis using assms(3) by (cases others) (auto simp: producers_inv_def)
next
  case (pushwait_ctx i v)
  then show ?thesis using assms(3)
    by (auto simp: producers_inv_def dest: some_pc_goto_less [where P = waits_notFull])
next
  case (call_pop i x r)
  then show ?thesis using assms(2,3) Pop_cs_fields [of "w_ring s" x r]
    by (cases x) (auto simp: producers_inv_def)
next
  case (popwait_try i x r)
  then show ?thesis using assms(2,3) Pop_cs_fields [of "w_ring s" x r]
    by (cases x) (auto simp: producers_inv_def)
next
  case (call_close i first r)
  then show ?thesis using assms(2,3) Close_cs_fields [of "w_ring s" first r]
    by (cases first) (auto simp: producers_inv_def)
next
  case (call_drain i)
  then show ?thesis using assms(2,3) Drain_fields [of "w_ring s"] by (auto simp: producers_inv_def)
qed (use assms(3) in \<open>auto simp: producers_inv_def split: if_splits\<close>)

interpretation waiting: step_invariant "wstep d"
    "\<lambda>s. ring_wf (w_ring s) \<and> consumers_inv s \<and> closing_inv s" for d
  by unfold_locales (use wstep_wf wstep_consumers wstep_closing in blast)

interpretation drained_after_close: step_invariant "wstep False"
    "\<lambda>s. ring_wf (w_ring s) \<and> producers_inv s"
  by unfold_locales (use wstep_wf wstep_producers in blast)

lemma w_start_inv:
  assumes "w_start s"
  shows "ring_wf (w_ring s) \<and> consumers_inv s \<and> closing_inv s" and "producers_inv s"
  using assms
  by (auto simp: w_start_def ring_inv_def consumers_inv_def closing_inv_def producers_inv_def some_pc_def)

lemma at_rest_owes:
  assumes "at_rest s"
  shows "\<not> some_pc owes_notEmpty s" "\<not> some_pc owes_notFull s" "\<not> some_pc (\<lambda>p. p = Close_Done) s"
proof -
  have *: "w_pc s i = Idle \<or> w_pc s i = PopW_Select \<or> (\<exists>v. w_pc s i = PushW_Select v)" for i
    using assms unfolding at_rest_def by (cases "w_pc s i") (auto dest: spec [of _ i])
  show "\<not> some_pc owes_notEmpty s" "\<not> some_pc owes_notFull s" "\<not> some_pc (\<lambda>p. p = Close_Done) s"
    unfolding some_pc_def using * by (metis owes_notEmpty.simps owes_notFull.simps pc.distinct)+
qed


section \<open>Properties of the blocking calls\<close>

text \<open>A ring of one slot, and the chain of steps that the examples below take.\<close>

definition one_slot :: "nat ring" where
  "one_slot = \<lparr>r_items = [0], r_mask = 0, r_head = 0, r_n = 0, r_closed = False, r_policy = Reject,
     r_onDrop = True, r_notEmpty = False, r_notFull = False, r_done = False, r_stats = zero_stats\<rparr>"

definition one_slot_start :: "nat wsys" where
  "one_slot_start = \<lparr>w_ring = one_slot, w_pc = (\<lambda>_. Idle)\<rparr>"

lemma one_slot_start: "w_start one_slot_start"
  by (auto simp: w_start_def one_slot_start_def one_slot_def ring_inv_def ring_wf_def window_def
      zero_stats_def intro: exI [of _ 0])

text \<open>A consumer waits on the empty ring, then an item is pushed and signalled.\<close>

definition waiting_consumer :: "nat wsys" where
  "waiting_consumer =
     \<lparr>w_ring = signal_notEmpty (put 7 one_slot), w_pc = (\<lambda>_. Idle)(0 := PopW_Select)\<rparr>"

lemma waiting_consumer_reached: "(wstep d)\<^sup>*\<^sup>* one_slot_start waiting_consumer"
proof -
  let ?c = "\<lambda>p. \<lparr>w_ring = one_slot, w_pc = (\<lambda>_. Idle)(0 := p)\<rparr>"
  have 1: "wstep d one_slot_start (?c PopW_Try)"
    using wstep.call_popwait [of one_slot_start 0 d] by (simp add: goto_def one_slot_start_def)
  have 2: "wstep d (?c PopW_Try) (?c PopW_Check)"
    using wstep.popwait_try [of "?c PopW_Try" 0 None one_slot d]
    by (simp add: goto_def Ring_Pop_cs_def one_slot_def)
  have 3: "wstep d (?c PopW_Check) (?c PopW_Select)"
    using wstep.popwait_check [of "?c PopW_Check" 0 d] by (simp add: goto_def one_slot_def)
  have 4: "wstep d (?c PopW_Select) (goto (?c PopW_Select) 1 Push_Signal (put 7 one_slot))"
    using wstep.call_push [of "?c PopW_Select" 1 7 True None "put 7 one_slot" d]
    by (simp add: Ring_Push_cs_def one_slot_def)
  have 5: "wstep d (goto (?c PopW_Select) 1 Push_Signal (put 7 one_slot)) waiting_consumer"
    using wstep.push_signal [of "goto (?c PopW_Select) 1 Push_Signal (put 7 one_slot)" 1 d]
    by (simp add: goto_def waiting_consumer_def fun_upd_twist fun_upd_idem)
  show ?thesis using 1 2 3 4 5 by (meson rtranclp.rtrancl_refl rtranclp.rtrancl_into_rtrancl)
qed

text \<open>
  C13: No consumer sleeps on work. In every interleaving of any number of goroutines, once
  all the others are idle or waiting themselves, a goroutine waiting in \<open>PopWait\<close> while
  the ring has an item or is closed can be woken: its select has a ready channel.
\<close>

theorem popwait_wakes:
  assumes "w_start s" and "(wstep d)\<^sup>*\<^sup>* s t" and "at_rest t" and "w_pc t i = PopW_Select"
    and "0 < r_n (w_ring t) \<or> r_closed (w_ring t)"
  shows "\<exists>u. wstep d t u \<and> w_pc u i = PopW_Try"
proof -
  have "consumers_inv t" "closing_inv t"
    using waiting.reachable_keeps [OF assms(2)] w_start_inv(1) [OF assms(1)] by simp_all
  then have "r_notEmpty (w_ring t) \<or> r_done (w_ring t)"
    using assms(5) at_rest_owes [OF assms(3)] by (auto simp: consumers_inv_def closing_inv_def)
  then show ?thesis
    using wstep.popwait_token [OF assms(4), of d] wstep.popwait_done [OF assms(4), of d] by fastforce
qed

theorem popwait_wakes_witness:
  "w_start one_slot_start \<and> (wstep False)\<^sup>*\<^sup>* one_slot_start waiting_consumer \<and> at_rest waiting_consumer \<and>
   (\<exists>u. wstep False waiting_consumer u \<and> w_pc u 0 = PopW_Try)"
proof -
  have rest: "at_rest waiting_consumer" by (simp add: at_rest_def waiting_consumer_def)
  have "\<exists>u. wstep False waiting_consumer u \<and> w_pc u 0 = PopW_Try"
    by (rule popwait_wakes [OF one_slot_start waiting_consumer_reached rest])
       (simp_all add: waiting_consumer_def)
  then show ?thesis using one_slot_start waiting_consumer_reached rest by blast
qed

text \<open>A producer waits on the full ring, and the item is drained away after \<open>Close\<close>, or without it.\<close>

definition full_slot :: "nat ring" where
  "full_slot = signal_notEmpty (put 7 one_slot)"

definition waiting_producer :: "nat wsys" where
  "waiting_producer = \<lparr>w_ring = full_slot, w_pc = (\<lambda>_. Idle)(1 := PushW_Select 8)\<rparr>"

lemma waiting_producer_reached: "(wstep d)\<^sup>*\<^sup>* one_slot_start waiting_producer"
proof -
  have 1: "wstep d one_slot_start (goto one_slot_start 0 Push_Signal (put 7 one_slot))"
    using wstep.call_push [of one_slot_start 0 7 True None "put 7 one_slot" d]
    by (simp add: Ring_Push_cs_def one_slot_start_def one_slot_def)
  have 2: "wstep d (goto one_slot_start 0 Push_Signal (put 7 one_slot)) \<lparr>w_ring = full_slot, w_pc = (\<lambda>_. Idle)\<rparr>"
    using wstep.push_signal [of "goto one_slot_start 0 Push_Signal (put 7 one_slot)" 0 d]
    by (simp add: goto_def one_slot_start_def full_slot_def fun_upd_idem)
  let ?p = "\<lambda>p. \<lparr>w_ring = full_slot, w_pc = (\<lambda>_. Idle)(1 := p)\<rparr>"
  have 3: "wstep d \<lparr>w_ring = full_slot, w_pc = (\<lambda>_. Idle)\<rparr> (?p (PushW_Try 8))"
    using wstep.call_pushwait [of "\<lparr>w_ring = full_slot, w_pc = (\<lambda>_. Idle)\<rparr>" 1 d 8] by (simp add: goto_def)
  have "Ring_PushWait_cs 8 full_slot = (PW_Full, full_slot)"
    by (simp add: Ring_PushWait_cs_def full_slot_def put_def one_slot_def signal_notEmpty_def)
  then have 4: "wstep d (?p (PushW_Try 8)) waiting_producer"
    using wstep.pushwait_try [of "?p (PushW_Try 8)" 1 8 PW_Full full_slot d]
    by (simp add: goto_def waiting_producer_def)
  show ?thesis using 1 2 3 4 by (meson rtranclp.rtrancl_refl rtranclp.rtrancl_into_rtrancl)
qed

text \<open>
  C14: No producer sleeps on room. If \<open>Drain\<close> is only called after \<open>Close\<close>, then in
  every interleaving, once all the others are idle or waiting themselves, a goroutine
  waiting in \<open>PushWait\<close> while the ring has a free slot or is closed can be woken.
\<close>

theorem pushwait_wakes:
  assumes "w_start s" and "(wstep False)\<^sup>*\<^sup>* s t" and "at_rest t" and "w_pc t i = PushW_Select v"
    and "r_n (w_ring t) < length (r_items (w_ring t)) \<or> r_closed (w_ring t)"
  shows "\<exists>u. wstep False t u \<and> w_pc u i = PushW_Try v"
proof -
  have "producers_inv t" "closing_inv t"
    using drained_after_close.reachable_keeps [OF assms(2)] waiting.reachable_keeps [OF assms(2)]
      w_start_inv [OF assms(1)] by simp_all
  moreover have "some_pc waits_notFull t" unfolding some_pc_def using assms(4) by (metis waits_notFull.simps(6))
  ultimately have "r_notFull (w_ring t) \<or> r_done (w_ring t)"
    using assms(5) at_rest_owes [OF assms(3)] by (auto simp: producers_inv_def closing_inv_def)
  then show ?thesis
    using wstep.pushwait_token [OF assms(4), of False] wstep.pushwait_done [OF assms(4), of False]
    by fastforce
qed

theorem pushwait_wakes_witness:
  "\<exists>t. w_start one_slot_start \<and> (wstep False)\<^sup>*\<^sup>* one_slot_start t \<and> at_rest t \<and> r_closed (w_ring t) \<and>
     (\<exists>u. wstep False t u \<and> w_pc u 1 = PushW_Try 8)"
proof -
  let ?c = "goto waiting_producer 0 Close_Done (full_slot\<lparr>r_closed := True\<rparr>)"
  let ?t = "goto ?c 0 Idle (close_done (full_slot\<lparr>r_closed := True\<rparr>))"
  have "wstep False waiting_producer ?c"
    using wstep.call_close [of waiting_producer 0 True "full_slot\<lparr>r_closed := True\<rparr>" False]
    by (simp add: waiting_producer_def Ring_Close_cs_def full_slot_def put_def one_slot_def signal_notEmpty_def)
  moreover have "wstep False ?c ?t" using wstep.close_close_done [of ?c 0 False] by simp
  ultimately have reach: "(wstep False)\<^sup>*\<^sup>* one_slot_start ?t"
    using waiting_producer_reached [of False] by (meson rtranclp.rtrancl_into_rtrancl)
  have rest: "at_rest ?t" by (simp add: at_rest_def waiting_producer_def)
  have "\<exists>u. wstep False ?t u \<and> w_pc u 1 = PushW_Try 8"
    by (rule pushwait_wakes [OF one_slot_start reach rest]) (simp_all add: waiting_producer_def)
  then show ?thesis using one_slot_start reach rest by (intro exI [of _ ?t]) simp
qed

text \<open>
  \<open>Drain\<close> on an open ring can strand a producer. It frees every slot without a signal
  on \<open>notFull\<close>, so a goroutine waiting in \<open>PushWait\<close> stays blocked although there is room
  and nobody else is running.
\<close>

theorem open_drain_strands_producer:
  "\<exists>s t :: nat wsys. w_start s \<and> (wstep True)\<^sup>*\<^sup>* s t \<and> at_rest t \<and> w_pc t 1 = PushW_Select 8 \<and>
     r_n (w_ring t) < length (r_items (w_ring t)) \<and>
     \<not> (\<exists>u. wstep True t u \<and> w_pc u 1 = PushW_Try 8)"
proof -
  have f: "ring_wf full_slot" and c: "r_notFull full_slot = False" "r_done full_slot = False"
      "length (r_items full_slot) = 1"
    by (auto simp: full_slot_def put_def one_slot_def signal_notEmpty_def ring_wf_def window_def
        intro: exI [of _ 0])
  let ?t = "goto waiting_producer 0 Idle (snd (Ring_Drain full_slot))"
  have "wstep True waiting_producer ?t"
    using wstep.call_drain [of waiting_producer 0 True] by (simp add: waiting_producer_def)
  then have reach: "(wstep True)\<^sup>*\<^sup>* one_slot_start ?t"
    using waiting_producer_reached [of True] by (meson rtranclp.rtrancl_into_rtrancl)
  have pc: "w_pc ?t 1 = PushW_Select 8" by (simp add: waiting_producer_def)
  have "\<not> (\<exists>u. wstep True ?t u \<and> w_pc u 1 = PushW_Try 8)"
  proof
    assume "\<exists>u. wstep True ?t u \<and> w_pc u 1 = PushW_Try 8"
    then obtain u where "wstep True ?t u" and "w_pc u 1 = PushW_Try 8" by blast
    then show False
      using pc Drain_fields [OF f] c by (cases rule: wstep.cases) (auto split: if_splits)
  qed
  then show ?thesis using one_slot_start reach pc Drain_fields [OF f] c
    by (intro exI [of _ one_slot_start] exI [of _ ?t]) (simp add: at_rest_def waiting_producer_def)
qed

end
