(* ===== verification/Cas.thy ===== *)
theory Cas
  imports Netx_Prelude
begin

text \<open>
  The load / compare-and-swap loop, the lock-free idiom of \<open>limit\<close>, \<open>flow\<close>,
  \<open>udp\<close> and \<open>internal/counter\<close>:
  \<^verbatim>\<open>
  for {
      cur := x.Load()
      if give up on cur { return r }
      if x.CompareAndSwap(cur, new) { return r }
  }
  \<close>
  A loop is given by its body, a function from the loaded value to \<open>Inl r\<close> (return
  \<open>r\<close>, write nothing) or \<open>Inr (new, r)\<close> (try to swap in \<open>new\<close>, then return \<open>r\<close>).
  \<open>cas_atomic\<close> is the loop as one indivisible action, which the sequential models of the
  components use; \<open>cas_step\<close> is one atomic instruction of a goroutine running the loop,
  and \<open>cas_run\<close> interleaves any number of goroutines under an arbitrary schedule.

  The lemmas show that the loop is linearizable: every interleaving has the same results
  and the same final value as running the completed calls one after another as
  indivisible actions; that a goroutine left alone returns after at most two instructions;
  and that an invariant of the indivisible actions holds at every instant of every
  interleaving.
\<close>

type_synonym ('v, 'r) cas_body = "'v \<Rightarrow> 'r + 'v \<times> 'r"

datatype ('v, 'r) cas_pc = CLoad | CTry 'v 'v 'r | CDone 'r

definition cas_atomic :: "('v, 'r) cas_body \<Rightarrow> 'v \<Rightarrow> 'r \<times> 'v" where
  "cas_atomic f v = (case f v of Inl r \<Rightarrow> (r, v) | Inr (new, r) \<Rightarrow> (r, new))"

fun cas_step :: "('v, 'r) cas_body \<Rightarrow> 'v \<Rightarrow> ('v, 'r) cas_pc \<Rightarrow> 'v \<times> ('v, 'r) cas_pc" where
  "cas_step f v CLoad = (v, case f v of Inl r \<Rightarrow> CDone r | Inr (new, r) \<Rightarrow> CTry v new r)"
| "cas_step f v (CTry old new r) = (if v = old then (new, CDone r) else (v, CLoad))"
| "cas_step f v (CDone r) = (v, CDone r)"

definition cas_move ::
    "(nat \<Rightarrow> ('v, 'r) cas_body) \<Rightarrow> nat \<Rightarrow> 'v \<times> (nat \<Rightarrow> ('v, 'r) cas_pc) \<Rightarrow> 'v \<times> (nat \<Rightarrow> ('v, 'r) cas_pc)" where
  "cas_move fs i s = (let (v', p) = cas_step (fs i) (fst s) (snd s i) in (v', (snd s)(i := p)))"

definition cas_run ::
    "(nat \<Rightarrow> ('v, 'r) cas_body) \<Rightarrow> nat list \<Rightarrow> 'v \<Rightarrow> 'v \<times> (nat \<Rightarrow> ('v, 'r) cas_pc)" where
  "cas_run fs sched v0 = fold (cas_move fs) sched (v0, \<lambda>_. CLoad)"

section \<open>Linearizability\<close>

text \<open>A pending swap was computed by the body from the value it expects to find.\<close>

definition cas_pending_ok :: "(nat \<Rightarrow> ('v, 'r) cas_body) \<Rightarrow> (nat \<Rightarrow> ('v, 'r) cas_pc) \<Rightarrow> bool" where
  "cas_pending_ok fs pcs \<longleftrightarrow> (\<forall>i old new r. pcs i = CTry old new r \<longrightarrow> fs i old = Inr (new, r))"

definition linearized ::
    "(nat \<Rightarrow> ('v, 'r) cas_body) \<Rightarrow> 'v \<Rightarrow> nat list \<Rightarrow> 'v \<times> (nat \<Rightarrow> ('v, 'r) cas_pc) \<Rightarrow> bool" where
  "linearized fs v0 order s \<longleftrightarrow>
     distinct order \<and> (\<forall>i. i \<in> set order \<longleftrightarrow> (\<exists>r. snd s i = CDone r)) \<and>
     snd (run_ops (\<lambda>i. cas_atomic (fs i)) order v0) = fst s \<and>
     (\<forall>k < length order. snd s (order ! k) = CDone (fst (run_ops (\<lambda>i. cas_atomic (fs i)) order v0) ! k))"

lemma cas_move_pending: "cas_pending_ok fs (snd s) \<Longrightarrow> cas_pending_ok fs (snd (cas_move fs i s))"
  unfolding cas_pending_ok_def cas_move_def
  by (cases "snd s i") (auto split: sum.splits prod.splits if_splits)

text \<open>One instruction leaves the value alone, or finishes its call as an indivisible action.\<close>

lemma cas_move_effect:
  assumes "cas_pending_ok fs (snd s)"
  obtains (same) p where "cas_move fs i s = (fst s, (snd s)(i := p))"
      "\<And>r. p = CDone r \<longleftrightarrow> snd s i = CDone r"
  | (finish) r where "cas_move fs i s = (snd (cas_atomic (fs i) (fst s)), (snd s)(i := CDone r))"
      "r = fst (cas_atomic (fs i) (fst s))" "\<And>r. snd s i \<noteq> CDone r"
proof (cases "snd s i")
  case CLoad
  then show thesis using same finish
    by (cases "fs i (fst s)") (auto simp: cas_move_def cas_atomic_def)
next
  case (CTry old new r)
  then have "fs i old = Inr (new, r)" using assms by (simp add: cas_pending_ok_def)
  then show thesis using CTry same finish
    by (cases "fst s = old") (auto simp: cas_move_def cas_atomic_def)
next
  case (CDone r)
  then show thesis using same by (auto simp: cas_move_def)
qed

lemma linearized_move:
  assumes "linearized fs v0 order s" and "cas_pending_ok fs (snd s)"
  shows "\<exists>order'. linearized fs v0 order' (cas_move fs i s)"
  using assms(2)
proof (cases rule: cas_move_effect [where i = i])
  case (same p)
  have "linearized fs v0 order (cas_move fs i s)"
    using assms(1) same unfolding linearized_def
    by (auto simp: fun_upd_def)
  then show ?thesis by blast
next
  case (finish r)
  have "i \<notin> set order" using assms(1) finish(3) by (auto simp: linearized_def)
  moreover have "order ! k \<noteq> i" if "k < length order" for k using that calculation by (metis nth_mem)
  ultimately have "linearized fs v0 (order @ [i]) (cas_move fs i s)"
    using assms(1) finish unfolding linearized_def
    by (auto simp: run_ops_append nth_append length_run_ops less_Suc_eq)
  then show ?thesis by blast
qed

lemma cas_run_linearized:
  "cas_pending_ok fs (snd (cas_run fs sched v0)) \<and> (\<exists>order. linearized fs v0 order (cas_run fs sched v0))"
proof (induction sched rule: rev_induct)
  case Nil
  then show ?case by (auto simp: cas_run_def cas_pending_ok_def linearized_def)
next
  case (snoc i sched)
  let ?s = "cas_run fs sched v0"
  obtain order where "linearized fs v0 order ?s" using snoc by blast
  then have "\<exists>order'. linearized fs v0 order' (cas_move fs i ?s)"
    by (rule linearized_move [OF _ conjunct1 [OF snoc]])
  moreover have "cas_run fs (sched @ [i]) v0 = cas_move fs i ?s" by (simp add: cas_run_def)
  ultimately show ?case using snoc cas_move_pending [of fs ?s i] by simp
qed

text \<open>So the calls that returned a given result can be counted in the sequential run.\<close>

lemma linearized_count:
  assumes "linearized fs v0 order s"
  shows "card {i. snd s i = CDone r} =
    length (filter ((=) r) (fst (run_ops (\<lambda>i. cas_atomic (fs i)) order v0)))"
proof -
  let ?rs = "fst (run_ops (\<lambda>i. cas_atomic (fs i)) order v0)"
  let ?K = "{k. k < length order \<and> r = ?rs ! k}"
  have d: "distinct order" and in_order: "\<And>i r. snd s i = CDone r \<Longrightarrow> i \<in> set order"
    and res: "\<And>k. k < length order \<Longrightarrow> snd s (order ! k) = CDone (?rs ! k)"
    using assms by (auto simp: linearized_def)
  have "{i. snd s i = CDone r} = (!) order ` ?K"
  proof (intro set_eqI iffI)
    fix i assume i: "i \<in> {i. snd s i = CDone r}"
    then obtain k where "k < length order" "order ! k = i" using in_order by (auto simp: in_set_conv_nth)
    then show "i \<in> (!) order ` ?K" using res [of k] i by auto
  next
    fix i assume "i \<in> (!) order ` ?K"
    then show "i \<in> {i. snd s i = CDone r}" using res by auto
  qed
  moreover have "inj_on ((!) order) ?K" using d by (auto simp: inj_on_def nth_eq_iff_index_eq)
  ultimately have "card {i. snd s i = CDone r} = card ?K" by (simp add: card_image)
  then show ?thesis by (simp add: length_filter_conv_card length_run_ops)
qed

lemma cas_solo: "\<exists>r. snd (cas_step f (fst (cas_step f v CLoad)) (snd (cas_step f v CLoad))) = CDone r"
  by (cases "f v") auto

section \<open>Invariants under interleaving\<close>

locale cas_invariant =
  fixes fs :: "nat \<Rightarrow> ('v, 'r) cas_body" and inv :: "'v \<Rightarrow> bool"
  assumes atomic_inv: "inv v \<Longrightarrow> inv (snd (cas_atomic (fs i) v))"
begin

lemma interleaved_inv: "inv v0 \<Longrightarrow> inv (fst (cas_run fs sched v0))"
proof (induction sched rule: rev_induct)
  case Nil
  then show ?case by (simp add: cas_run_def)
next
  case (snoc i sched)
  let ?s = "cas_run fs sched v0"
  have "cas_pending_ok fs (snd ?s)" by (rule conjunct1 [OF cas_run_linearized])
  then have "inv (fst (cas_move fs i ?s))"
    using snoc atomic_inv [of "fst ?s" i] by (cases rule: cas_move_effect [where i = i]) auto
  then show ?case by (simp add: cas_run_def)
qed

end

end
