(* ===== verification/Limit.thy ===== *)
theory Limit
  imports Complex_Main Cas "HOL-Library.Signed_Division"
begin

text \<open>
  Package \<open>limit\<close> (\<open>src/limit/limit.go\<close>): \<open>Concurrency\<close>, \<open>Rate\<close>, \<open>All\<close>,
  \<open>Budget\<close> and \<open>PerKey\<close>.

  The CAS loops are given by their bodies (\<open>Cas\<close>); the sequential operations are their
  indivisible versions. Counters are 64-bit words read with \<open>sint\<close>. A panic keeps the
  state it leaves behind. \<open>Rate\<close> works in \<open>float64\<close>: every arithmetic operation is
  followed by a rounding function \<open>rnd\<close>, a parameter, of which only monotonicity and
  exactness on small integers (IEEE 754) are used. Limiters are pointers, so \<open>All\<close> works
  on references into a store and may hold the same limiter twice.

  The locale \<open>permit_limiter\<close> is the contract of the interface \<open>Limiter\<close> for limiters
  that count holders; \<open>Concurrency\<close> and each key of \<open>PerKey\<close> are instances.
\<close>

section \<open>Concurrency\<close>

record concurrency =
  c_max :: i64
  c_inUse :: i64

definition NewConcurrency :: "i64 \<Rightarrow> (concurrency, unit) res" where
  "NewConcurrency mx =
     (if sint mx \<le> 0 then Panic ''limit: NewConcurrency max must be positive'' ()
      else Ret \<lparr>c_max = mx, c_inUse = 0\<rparr> ())"

definition TryAcquire_body :: "i64 \<Rightarrow> (i64, bool) cas_body" where
  "TryAcquire_body mx n = (if sint n \<ge> sint mx then Inl False else Inr (n + 1, True))"

definition Concurrency_TryAcquire :: "concurrency \<Rightarrow> bool \<times> concurrency" where
  "Concurrency_TryAcquire c =
     (let (ok, n) = cas_atomic (TryAcquire_body (c_max c)) (c_inUse c) in (ok, c\<lparr>c_inUse := n\<rparr>))"

definition Concurrency_Release :: "concurrency \<Rightarrow> (unit, concurrency) res" where
  "Concurrency_Release c =
     (let c1 = c\<lparr>c_inUse := c_inUse c + (- 1)\<rparr>
      in if sint (c_inUse c1) < 0
         then Panic ''limit: Concurrency.Release without matching TryAcquire'' (c1\<lparr>c_inUse := c_inUse c1 + 1\<rparr>)
         else Ret () c1)"

definition Concurrency_InUse :: "concurrency \<Rightarrow> i64" where
  "Concurrency_InUse c = c_inUse c"

definition Concurrency_Max :: "concurrency \<Rightarrow> i64" where
  "Concurrency_Max c = c_max c"

section \<open>Rate\<close>

record rate =
  rt_perSec :: real
  rt_burst :: real
  rt_tokens :: real
  rt_last :: "int option"

definition NewRate :: "(real \<Rightarrow> real) \<Rightarrow> real \<Rightarrow> i64 \<Rightarrow> (rate, unit) res" where
  "NewRate rnd perSec burst =
     (if perSec \<le> 0 \<or> sint burst \<le> 0 then Panic ''limit: NewRate perSec and burst must be positive'' ()
      else Ret \<lparr>rt_perSec = perSec, rt_burst = rnd (of_int (sint burst)), rt_tokens = rnd (of_int (sint burst)),
                rt_last = None\<rparr> ())"

text \<open>\<open>time.Time.Sub\<close> saturates at the bounds of \<open>Duration\<close>; \<open>Duration.Seconds\<close> adds whole
  seconds and the fraction.\<close>

definition time_Sub :: "int \<Rightarrow> int \<Rightarrow> int" where
  "time_Sub t u = max (- (2 ^ 63)) (min (2 ^ 63 - 1) (t - u))"

definition Seconds :: "(real \<Rightarrow> real) \<Rightarrow> int \<Rightarrow> real" where
  "Seconds rnd d = rnd (of_int (d sdiv 1000000000) + rnd (of_int (d smod 1000000000) / 1000000000))"

definition refill :: "(real \<Rightarrow> real) \<Rightarrow> int \<Rightarrow> rate \<Rightarrow> rate" where
  "refill rnd now r =
     (case rt_last r of
        None \<Rightarrow> r
      | Some t0 \<Rightarrow>
          (let t = rnd (rt_tokens r + rnd (Seconds rnd (time_Sub now t0) * rt_perSec r))
           in r\<lparr>rt_tokens := (if t > rt_burst r then rt_burst r else t)\<rparr>))"

definition Rate_TryAcquire :: "(real \<Rightarrow> real) \<Rightarrow> int \<Rightarrow> rate \<Rightarrow> bool \<times> rate" where
  "Rate_TryAcquire rnd now r =
     (let r1 = (refill rnd now r)\<lparr>rt_last := Some now\<rparr>
      in if rt_tokens r1 < 1 then (False, r1)
         else (True, r1\<lparr>rt_tokens := rnd (rt_tokens r1 - 1)\<rparr>))"

definition Rate_Release :: "rate \<Rightarrow> rate" where
  "Rate_Release r = r"

section \<open>All\<close>

text \<open>
  A \<open>Limiter\<close> value is a pointer to a \<open>Concurrency\<close> or a \<open>Rate\<close>, or an \<open>all\<close>
  slice of them. The store holds the pointed-to values and the clock: \<open>ls_now k\<close> is the
  \<open>k\<close>-th reading of \<open>time.Now\<close>, \<open>ls_tick\<close> the number of readings taken.
\<close>

datatype lref = LConc nat | LRate nat | LAll "lref list"

record lstore =
  ls_conc :: "concurrency list"
  ls_rate :: "rate list"
  ls_now :: "nat \<Rightarrow> int"
  ls_tick :: nat

abbreviation nil_deref :: string where
  "nil_deref \<equiv> ''invalid memory address or nil pointer dereference''"

fun Limiter_Release :: "lref \<Rightarrow> lstore \<Rightarrow> (unit, lstore) res"
  and all_Release :: "lref list \<Rightarrow> lstore \<Rightarrow> (unit, lstore) res" where
  "Limiter_Release (LConc a) st =
     (if a < length (ls_conc st) then
        (case Concurrency_Release (ls_conc st ! a) of
           Ret u c \<Rightarrow> Ret () (st\<lparr>ls_conc := (ls_conc st)[a := c]\<rparr>)
         | Panic m c \<Rightarrow> Panic m (st\<lparr>ls_conc := (ls_conc st)[a := c]\<rparr>))
      else Panic nil_deref st)"
| "Limiter_Release (LRate a) st = Ret () st"
| "Limiter_Release (LAll ls) st = all_Release ls st"
| "all_Release [] st = Ret () st"
| "all_Release (l # ls) st =
     (case Limiter_Release l st of Ret u st1 \<Rightarrow> all_Release ls st1 | Panic m st1 \<Rightarrow> Panic m st1)"

fun Limiter_TryAcquire :: "(real \<Rightarrow> real) \<Rightarrow> lref \<Rightarrow> lstore \<Rightarrow> (bool, lstore) res"
  and all_TryAcquire :: "(real \<Rightarrow> real) \<Rightarrow> lref list \<Rightarrow> lref list \<Rightarrow> lstore \<Rightarrow> (bool, lstore) res" where
  "Limiter_TryAcquire rnd (LConc a) st =
     (if a < length (ls_conc st) then
        (let (ok, c) = Concurrency_TryAcquire (ls_conc st ! a)
         in Ret ok (st\<lparr>ls_conc := (ls_conc st)[a := c]\<rparr>))
      else Panic nil_deref st)"
| "Limiter_TryAcquire rnd (LRate a) st =
     (if a < length (ls_rate st) then
        (let (ok, r) = Rate_TryAcquire rnd (ls_now st (ls_tick st)) (ls_rate st ! a)
         in Ret ok (st\<lparr>ls_rate := (ls_rate st)[a := r], ls_tick := ls_tick st + 1\<rparr>))
      else Panic nil_deref st)"
| "Limiter_TryAcquire rnd (LAll ls) st = all_TryAcquire rnd [] ls st"
| "all_TryAcquire rnd held [] st = Ret True st"
| "all_TryAcquire rnd held (l # ls) st =
     (case Limiter_TryAcquire rnd l st of
        Panic m st1 \<Rightarrow> Panic m st1
      | Ret ok st1 \<Rightarrow>
          (if ok then all_TryAcquire rnd (l # held) ls st1
           else (case all_Release held st1 of
                   Panic m st2 \<Rightarrow> Panic m st2
                 | Ret u st2 \<Rightarrow> Ret False st2)))"

section \<open>Budget\<close>

record budget =
  b_max :: i64
  b_used :: i64

definition NewBudget :: "i64 \<Rightarrow> (budget, unit) res" where
  "NewBudget mx =
     (if sint mx \<le> 0 then Panic ''limit: NewBudget max must be positive'' ()
      else Ret \<lparr>b_max = mx, b_used = 0\<rparr> ())"

definition Reserve_body :: "i64 \<Rightarrow> i64 \<Rightarrow> (i64, bool) cas_body" where
  "Reserve_body mx n used = (if sint n > sint (mx - used) then Inl False else Inr (used + n, True))"

definition Budget_Reserve :: "i64 \<Rightarrow> budget \<Rightarrow> bool \<times> budget" where
  "Budget_Reserve n b =
     (if sint n < 0 then (False, b)
      else (let (ok, u) = cas_atomic (Reserve_body (b_max b) n) (b_used b) in (ok, b\<lparr>b_used := u\<rparr>)))"

definition Budget_Release :: "i64 \<Rightarrow> budget \<Rightarrow> (unit, budget) res" where
  "Budget_Release n b =
     (if sint n < 0 then Panic ''limit: Budget.Release of negative amount'' b
      else (let b1 = b\<lparr>b_used := b_used b + (- n)\<rparr>
            in if sint (b_used b1) < 0 then Panic ''limit: Budget.Release of more than reserved'' b1
               else Ret () b1))"

definition Budget_Used :: "budget \<Rightarrow> i64" where
  "Budget_Used b = b_used b"

definition Budget_Max :: "budget \<Rightarrow> i64" where
  "Budget_Max b = b_max b"

section \<open>PerKey\<close>

record 'k perkey =
  pk_max :: i64
  pk_n :: "('k, i64) fmap"

definition NewPerKey :: "i64 \<Rightarrow> ('k perkey, unit) res" where
  "NewPerKey mx =
     (if sint mx \<le> 0 then Panic ''limit: NewPerKey max must be positive'' ()
      else Ret \<lparr>pk_max = mx, pk_n = fmempty\<rparr> ())"

text \<open>Reading a missing key of a Go map yields the zero value.\<close>

definition map_get :: "('k, i64) fmap \<Rightarrow> 'k \<Rightarrow> i64" where
  "map_get m k = (case fmlookup m k of None \<Rightarrow> 0 | Some v \<Rightarrow> v)"

definition PerKey_TryAcquire :: "'k \<Rightarrow> 'k perkey \<Rightarrow> bool \<times> 'k perkey" where
  "PerKey_TryAcquire k p =
     (if sint (map_get (pk_n p) k) \<ge> sint (pk_max p) then (False, p)
      else (True, p\<lparr>pk_n := fmupd k (map_get (pk_n p) k + 1) (pk_n p)\<rparr>))"

definition PerKey_Release :: "'k \<Rightarrow> 'k perkey \<Rightarrow> (unit, 'k perkey) res" where
  "PerKey_Release k p =
     (case fmlookup (pk_n p) k of
        None \<Rightarrow> Panic ''limit: PerKey.Release without matching TryAcquire'' p
      | Some v \<Rightarrow>
          (if v = 1 then Ret () (p\<lparr>pk_n := fmdrop k (pk_n p)\<rparr>)
           else Ret () (p\<lparr>pk_n := fmupd k (v - 1) (pk_n p)\<rparr>)))"

definition PerKey_InUse :: "'k \<Rightarrow> 'k perkey \<Rightarrow> i64" where
  "PerKey_InUse k p = map_get (pk_n p) k"

definition PerKey_Keys :: "'k perkey \<Rightarrow> nat" where
  "PerKey_Keys p = fcard (fmdom (pk_n p))"

definition PerKey_Max :: "'k perkey \<Rightarrow> i64" where
  "PerKey_Max p = pk_max p"


section \<open>The contract of a limiter that counts holders\<close>

datatype lim_op = Acquire | Give

fun lim_step :: "('l \<Rightarrow> bool \<times> 'l) \<Rightarrow> ('l \<Rightarrow> (unit, 'l) res) \<Rightarrow> lim_op \<Rightarrow> 'l \<Rightarrow> bool \<times> 'l" where
  "lim_step try rel Acquire l = try l"
| "lim_step try rel Give l = (\<not> panics (rel l), res_state (rel l))"

text \<open>Successful calls of one kind in a sequence of calls and results.\<close>

definition succeeded :: "lim_op \<Rightarrow> lim_op list \<Rightarrow> bool list \<Rightarrow> nat" where
  "succeeded x es bs = length (filter (\<lambda>(e, b). e = x \<and> b) (zip es bs))"

lemma succeeded_simps [simp]:
  "succeeded x [] bs = 0"
  "succeeded x (e # es) (b # bs) = (if e = x \<and> b then 1 else 0) + succeeded x es bs"
  by (simp_all add: succeeded_def)

locale permit_limiter =
  fixes try_acquire :: "'l \<Rightarrow> bool \<times> 'l"
    and release :: "'l \<Rightarrow> (unit, 'l) res"
    and inv :: "'l \<Rightarrow> bool"
    and held :: "'l \<Rightarrow> nat"
    and cap :: "'l \<Rightarrow> nat"
  assumes held_le_cap: "inv l \<Longrightarrow> held l \<le> cap l"
    and try_keeps: "inv l \<Longrightarrow> inv (snd (try_acquire l)) \<and> cap (snd (try_acquire l)) = cap l"
    and try_admits: "inv l \<Longrightarrow> fst (try_acquire l) \<longleftrightarrow> held l < cap l"
    and try_counts: "inv l \<Longrightarrow>
      held (snd (try_acquire l)) = held l + (if fst (try_acquire l) then 1 else 0)"
    and release_keeps: "inv l \<Longrightarrow>
      inv (res_state (release l)) \<and> cap (res_state (release l)) = cap l"
    and release_panics: "inv l \<Longrightarrow> panics (release l) \<longleftrightarrow> held l = 0"
    and release_counts: "inv l \<Longrightarrow> held (res_state (release l)) = held l - 1"
begin

lemma step_keeps_inv: "inv l \<Longrightarrow> inv (snd (lim_step try_acquire release e l))"
  by (cases e) (simp_all add: try_keeps release_keeps)

text \<open>Permits handed out and not returned are exactly the holders, never more than the cap.\<close>

lemma run_balance:
  assumes "inv l"
  shows "inv (snd (run_ops (lim_step try_acquire release) es l)) \<and>
    cap (snd (run_ops (lim_step try_acquire release) es l)) = cap l \<and>
    held (snd (run_ops (lim_step try_acquire release) es l)) +
      succeeded Give es (fst (run_ops (lim_step try_acquire release) es l)) =
    held l + succeeded Acquire es (fst (run_ops (lim_step try_acquire release) es l)) \<and>
    held (snd (run_ops (lim_step try_acquire release) es l)) \<le> cap l"
  using assms
proof (induction es arbitrary: l)
  case Nil
  then show ?case by (simp add: held_le_cap)
next
  case (Cons e es)
  from Cons.IH [OF step_keeps_inv [OF Cons.prems, of e]] Cons.prems
  show ?case
    by (cases e) (auto simp: try_keeps try_counts release_keeps release_panics release_counts)
qed

end

sublocale permit_limiter \<subseteq> limited: op_invariant "lim_step try_acquire release" inv
  by unfold_locales (rule step_keeps_inv)

section \<open>Concurrency keeps the contract\<close>

definition concurrency_inv :: "concurrency \<Rightarrow> bool" where
  "concurrency_inv c \<longleftrightarrow> 0 < sint (c_max c) \<and> 0 \<le> sint (c_inUse c) \<and> sint (c_inUse c) \<le> sint (c_max c)"

definition concurrency_held :: "concurrency \<Rightarrow> nat" where
  "concurrency_held c = nat (sint (c_inUse c))"

lemma sint64_incr: "sint (n :: i64) < sint (m :: i64) \<Longrightarrow> sint (n + 1) = sint n + 1"
  using sint64_bounds [of n] sint64_bounds [of m] by (simp add: sint64_add)

lemma sint64_decr: "0 \<le> sint (n :: i64) \<Longrightarrow> sint (n - 1) = sint n - 1"
  using sint64_bounds [of n] by (simp add: sint64_diff)

lemma Concurrency_TryAcquire_eq:
  "Concurrency_TryAcquire c =
     (if sint (c_max c) \<le> sint (c_inUse c) then (False, c) else (True, c\<lparr>c_inUse := c_inUse c + 1\<rparr>))"
  by (simp add: Concurrency_TryAcquire_def TryAcquire_body_def cas_atomic_def)

lemma Concurrency_Release_eq:
  "0 \<le> sint (c_inUse c) \<Longrightarrow> Concurrency_Release c =
     (if sint (c_inUse c) = 0
      then Panic ''limit: Concurrency.Release without matching TryAcquire'' c
      else Ret () (c\<lparr>c_inUse := c_inUse c - 1\<rparr>))"
  using sint64_decr [of "c_inUse c"] by (simp add: Concurrency_Release_def Let_def)

interpretation conc: permit_limiter Concurrency_TryAcquire Concurrency_Release concurrency_inv
    concurrency_held "\<lambda>c. nat (sint (c_max c))"
  by unfold_locales
     (auto simp: Concurrency_TryAcquire_eq Concurrency_Release_eq concurrency_inv_def concurrency_held_def
       not_le sint64_decr nat_diff_distrib' sint64_incr [of "c_inUse c" "c_max c" for c])

text \<open>Any number of goroutines in \<open>TryAcquire\<close> at once.\<close>

interpretation conc_cas: cas_invariant "\<lambda>_. TryAcquire_body mx" "\<lambda>n. sint n \<le> sint mx" for mx
  by unfold_locales (auto simp: cas_atomic_def TryAcquire_body_def not_le sint64_incr [of n mx for n])

lemma filter_True_eq: "filter ((=) True) bs = filter id bs"
  by (rule filter_cong) auto

lemma TryAcquire_run_counts:
  "sint (snd (run_ops (\<lambda>i. cas_atomic (TryAcquire_body mx)) order n0)) =
     sint n0 + int (length (filter id (fst (run_ops (\<lambda>i. cas_atomic (TryAcquire_body mx)) order n0))))"
proof (induction order arbitrary: n0)
  case Nil
  then show ?case by simp
next
  case (Cons i order)
  show ?case
    using Cons.IH [of "snd (cas_atomic (TryAcquire_body mx) n0)"] sint64_incr [of n0 mx]
    by (auto simp: cas_atomic_def TryAcquire_body_def)
qed


section \<open>Each key of PerKey keeps the contract\<close>

definition perkey_inv :: "'k perkey \<Rightarrow> bool" where
  "perkey_inv p \<longleftrightarrow> 0 < sint (pk_max p) \<and>
     (\<forall>k v. fmlookup (pk_n p) k = Some v \<longrightarrow> 1 \<le> sint v \<and> sint v \<le> sint (pk_max p))"

definition perkey_held :: "'k \<Rightarrow> 'k perkey \<Rightarrow> nat" where
  "perkey_held k p = nat (sint (map_get (pk_n p) k))"

lemma perkey_get:
  assumes "perkey_inv p"
  shows "0 \<le> sint (map_get (pk_n p) k)" and "sint (map_get (pk_n p) k) \<le> sint (pk_max p)"
    and "sint (map_get (pk_n p) k) = 0 \<longleftrightarrow> fmlookup (pk_n p) k = None"
  using assms by (force simp: perkey_inv_def map_get_def split: option.splits)+

lemma PerKey_TryAcquire_inv [netx_inv]:
  assumes "perkey_inv p"
  shows "perkey_inv (snd (PerKey_TryAcquire k p))"
  using assms perkey_get(1) [OF assms, of k] sint64_incr [of "map_get (pk_n p) k" "pk_max p"]
  by (auto simp: PerKey_TryAcquire_def perkey_inv_def)

lemma sint64_eq_1: "sint (v :: i64) = 1 \<longleftrightarrow> v = 1"
  using signed_word_eqI [of v 1] by auto

lemma perkey_count_pred:
  assumes "perkey_inv p" and "fmlookup (pk_n p) k = Some v"
  shows "v \<noteq> 1 \<Longrightarrow> 2 \<le> sint v" and "sint (v - 1) = sint v - 1" and "sint v \<le> sint (pk_max p)"
proof -
  have v: "1 \<le> sint v" "sint v \<le> sint (pk_max p)" using assms by (auto simp: perkey_inv_def)
  show "v \<noteq> 1 \<Longrightarrow> 2 \<le> sint v" using v(1) sint64_eq_1 [of v] by linarith
  show "sint (v - 1) = sint v - 1" using v(1) by (intro sint64_decr) simp
  show "sint v \<le> sint (pk_max p)" by (rule v(2))
qed

lemma PerKey_Release_inv [netx_inv]:
  assumes "perkey_inv p"
  shows "perkey_inv (res_state (PerKey_Release k p))"
proof (cases "fmlookup (pk_n p) k")
  case None
  then show ?thesis using assms by (simp add: PerKey_Release_def)
next
  case (Some v)
  have "sint v - 1 \<le> sint (pk_max p)" using perkey_count_pred(3) [OF assms Some] by simp
  then show ?thesis using Some assms perkey_count_pred(1,2) [OF assms Some]
    by (auto simp: PerKey_Release_def perkey_inv_def)
qed

lemma PerKey_Release_held:
  assumes "perkey_inv p"
  shows "panics (PerKey_Release k p) \<longleftrightarrow> perkey_held k p = 0"
    and "perkey_held k (res_state (PerKey_Release k p)) = perkey_held k p - 1"
proof -
  have "(panics (PerKey_Release k p) \<longleftrightarrow> perkey_held k p = 0) \<and>
        perkey_held k (res_state (PerKey_Release k p)) = perkey_held k p - 1"
  proof (cases "fmlookup (pk_n p) k")
    case None
    then show ?thesis by (simp add: PerKey_Release_def perkey_held_def map_get_def)
  next
    case (Some v)
    have "1 \<le> sint v" using assms Some by (auto simp: perkey_inv_def)
    then show ?thesis using Some perkey_count_pred [OF assms Some]
      by (auto simp: PerKey_Release_def perkey_held_def map_get_def)
  qed
  then show "panics (PerKey_Release k p) \<longleftrightarrow> perkey_held k p = 0"
    and "perkey_held k (res_state (PerKey_Release k p)) = perkey_held k p - 1" by simp_all
qed

lemma PerKey_TryAcquire_held:
  assumes "perkey_inv p"
  shows "fst (PerKey_TryAcquire k p) \<longleftrightarrow> perkey_held k p < nat (sint (pk_max p))"
    and "perkey_held k (snd (PerKey_TryAcquire k p)) =
           perkey_held k p + (if fst (PerKey_TryAcquire k p) then 1 else 0)"
  using perkey_get(1,2) [OF assms, of k] sint64_incr [of "map_get (pk_n p) k" "pk_max p"]
  by (auto simp: PerKey_TryAcquire_def perkey_held_def map_get_def)

lemma perkey_max_frame [simp]:
  "pk_max (snd (PerKey_TryAcquire k p)) = pk_max p" "pk_max (res_state (PerKey_Release k p)) = pk_max p"
  by (auto simp: PerKey_TryAcquire_def PerKey_Release_def split: option.splits)

lemma perkey_held_le: "perkey_inv p \<Longrightarrow> perkey_held k p \<le> nat (sint (pk_max p))"
  by (simp add: perkey_held_def perkey_get nat_mono)

interpretation perkey: permit_limiter "PerKey_TryAcquire k" "PerKey_Release k" perkey_inv
    "perkey_held k" "\<lambda>p. nat (sint (pk_max p))" for k
  by unfold_locales
     (simp_all add: netx_inv PerKey_TryAcquire_held PerKey_Release_held perkey_held_le)

text \<open>Calls for one key do not touch another.\<close>

lemma perkey_other_key:
  "k \<noteq> k' \<Longrightarrow> perkey_held k' (snd (PerKey_TryAcquire k p)) = perkey_held k' p"
  "k \<noteq> k' \<Longrightarrow> perkey_held k' (res_state (PerKey_Release k p)) = perkey_held k' p"
  by (auto simp: PerKey_TryAcquire_def PerKey_Release_def perkey_held_def map_get_def split: option.splits)

lemma PerKey_Keys_eq:
  assumes "perkey_inv p"
  shows "PerKey_Keys p = card {k. 0 < perkey_held k p}"
proof -
  have "0 < perkey_held k p \<longleftrightarrow> fmlookup (pk_n p) k \<noteq> None" for k
    using perkey_get(1,3) [OF assms, of k] by (auto simp: perkey_held_def)
  then have "fset (fmdom (pk_n p)) = {k. 0 < perkey_held k p}"
    by (auto simp: fmlookup_dom_iff)
  then show ?thesis by (simp add: PerKey_Keys_def fcard.rep_eq)
qed

section \<open>Budget\<close>

definition budget_inv :: "budget \<Rightarrow> bool" where
  "budget_inv b \<longleftrightarrow> 0 < sint (b_max b) \<and> 0 \<le> sint (b_used b) \<and> sint (b_used b) \<le> sint (b_max b)"

lemma Reserve_body_eq:
  assumes "0 \<le> sint used" and "sint used \<le> sint mx" and "0 \<le> sint n"
  shows "Reserve_body mx n used = (if sint mx < sint used + sint n then Inl False else Inr (used + n, True))"
    and "sint used + sint n \<le> sint mx \<Longrightarrow> sint (used + n) = sint used + sint n"
  using assms sint64_bounds [of mx] by (auto simp: Reserve_body_def sint64_diff sint64_add)

lemma Budget_Reserve_eq:
  assumes "budget_inv b"
  shows "Budget_Reserve n b =
    (if sint n < 0 \<or> sint (b_max b) < sint (b_used b) + sint n then (False, b)
     else (True, b\<lparr>b_used := b_used b + n\<rparr>))"
    and "fst (Budget_Reserve n b) \<Longrightarrow> sint (b_used b + n) = sint (b_used b) + sint n"
  using assms Reserve_body_eq [of "b_used b" "b_max b" n]
  by (auto simp: budget_inv_def Budget_Reserve_def cas_atomic_def split: if_splits)

lemma Budget_Reserve_inv [netx_inv]: "budget_inv b \<Longrightarrow> budget_inv (snd (Budget_Reserve n b))"
  using Budget_Reserve_eq [of b n] by (auto simp: budget_inv_def split: if_splits)

lemma Budget_Release_eq:
  assumes "budget_inv b"
  shows "Budget_Release n b =
    (if sint n < 0 then Panic ''limit: Budget.Release of negative amount'' b
     else if sint (b_used b) < sint n
       then Panic ''limit: Budget.Release of more than reserved'' (b\<lparr>b_used := b_used b - n\<rparr>)
     else Ret () (b\<lparr>b_used := b_used b - n\<rparr>))"
    and "0 \<le> sint n \<Longrightarrow> sint (b_used b - n) = sint (b_used b) - sint n"
proof -
  show *: "sint (b_used b - n) = sint (b_used b) - sint n" if "0 \<le> sint n"
    using that assms sint64_bounds [of n] sint64_bounds [of "b_used b"]
    by (intro sint64_diff) (auto simp: budget_inv_def)
  show "Budget_Release n b =
    (if sint n < 0 then Panic ''limit: Budget.Release of negative amount'' b
     else if sint (b_used b) < sint n
       then Panic ''limit: Budget.Release of more than reserved'' (b\<lparr>b_used := b_used b - n\<rparr>)
     else Ret () (b\<lparr>b_used := b_used b - n\<rparr>))"
    using * by (simp add: Budget_Release_def Let_def)
qed

lemma Budget_Release_inv [netx_inv]:
  "budget_inv b \<Longrightarrow> \<not> panics (Budget_Release n b) \<Longrightarrow> budget_inv (res_state (Budget_Release n b))"
  using Budget_Release_eq [of b n] by (auto simp: budget_inv_def split: if_splits)


subsection \<open>Sequences of calls on a budget\<close>

datatype budget_op = BReserve i64 | BRelease i64

fun budget_step :: "budget_op \<Rightarrow> budget \<Rightarrow> bool \<times> budget" where
  "budget_step (BReserve n) b = Budget_Reserve n b"
| "budget_step (BRelease n) b = (\<not> panics (Budget_Release n b), res_state (Budget_Release n b))"

fun budget_delta :: "budget_op \<Rightarrow> bool \<Rightarrow> int" where
  "budget_delta (BReserve n) ok = (if ok then sint n else 0)"
| "budget_delta (BRelease n) ok = - sint n"

definition outstanding_units :: "budget_op list \<Rightarrow> bool list \<Rightarrow> int" where
  "outstanding_units es bs = (\<Sum>(e, b) \<leftarrow> zip es bs. budget_delta e b)"

definition no_budget_panic :: "budget_op list \<Rightarrow> bool list \<Rightarrow> bool" where
  "no_budget_panic es bs \<longleftrightarrow> (\<forall>(e, b) \<in> set (zip es bs). b \<or> (\<exists>n. e = BReserve n))"

lemma budget_step_balance:
  assumes "budget_inv b" and "no_budget_panic [e] [fst (budget_step e b)]"
  shows "budget_inv (snd (budget_step e b)) \<and> b_max (snd (budget_step e b)) = b_max b \<and>
    sint (b_used (snd (budget_step e b))) = sint (b_used b) + budget_delta e (fst (budget_step e b))"
proof (cases e)
  case (BReserve n)
  then show ?thesis
    using Budget_Reserve_inv [OF assms(1), of n] Budget_Reserve_eq [OF assms(1), of n] by auto
next
  case (BRelease n)
  then have np: "\<not> panics (Budget_Release n b)" using assms(2) by (simp add: no_budget_panic_def)
  then show ?thesis
    using BRelease Budget_Release_inv [OF assms(1) np] Budget_Release_eq [OF assms(1), of n]
    by (auto split: if_splits)
qed

lemma budget_run_balance:
  assumes "budget_inv b" and "no_budget_panic es (fst (run_ops budget_step es b))"
  shows "budget_inv (snd (run_ops budget_step es b)) \<and> b_max (snd (run_ops budget_step es b)) = b_max b \<and>
    sint (b_used (snd (run_ops budget_step es b))) =
      sint (b_used b) + outstanding_units es (fst (run_ops budget_step es b))"
  using assms
proof (induction es arbitrary: b)
  case Nil
  then show ?case by (simp add: outstanding_units_def)
next
  case (Cons e es)
  have "no_budget_panic [e] [fst (budget_step e b)]"
    and "no_budget_panic es (fst (run_ops budget_step es (snd (budget_step e b))))"
    using Cons.prems(2) by (simp_all add: no_budget_panic_def)
  then show ?case using budget_step_balance [OF Cons.prems(1)] Cons.IH [of "snd (budget_step e b)"]
    by (simp add: outstanding_units_def)
qed

subsection \<open>Concurrent reservations\<close>

text \<open>A goroutine in \<open>Reserve(n)\<close>: a negative amount is refused without entering the loop.\<close>

definition Reserve_call :: "i64 \<Rightarrow> i64 \<Rightarrow> (i64, bool) cas_body" where
  "Reserve_call mx n used = (if sint n < 0 then Inl False else Reserve_body mx n used)"

lemma Reserve_call_atomic:
  assumes "0 \<le> sint u" and "sint u \<le> sint mx"
  shows "0 \<le> sint (snd (cas_atomic (Reserve_call mx n) u)) \<and>
    sint (snd (cas_atomic (Reserve_call mx n) u)) \<le> sint mx \<and>
    sint (snd (cas_atomic (Reserve_call mx n) u)) =
      sint u + (if fst (cas_atomic (Reserve_call mx n) u) then sint n else 0)"
  using Reserve_body_eq [OF assms, of n] assms by (auto simp: Reserve_call_def cas_atomic_def)

interpretation budget_cas: cas_invariant "\<lambda>i. Reserve_call mx (ns i)"
    "\<lambda>u. 0 \<le> sint u \<and> sint u \<le> sint mx" for mx and ns :: "nat \<Rightarrow> i64"
  by unfold_locales (use Reserve_call_atomic in blast)

lemma Reserve_run_sums:
  assumes "0 \<le> sint u" and "sint u \<le> sint mx"
  shows "sint (snd (run_ops (\<lambda>i. cas_atomic (Reserve_call mx (ns i))) order u)) =
    sint u + (\<Sum>(i, ok) \<leftarrow> zip order (fst (run_ops (\<lambda>i. cas_atomic (Reserve_call mx (ns i))) order u)).
                 if ok then sint (ns i) else 0)"
  using assms
proof (induction order arbitrary: u)
  case Nil
  then show ?case by simp
next
  case (Cons i order)
  then show ?case using Reserve_call_atomic [OF Cons.prems, of "ns i"] by simp
qed

section \<open>All\<close>

text \<open>
  \<open>permits l a\<close>: how often the limiter at address \<open>a\<close> occurs in \<open>l\<close>; \<open>lref_ok\<close>:
  every pointer is valid; \<open>st_held st a\<close>: the holders of the limiter at \<open>a\<close>.
\<close>

fun permits :: "lref \<Rightarrow> nat \<Rightarrow> nat" where
  "permits (LConc b) a = (if a = b then 1 else 0)"
| "permits (LRate b) a = 0"
| "permits (LAll ls) a = (\<Sum>l \<leftarrow> ls. permits l a)"

fun lref_ok :: "lstore \<Rightarrow> lref \<Rightarrow> bool" where
  "lref_ok st (LConc b) = (b < length (ls_conc st))"
| "lref_ok st (LRate b) = (b < length (ls_rate st))"
| "lref_ok st (LAll ls) = (\<forall>l \<in> set ls. lref_ok st l)"

definition st_held :: "lstore \<Rightarrow> nat \<Rightarrow> nat" where
  "st_held st a = (if a < length (ls_conc st) then concurrency_held (ls_conc st ! a) else 0)"

definition st_inv :: "lstore \<Rightarrow> bool" where
  "st_inv st \<longleftrightarrow> (\<forall>c \<in> set (ls_conc st). concurrency_inv c)"

definition same_shape :: "lstore \<Rightarrow> lstore \<Rightarrow> bool" where
  "same_shape st st' \<longleftrightarrow> map c_max (ls_conc st') = map c_max (ls_conc st) \<and>
     length (ls_rate st') = length (ls_rate st)"

lemma same_shape_ok: "same_shape st st' \<Longrightarrow> lref_ok st' l = lref_ok st l"
proof (induction l)
  case (LConc x)
  then show ?case by (simp add: same_shape_def) (metis length_map)
next
  case (LRate x)
  then show ?case by (simp add: same_shape_def)
qed auto

lemma same_shape_trans: "same_shape st st1 \<Longrightarrow> same_shape st1 st2 \<Longrightarrow> same_shape st st2"
  by (simp add: same_shape_def)

lemma Limiter_Release_returns:
  "st_inv st \<Longrightarrow> lref_ok st l \<Longrightarrow> (\<forall>a. permits l a \<le> st_held st a) \<Longrightarrow>
     \<exists>st'. Limiter_Release l st = Ret () st' \<and> st_inv st' \<and> same_shape st st' \<and>
       (\<forall>a. st_held st' a = st_held st a - permits l a)"
  "st_inv st \<Longrightarrow> (\<forall>l \<in> set ls. lref_ok st l) \<Longrightarrow> (\<forall>a. (\<Sum>l \<leftarrow> ls. permits l a) \<le> st_held st a) \<Longrightarrow>
     \<exists>st'. all_Release ls st = Ret () st' \<and> st_inv st' \<and> same_shape st st' \<and>
       (\<forall>a. st_held st' a = st_held st a - (\<Sum>l \<leftarrow> ls. permits l a))"
proof (induction l st and ls st rule: Limiter_Release_all_Release.induct)
  case (1 a st)
  let ?c = "ls_conc st ! a"
  have a: "a < length (ls_conc st)" using 1 by simp
  have inv: "concurrency_inv ?c" using 1 a by (simp add: st_inv_def)
  have "0 < concurrency_held ?c" using 1(3) a by (auto simp: st_held_def dest: spec [of _ a])
  then obtain c' where c': "Concurrency_Release ?c = Ret () c'"
    using conc.release_panics [OF inv] by (metis not_panics_iff old.unit.exhaust less_numeral_extra(3))
  then have "concurrency_inv c'" "c_max c' = c_max ?c" "concurrency_held c' = concurrency_held ?c - 1"
    using conc.release_keeps [OF inv] conc.release_counts [OF inv]
      Concurrency_Release_eq [of ?c] inv by (auto simp: concurrency_inv_def split: if_splits)
  then show ?case using 1 a c'
    by (auto simp: st_inv_def same_shape_def st_held_def map_update nth_list_update
        list_update_same_conv dest!: set_update_subset_insert [THEN subsetD])
next
  case (2 a st)
  then show ?case by (simp add: same_shape_def)
next
  case (3 ls st)
  then show ?case by simp
next
  case (4 st)
  then show ?case by (simp add: same_shape_def)
next
  case (5 l ls st)
  have l: "\<forall>a. permits l a \<le> st_held st a" using 5(5) by (auto intro: le_trans [OF le_add1])
  from "5.IH"(1) [OF 5(3) _ l] 5(4) obtain st1 where st1: "Limiter_Release l st = Ret () st1"
      "st_inv st1" "same_shape st st1" "\<forall>a. st_held st1 a = st_held st a - permits l a" by auto
  have "\<forall>a. (\<Sum>l \<leftarrow> ls. permits l a) \<le> st_held st1 a"
    using 5(5) st1(4) by (auto simp: le_diff_conv2 l add.commute)
  moreover have "\<forall>l \<in> set ls. lref_ok st1 l" using 5(4) same_shape_ok [OF st1(3)] by simp
  ultimately obtain st2 where "all_Release ls st1 = Ret () st2" "st_inv st2" "same_shape st1 st2"
      "\<forall>a. st_held st2 a = st_held st1 a - (\<Sum>l \<leftarrow> ls. permits l a)"
    using "5.IH"(2) [OF st1(1,2)] by blast
  then show ?case using st1 same_shape_trans by (auto simp: diff_diff_left)
qed


lemma Limiter_TryAcquire_returns:
  "st_inv st \<Longrightarrow> lref_ok st l \<Longrightarrow>
     \<exists>ok st'. Limiter_TryAcquire rnd l st = Ret ok st' \<and> st_inv st' \<and> same_shape st st' \<and>
       (\<forall>a. st_held st' a = st_held st a + (if ok then permits l a else 0))"
  "st_inv st \<Longrightarrow> (\<forall>l \<in> set held \<union> set ls. lref_ok st l) \<Longrightarrow>
     (\<forall>a. (\<Sum>l \<leftarrow> held. permits l a) \<le> st_held st a) \<Longrightarrow>
     \<exists>ok st'. all_TryAcquire rnd held ls st = Ret ok st' \<and> st_inv st' \<and> same_shape st st' \<and>
       (\<forall>a. st_held st' a = (if ok then st_held st a + (\<Sum>l \<leftarrow> ls. permits l a)
                             else st_held st a - (\<Sum>l \<leftarrow> held. permits l a)))"
proof (induction rnd l st and rnd held ls st rule: Limiter_TryAcquire_all_TryAcquire.induct)
  case (1 rnd a st)
  let ?c = "ls_conc st ! a"
  have a: "a < length (ls_conc st)" and inv: "concurrency_inv ?c" using 1 by (simp_all add: st_inv_def)
  have "c_max (snd (Concurrency_TryAcquire ?c)) = c_max ?c" by (simp add: Concurrency_TryAcquire_eq)
  then show ?case using 1 a conc.try_keeps [OF inv] conc.try_counts [OF inv]
    by (auto simp: st_inv_def same_shape_def st_held_def map_update nth_list_update case_prod_beta
        list_update_same_conv dest!: set_update_subset_insert [THEN subsetD])
next
  case (2 rnd a st)
  then show ?case by (auto simp: st_inv_def same_shape_def st_held_def case_prod_beta)
next
  case (3 rnd ls st)
  then show ?case by auto
next
  case (4 rnd held st)
  then show ?case by (intro exI [of _ True] exI [of _ st]) (simp add: same_shape_def)
next
  case (5 rnd held l ls st)
  have "lref_ok st l" using 5(4) by simp
  from "5.IH"(1) [OF 5(3) this] obtain ok st1 where st1: "Limiter_TryAcquire rnd l st = Ret ok st1"
      "st_inv st1" "same_shape st st1"
      "\<forall>a. st_held st1 a = st_held st a + (if ok then permits l a else 0)" by blast
  have refs: "\<forall>l' \<in> insert l (set held \<union> set ls). lref_ok st1 l'"
    using 5(4) same_shape_ok [OF st1(3)] by simp
  show ?case
  proof (cases ok)
    case True
    have "\<forall>l' \<in> set (l # held) \<union> set ls. lref_ok st1 l'" using refs by simp
    moreover have "\<forall>a. (\<Sum>l \<leftarrow> l # held. permits l a) \<le> st_held st1 a"
      using st1(4) 5(5) True by simp
    ultimately obtain ok' st2 where st2: "all_TryAcquire rnd (l # held) ls st1 = Ret ok' st2" "st_inv st2"
        "same_shape st1 st2"
        "\<forall>a. st_held st2 a = (if ok' then st_held st1 a + (\<Sum>l \<leftarrow> ls. permits l a)
                              else st_held st1 a - (\<Sum>l \<leftarrow> l # held. permits l a))"
      using "5.IH"(2) [OF st1(1) True st1(2)] by blast
    have "all_TryAcquire rnd held (l # ls) st = Ret ok' st2" using st1(1) st2(1) True by simp
    moreover have "\<forall>a. st_held st2 a = (if ok' then st_held st a + (\<Sum>l \<leftarrow> l # ls. permits l a)
                              else st_held st a - (\<Sum>l \<leftarrow> held. permits l a))"
      using st2(4) st1(4) True by simp
    ultimately show ?thesis using st2(2) same_shape_trans [OF st1(3) st2(3)] by blast
  next
    case False
    have "\<forall>l' \<in> set held. lref_ok st1 l'" using refs by simp
    moreover have same: "\<forall>a. st_held st1 a = st_held st a" using st1(4) False by simp
    ultimately obtain st2 where st2: "all_Release held st1 = Ret () st2" "st_inv st2" "same_shape st1 st2"
        "\<forall>a. st_held st2 a = st_held st1 a - (\<Sum>l \<leftarrow> held. permits l a)"
      using Limiter_Release_returns(2) [OF st1(2), of held] 5(5) by auto
    have "all_TryAcquire rnd held (l # ls) st = Ret False st2" using st1(1) st2(1) False by simp
    then show ?thesis using st2(2,4) same same_shape_trans [OF st1(3) st2(3)]
      by (intro exI [of _ False] exI [of _ st2]) simp
  qed
qed

section \<open>Rate\<close>

text \<open>What is used of \<open>float64\<close> rounding: it is monotone and exact on integers up to \<open>2\<^sup>5\<^sup>3\<close>.\<close>

definition float_rounding :: "(real \<Rightarrow> real) \<Rightarrow> bool" where
  "float_rounding rnd \<longleftrightarrow> mono rnd \<and> (\<forall>i :: int. \<bar>i\<bar> \<le> 2 ^ 53 \<longrightarrow> rnd (of_int i) = of_int i)"

definition rate_inv :: "rate \<Rightarrow> bool" where
  "rate_inv r \<longleftrightarrow> 0 < rt_perSec r \<and> 0 \<le> rt_tokens r \<and> rt_tokens r \<le> rt_burst r \<and>
     (\<exists>b :: int. rt_burst r = of_int b \<and> 0 < b \<and> b \<le> 2 ^ 53)"

lemma rnd_0: "float_rounding rnd \<Longrightarrow> rnd 0 = 0"
  unfolding float_rounding_def by (metis abs_zero of_int_0 zero_le_numeral zero_le_power)

lemma rnd_nonneg: "float_rounding rnd \<Longrightarrow> 0 \<le> x \<Longrightarrow> 0 \<le> rnd x"
  using rnd_0 [of rnd] by (auto simp: float_rounding_def dest: monoD [of rnd 0 x])

lemma time_Sub_nonneg: "u \<le> t \<Longrightarrow> 0 \<le> time_Sub t u \<and> time_Sub t u \<le> t - u"
  by (simp add: time_Sub_def)

lemma sdiv_smod_nonneg:
  "0 \<le> (d :: int) \<Longrightarrow> 0 < k \<Longrightarrow> d sdiv k = d div k \<and> d smod k = d mod k"
  by (simp add: signed_divide_int_def signed_modulo_int_def sgn_if minus_div_mult_eq_mod)

lemma Seconds_nonneg:
  assumes "float_rounding rnd" and "0 \<le> d"
  shows "0 \<le> Seconds rnd d"
proof -
  note nonneg = rnd_nonneg [OF assms(1)]
  show ?thesis unfolding Seconds_def
    using assms(2) by (intro nonneg add_nonneg_nonneg) (simp_all add: sdiv_smod_nonneg)
qed

text \<open>The clock of a limiter does not run backwards.\<close>

definition later :: "int \<Rightarrow> rate \<Rightarrow> bool" where
  "later now r \<longleftrightarrow> (\<forall>t0. rt_last r = Some t0 \<longrightarrow> t0 \<le> now)"

lemma refill_inv:
  assumes "float_rounding rnd" and "rate_inv r" and "later now r"
  shows "rate_inv (refill rnd now r)" and "rt_burst (refill rnd now r) = rt_burst r"
proof -
  have "0 \<le> rnd (rt_tokens r + rnd (Seconds rnd (time_Sub now t0) * rt_perSec r))" if "rt_last r = Some t0" for t0
  proof -
    have "0 \<le> Seconds rnd (time_Sub now t0)"
      using that assms time_Sub_nonneg [of t0 now] by (intro Seconds_nonneg) (simp_all add: later_def)
    then show ?thesis using assms(2)
      by (intro rnd_nonneg [OF assms(1)] add_nonneg_nonneg mult_nonneg_nonneg) (simp_all add: rate_inv_def)
  qed
  then show "rate_inv (refill rnd now r)" and "rt_burst (refill rnd now r) = rt_burst r"
    using assms(2) by (auto simp: refill_def rate_inv_def Let_def split: option.splits)
qed

lemma rnd_burst: "float_rounding rnd \<Longrightarrow> rate_inv r \<Longrightarrow> rnd (rt_burst r) = rt_burst r"
  by (auto simp: float_rounding_def rate_inv_def)

lemma Rate_TryAcquire_inv:
  assumes "float_rounding rnd" and "rate_inv r" and "later now r"
  shows "rate_inv (snd (Rate_TryAcquire rnd now r))"
    and "rt_burst (snd (Rate_TryAcquire rnd now r)) = rt_burst r"
    and "rt_last (snd (Rate_TryAcquire rnd now r)) = Some now"
proof -
  let ?r = "refill rnd now r"
  have r: "rate_inv ?r" "rt_burst ?r = rt_burst r" using refill_inv [OF assms] .
  have "rnd (rt_tokens ?r - 1) \<le> rnd (rt_burst ?r)"
    using assms(1) r(1) by (intro monoD [of rnd]) (simp_all add: float_rounding_def rate_inv_def)
  then have "rnd (rt_tokens ?r - 1) \<le> rt_burst ?r" using rnd_burst [OF assms(1) r(1)] by simp
  then show "rate_inv (snd (Rate_TryAcquire rnd now r))"
    using r(1) rnd_nonneg [OF assms(1), of "rt_tokens ?r - 1"]
    by (auto simp: Rate_TryAcquire_def Let_def rate_inv_def)
  show "rt_burst (snd (Rate_TryAcquire rnd now r)) = rt_burst r"
    and "rt_last (snd (Rate_TryAcquire rnd now r)) = Some now"
    using r(2) by (simp_all add: Rate_TryAcquire_def Let_def)
qed

subsection \<open>A full bucket\<close>

text \<open>\<open>k\<close> whole tokens, refilled at \<open>t0\<close>.\<close>

definition whole_tokens :: "nat \<Rightarrow> int \<Rightarrow> rate \<Rightarrow> bool" where
  "whole_tokens k t0 r \<longleftrightarrow> rate_inv r \<and> rt_tokens r = of_nat k \<and> rt_last r \<in> {None, Some t0}"

lemma rnd_nat: "float_rounding rnd \<Longrightarrow> k \<le> 2 ^ 53 \<Longrightarrow> rnd (of_nat k) = of_nat k"
  unfolding float_rounding_def by (drule conjunct2, drule spec [of _ "int k"]) simp

lemma whole_tokens_le: "whole_tokens k t0 r \<Longrightarrow> k \<le> 2 ^ 53"
proof -
  assume "whole_tokens k t0 r"
  then obtain b :: int where "real k \<le> of_int b" "b \<le> 2 ^ 53" by (auto simp: whole_tokens_def rate_inv_def)
  then have "int k \<le> 2 ^ 53" by linarith
  then show ?thesis by simp
qed

lemma Seconds_0: "float_rounding rnd \<Longrightarrow> Seconds rnd 0 = 0"
  by (simp add: Seconds_def rnd_0)

lemma refill_same_instant:
  assumes "float_rounding rnd" and "whole_tokens k t0 r"
  shows "refill rnd t0 r = r"
proof -
  have "rnd (of_nat k) = of_nat k" using rnd_nat [OF assms(1) whole_tokens_le [OF assms(2)]] .
  then show ?thesis
    using assms by (auto simp: refill_def whole_tokens_def Seconds_0 rnd_0 time_Sub_def rate_inv_def)
qed

lemma Rate_TryAcquire_whole:
  assumes "float_rounding rnd" and "whole_tokens k t0 r"
  shows "fst (Rate_TryAcquire rnd t0 r) \<longleftrightarrow> 0 < k"
    and "whole_tokens (k - 1) t0 (snd (Rate_TryAcquire rnd t0 r))"
proof -
  have tok: "rt_tokens r = of_nat k" using assms(2) by (simp add: whole_tokens_def)
  show "fst (Rate_TryAcquire rnd t0 r) \<longleftrightarrow> 0 < k"
    by (cases k) (simp_all add: Rate_TryAcquire_def refill_same_instant [OF assms] Let_def tok)
  have "rt_tokens (snd (Rate_TryAcquire rnd t0 r)) = of_nat (k - 1)"
    using rnd_nat [OF assms(1), of "k - 1"] whole_tokens_le [OF assms(2)]
    by (cases k) (simp_all add: Rate_TryAcquire_def refill_same_instant [OF assms] Let_def tok)
  moreover have "later t0 r" using assms(2) by (auto simp: later_def whole_tokens_def)
  ultimately show "whole_tokens (k - 1) t0 (snd (Rate_TryAcquire rnd t0 r))"
    using Rate_TryAcquire_inv [OF assms(1), of r t0] assms(2) by (simp add: whole_tokens_def)
qed

lemma Rate_burst_run:
  assumes "float_rounding rnd" and "whole_tokens k t0 r"
  shows "fst (run_ops (Rate_TryAcquire rnd) (replicate n t0) r) =
    replicate (min k n) True @ replicate (n - k) False"
  using assms(2)
proof (induction n arbitrary: k r)
  case 0
  then show ?case by simp
next
  case (Suc n)
  from Suc.IH [OF Rate_TryAcquire_whole(2) [OF assms(1) Suc.prems]]
    Rate_TryAcquire_whole(1) [OF assms(1) Suc.prems]
  show ?case by (cases k) simp_all
qed

lemma NewRate_whole:
  assumes "float_rounding rnd" and "NewRate rnd perSec b = Ret r ()" and "sint b \<le> 2 ^ 53"
  shows "whole_tokens (nat (sint b)) t0 r"
proof -
  have b: "0 < sint b" using assms(2) by (auto simp: NewRate_def split: if_splits)
  then have "rnd (of_int (sint b)) = of_int (sint b)"
    using assms(1,3) unfolding float_rounding_def by (elim conjE allE [of _ "sint b"]) simp
  then show ?thesis using assms(2,3) b
    by (auto simp: NewRate_def whole_tokens_def rate_inv_def simp del: of_int_sint split: if_splits)
qed

subsection \<open>The long run\<close>

text \<open>In exact arithmetic, time \<open>d\<close> adds at most \<open>perSec * d\<close> tokens.\<close>

lemma Seconds_exact: "0 \<le> d \<Longrightarrow> Seconds (\<lambda>x. x) d = of_int d / 1000000000"
proof -
  assume "0 \<le> d"
  moreover have "real_of_int d = 1000000000 * of_int (d div 1000000000) + of_int (d mod 1000000000)"
    by (metis mult_div_mod_eq of_int_add of_int_mult of_int_numeral)
  ultimately show ?thesis by (simp add: Seconds_def sdiv_smod_nonneg)
qed

lemma float_rounding_exact: "float_rounding (\<lambda>x. x)"
  by (simp add: float_rounding_def mono_def)

lemma Rate_step_exact:
  assumes "rate_inv r" and "rt_last r = Some t0" and "t0 \<le> now"
  shows "rt_tokens (snd (Rate_TryAcquire (\<lambda>x. x) now r)) + (if fst (Rate_TryAcquire (\<lambda>x. x) now r) then 1 else 0)
    \<le> rt_tokens r + rt_perSec r * of_int (now - t0) / 1000000000"
proof -
  let ?d = "time_Sub now t0"
  have "0 \<le> ?d" "?d \<le> now - t0" using time_Sub_nonneg [OF assms(3)] by simp_all
  moreover have "real_of_int ?d * rt_perSec r \<le> of_int (now - t0) * rt_perSec r"
    using calculation assms(1) by (intro mult_right_mono) (simp_all add: rate_inv_def)
  ultimately have "Seconds (\<lambda>x. x) ?d * rt_perSec r \<le> rt_perSec r * of_int (now - t0) / 1000000000"
    by (simp add: Seconds_exact mult.commute divide_right_mono)
  then show ?thesis using assms(2) by (simp add: Rate_TryAcquire_def refill_def Let_def)
qed

lemma Rate_run_exact:
  assumes "rate_inv r" and "rt_last r = Some t0" and "sorted (t0 # ts)"
  shows "rt_tokens (snd (run_ops (Rate_TryAcquire (\<lambda>x. x)) ts r)) +
    length (filter id (fst (run_ops (Rate_TryAcquire (\<lambda>x. x)) ts r)))
    \<le> rt_tokens r + rt_perSec r * of_int (List.last (t0 # ts) - t0) / 1000000000 \<and>
    rate_inv (snd (run_ops (Rate_TryAcquire (\<lambda>x. x)) ts r))"
  using assms
proof (induction ts arbitrary: r t0)
  case Nil
  then show ?case by simp
next
  case (Cons t ts)
  let ?r = "snd (Rate_TryAcquire (\<lambda>x. x) t r)"
  have le: "t0 \<le> t" using Cons.prems(3) by simp
  then have inv: "rate_inv ?r" "rt_last ?r = Some t"
    using Rate_TryAcquire_inv [OF float_rounding_exact Cons.prems(1)] Cons.prems(2) by (simp_all add: later_def)
  have same: "rt_perSec ?r = rt_perSec r" by (simp add: Rate_TryAcquire_def refill_def Let_def split: option.splits)
  note Rate_step_exact [OF Cons.prems(1,2) le]
  moreover note Cons.IH [OF inv]
  ultimately show ?case using Cons.prems(3) same
    by (auto simp: field_simps)
qed

section \<open>Sequences of calls on several keys\<close>

fun perkey_step :: "'k \<times> lim_op \<Rightarrow> 'k perkey \<Rightarrow> bool \<times> 'k perkey" where
  "perkey_step (k, e) p = lim_step (PerKey_TryAcquire k) (PerKey_Release k) e p"

definition key_balance :: "'k \<Rightarrow> ('k \<times> lim_op) list \<Rightarrow> bool list \<Rightarrow> int" where
  "key_balance k es bs =
     (\<Sum>((k', e), ok) \<leftarrow> zip es bs. if k' = k \<and> ok then (if e = Acquire then 1 else - 1) else 0)"

interpretation perkey_runs: op_invariant perkey_step perkey_inv
  by unfold_locales (auto simp: perkey.step_keeps_inv)

lemma perkey_step_held:
  assumes "perkey_inv p"
  shows "int (perkey_held k (snd (perkey_step (k', e) p))) =
    int (perkey_held k p) + key_balance k [(k', e)] [fst (perkey_step (k', e) p)]"
  using assms perkey_other_key [of k' k p]
  by (cases e; cases "k' = k")
     (auto simp: key_balance_def perkey.try_counts perkey.release_counts perkey.release_panics)

lemma perkey_run_held:
  assumes "perkey_inv p"
  shows "int (perkey_held k (snd (run_ops perkey_step es p))) =
    int (perkey_held k p) + key_balance k es (fst (run_ops perkey_step es p))"
  using assms
proof (induction es arbitrary: p)
  case Nil
  then show ?case by (simp add: key_balance_def)
next
  case (Cons x es)
  obtain k' e where x: "x = (k', e)" by force
  from Cons.IH [OF perkey_runs.step_inv [OF Cons.prems, of x]] perkey_step_held [OF Cons.prems, of k k' e]
  show ?case unfolding x by (simp add: key_balance_def)
qed

lemma perkey_run_max: "pk_max (snd (run_ops perkey_step es p)) = pk_max p"
proof (induction es arbitrary: p)
  case (Cons x es)
  obtain k e where "x = (k, e)" by force
  then show ?case using Cons [of "snd (perkey_step x p)"] by (cases e) simp_all
qed simp

lemma NewPerKey_inv: "NewPerKey mx = Ret p () \<Longrightarrow> perkey_inv p \<and> pk_max p = mx \<and> perkey_held k p = 0"
  by (auto simp: NewPerKey_def perkey_inv_def perkey_held_def map_get_def split: if_splits)

lemma NewConcurrency_inv:
  "NewConcurrency mx = Ret c () \<Longrightarrow> concurrency_inv c \<and> c_max c = mx \<and> c_inUse c = 0"
  by (auto simp: NewConcurrency_def concurrency_inv_def split: if_splits)

lemma NewBudget_inv: "NewBudget mx = Ret b () \<Longrightarrow> budget_inv b \<and> b_max b = mx \<and> b_used b = 0"
  by (auto simp: NewBudget_def budget_inv_def split: if_splits)

section \<open>Properties\<close>

text \<open>
  C9: Any number of goroutines may race in \<open>Concurrency.TryAcquire\<close>, interleaved at every load
  and compare-and-swap by any schedule: at every instant the counter is the number of calls
  that returned true, and it never exceeds \<open>Max\<close>.
\<close>

theorem racing_TryAcquire_never_over_admits:
  assumes "NewConcurrency mx = Ret c ()"
  shows "sint (fst (cas_run (\<lambda>_. TryAcquire_body (c_max c)) sched (c_inUse c))) =
      int (card {i. snd (cas_run (\<lambda>_. TryAcquire_body (c_max c)) sched (c_inUse c)) i = CDone True}) \<and>
    card {i. snd (cas_run (\<lambda>_. TryAcquire_body (c_max c)) sched (c_inUse c)) i = CDone True}
      \<le> nat (sint (Concurrency_Max c))"
proof -
  let ?s = "cas_run (\<lambda>_. TryAcquire_body (c_max c)) sched (c_inUse c)"
  have c: "sint (c_inUse c) = 0" "0 < sint (c_max c)"
    using NewConcurrency_inv [OF assms] by (auto simp: concurrency_inv_def)
  obtain order where lin: "linearized (\<lambda>_. TryAcquire_body (c_max c)) (c_inUse c) order ?s"
    using conjunct2 [OF cas_run_linearized] by (rule exE)
  have "sint (fst ?s) = int (card {i. snd ?s i = CDone True})"
    using TryAcquire_run_counts [of "c_max c" order "c_inUse c"] linearized_count [OF lin, of True] lin c
    by (simp add: linearized_def filter_True_eq)
  moreover have "sint (fst ?s) \<le> sint (c_max c)"
    using conc_cas.interleaved_inv [of "c_inUse c" "c_max c" sched] c by simp
  ultimately show ?thesis by (simp add: Concurrency_Max_def)
qed

lemma NewConcurrency_2: "NewConcurrency 2 = Ret \<lparr>c_max = 2, c_inUse = 0\<rparr> ()"
  by (simp add: NewConcurrency_def)

theorem racing_TryAcquire_never_over_admits_witness:
  "sint (fst (cas_run (\<lambda>_. TryAcquire_body 2) [0, 1, 2, 0, 1, 1, 2, 1, 2] 0)) =
      int (card {i. snd (cas_run (\<lambda>_. TryAcquire_body 2) [0, 1, 2, 0, 1, 1, 2, 1, 2] 0) i = CDone True})"
  using racing_TryAcquire_never_over_admits [OF NewConcurrency_2, of "[0, 1, 2, 0, 1, 1, 2, 1, 2]"] by simp

text \<open>
  After any sequence of \<open>TryAcquire\<close> and \<open>Release\<close> calls on a new \<open>Concurrency\<close>,
  \<open>InUse\<close> is the number of permits handed out and not returned and lies between 0 and
  \<open>Max\<close>; the next \<open>TryAcquire\<close> succeeds exactly if fewer than \<open>Max\<close> are held, and the
  next \<open>Release\<close> panics exactly if none is.
\<close>

theorem concurrency_counts_holders:
  assumes "NewConcurrency mx = Ret c ()"
    and "run_ops (lim_step Concurrency_TryAcquire Concurrency_Release) es c = (oks, c')"
  shows "sint (Concurrency_InUse c') = int (succeeded Acquire es oks) - int (succeeded Give es oks) \<and>
    0 \<le> sint (Concurrency_InUse c') \<and> sint (Concurrency_InUse c') \<le> sint mx \<and> Concurrency_Max c' = mx \<and>
    (fst (Concurrency_TryAcquire c') \<longleftrightarrow> sint (Concurrency_InUse c') < sint mx) \<and>
    (panics (Concurrency_Release c') \<longleftrightarrow> sint (Concurrency_InUse c') = 0)"
proof -
  note c = NewConcurrency_inv [OF assms(1)]
  from conc.run_balance [of c es] c assms(2)
  have inv: "concurrency_inv c'" and cap: "nat (sint (c_max c')) = nat (sint mx)"
    and bal: "concurrency_held c' + succeeded Give es oks = succeeded Acquire es oks"
    by (simp_all add: concurrency_held_def)
  have "sint (c_max c') = sint mx" "0 < sint mx" using cap inv by (auto simp: concurrency_inv_def)
  moreover have "c_max c' = mx" using calculation(1) by (rule signed_word_eqI)
  ultimately show ?thesis
    using inv bal conc.try_admits [OF inv] conc.release_panics [OF inv]
    by (auto simp: concurrency_inv_def concurrency_held_def Concurrency_InUse_def Concurrency_Max_def)
qed

theorem concurrency_counts_holders_witness:
  "sint (Concurrency_InUse (snd (run_ops (lim_step Concurrency_TryAcquire Concurrency_Release)
     [Give, Acquire, Acquire, Acquire, Give] \<lparr>c_max = 2, c_inUse = 0\<rparr>))) = 1"
  using concurrency_counts_holders [OF NewConcurrency_2, of "[Give, Acquire, Acquire, Acquire, Give]"]
  by (simp add: Concurrency_TryAcquire_eq Concurrency_Release_eq Concurrency_InUse_def)

text \<open>
  C34: \<open>PerKey\<close> after any sequence of calls on any keys: \<open>InUse(k)\<close> is what \<open>k\<close>
  acquired minus what it released, at most \<open>Max\<close>, whatever other keys did; \<open>Keys\<close> is the
  number of keys that hold a slot, so a key that gave everything back costs no memory; a
  \<open>TryAcquire\<close> is refused only at \<open>Max\<close> and a \<open>Release\<close> panics only with no slot held.
\<close>

theorem perkey_isolates_keys:
  assumes "NewPerKey mx = Ret p ()" and "run_ops perkey_step es p = (oks, p')"
  shows "sint (PerKey_InUse k p') = key_balance k es oks \<and>
    0 \<le> key_balance k es oks \<and> key_balance k es oks \<le> sint mx \<and> PerKey_Max p' = mx \<and>
    PerKey_Keys p' = card {k. 0 < key_balance k es oks} \<and>
    (fst (PerKey_TryAcquire k p') \<longleftrightarrow> key_balance k es oks < sint mx) \<and>
    (panics (PerKey_Release k p') \<longleftrightarrow> key_balance k es oks = 0)"
proof -
  have inv: "perkey_inv p'" and mx: "pk_max p' = mx"
    using perkey_runs.run_inv [of p es] perkey_run_max [of es p] NewPerKey_inv [OF assms(1)] assms(2) by simp_all
  have held: "int (perkey_held k p') = key_balance k es oks" for k
    using perkey_run_held [of p k es] NewPerKey_inv [OF assms(1)] assms(2) by simp
  have pos: "0 < perkey_held k p' \<longleftrightarrow> 0 < key_balance k es oks" for k using held [of k] by linarith
  have "sint (PerKey_InUse k p') = key_balance k es oks"
    using held [of k] perkey_get(1) [OF inv, of k] by (simp add: PerKey_InUse_def perkey_held_def)
  moreover have "key_balance k es oks \<le> sint mx"
    using perkey_held_le [OF inv, of k] held [of k] mx inv by (auto simp: perkey_inv_def)
  ultimately show ?thesis
    using held [of k] perkey.try_admits [OF inv, of k] perkey.release_panics [OF inv, of k] PerKey_Keys_eq [OF inv] mx
    by (auto simp: pos PerKey_Max_def)
qed

lemma NewPerKey_1: "NewPerKey 1 = Ret \<lparr>pk_max = 1, pk_n = fmempty\<rparr> ()"
  by (simp add: NewPerKey_def)

theorem perkey_isolates_keys_witness:
  "fst (PerKey_TryAcquire True (snd (run_ops perkey_step
     [(False, Acquire), (False, Acquire), (True, Acquire), (True, Give)] \<lparr>pk_max = 1, pk_n = fmempty\<rparr>)))"
  using perkey_isolates_keys [OF NewPerKey_1, of "[(False, Acquire), (False, Acquire), (True, Acquire), (True, Give)]" _ _ True]
  by (simp add: PerKey_TryAcquire_def PerKey_Release_def map_get_def key_balance_def)


lemma NewBudget_max: "NewBudget (2 ^ 63 - 1) = Ret \<lparr>b_max = 2 ^ 63 - 1, b_used = 0\<rparr> ()"
  by (simp add: NewBudget_def)


text \<open>
  Goroutines racing in \<open>Budget.Reserve\<close> with amounts \<open>ns i\<close>, interleaved by any
  schedule: at every instant \<open>used\<close> is the sum of the amounts of the calls that returned
  true, and at most \<open>Max\<close>.
\<close>

theorem racing_Reserve_never_overcommits:
  assumes "NewBudget mx = Ret b ()"
  shows "0 \<le> sint (fst (cas_run (\<lambda>i. Reserve_call (b_max b) (ns i)) sched (b_used b))) \<and>
    sint (fst (cas_run (\<lambda>i. Reserve_call (b_max b) (ns i)) sched (b_used b))) \<le> sint mx \<and>
    sint (fst (cas_run (\<lambda>i. Reserve_call (b_max b) (ns i)) sched (b_used b))) =
      (\<Sum>i | snd (cas_run (\<lambda>i. Reserve_call (b_max b) (ns i)) sched (b_used b)) i = CDone True. sint (ns i))"
proof -
  let ?fs = "\<lambda>i. Reserve_call (b_max b) (ns i)"
  let ?s = "cas_run ?fs sched (b_used b)"
  have b: "b_used b = 0" "b_max b = mx" "0 < sint mx"
    using NewBudget_inv [OF assms] by (auto simp: budget_inv_def)
  obtain order where lin: "linearized ?fs (b_used b) order ?s"
    using conjunct2 [OF cas_run_linearized] by (rule exE)
  let ?rs = "fst (run_ops (\<lambda>i. cas_atomic (?fs i)) order (b_used b))"
  have "sint (fst ?s) = (\<Sum>(i, ok) \<leftarrow> zip order ?rs. if ok then sint (ns i) else 0)"
    using Reserve_run_sums [of "b_used b" "b_max b" ns order] lin b by (simp add: linearized_def)
  also have "\<dots> = (\<Sum>i \<leftarrow> order. if snd ?s i = CDone True then sint (ns i) else 0)"
    using lin by (auto simp: linearized_def length_run_ops intro!: arg_cong [where f = sum_list] nth_equalityI)
  also have "\<dots> = (\<Sum>i \<in> set order. if snd ?s i = CDone True then sint (ns i) else 0)"
    using lin by (simp add: linearized_def sum_list_distinct_conv_sum_set)
  also have "\<dots> = (\<Sum>i | snd ?s i = CDone True. sint (ns i))"
    using lin by (intro sum.mono_neutral_cong_right) (auto simp: linearized_def)
  finally show ?thesis using budget_cas.interleaved_inv [of "b_used b" "b_max b" ns sched] b by simp
qed

lemma NewBudget_10: "NewBudget 10 = Ret \<lparr>b_max = 10, b_used = 0\<rparr> ()"
  by (simp add: NewBudget_def)

theorem racing_Reserve_never_overcommits_witness:
  "sint (fst (cas_run (\<lambda>i. Reserve_call 10 ([6, 7] ! i)) [0, 1, 1, 0, 0] 0)) \<le> 10"
  using racing_Reserve_never_overcommits [OF NewBudget_10, of "\<lambda>i. [6, 7] ! i" "[0, 1, 1, 0, 0]"] by simp



text \<open>
  A new \<open>Rate\<close> admits exactly \<open>burst\<close> calls at one instant and refuses the rest, with
  \<open>float64\<close> rounding that is monotone and exact on integers up to \<open>2\<^sup>5\<^sup>3\<close>.
\<close>

theorem rate_admits_exactly_burst:
  assumes "float_rounding rnd" and "NewRate rnd perSec burst = Ret r ()" and "sint burst \<le> 2 ^ 53"
  shows "fst (run_ops (Rate_TryAcquire rnd) (replicate n now) r) =
    replicate (min (nat (sint burst)) n) True @ replicate (n - nat (sint burst)) False"
  by (rule Rate_burst_run [OF assms(1) NewRate_whole [OF assms]])

lemma NewRate_3: "NewRate (\<lambda>x. x) 100 3 =
    Ret \<lparr>rt_perSec = 100, rt_burst = 3, rt_tokens = 3, rt_last = None\<rparr> ()"
  by (simp add: NewRate_def)

theorem rate_admits_exactly_burst_witness:
  "fst (run_ops (Rate_TryAcquire (\<lambda>x. x)) (replicate 5 7)
     \<lparr>rt_perSec = 100, rt_burst = 3, rt_tokens = 3, rt_last = None\<rparr>) = [True, True, True, False, False]"
  using rate_admits_exactly_burst [OF float_rounding_exact NewRate_3, of 5 7]
  by (simp add: numeral_eq_Suc)



end
