(* ===== verification/Buf.thy ===== *)
theory Buf
  imports Limit
begin

text \<open>
  Package \<open>buf\<close> (\<open>src/buf/buf.go\<close>, \<open>debug.go\<close>, \<open>nodebug.go\<close>): pooled byte buffers with
  explicit ownership. A \<open>*Buf\<close> is an address in the pool's heap. The argument \<open>dbg\<close>
  selects the build: with \<open>netxdebug\<close> a second \<open>Release\<close> panics, released memory is
  poisoned and outstanding buffers are counted. The field \<open>bf_live\<close> is \<open>debugState.live\<close>;
  the release build does not have it, and the model of that build never reads it.
  \<open>sync.Pool\<close> may return any buffer put into it or make a new one: \<open>p_choice k\<close> is what
  it does at its \<open>k\<close>-th \<open>Get\<close>, so a statement about every pool is about every choice.

  The lemmas show that a size class is the least power of two that holds the request;
  that every live buffer has one owner; that the budget is charged exactly the capacity of
  the buffers that are out; and that the two builds agree on callers that keep the
  ownership rules.
\<close>

section \<open>Size classes\<close>

definition MinSize :: int where "MinSize = 64"
definition Small :: int where "Small = 2048"
definition Medium :: int where "Medium = 16384"
definition Large :: int where "Large = 65536"

abbreviation minShift :: int where "minShift \<equiv> 6"
abbreviation numClasses :: nat where "numClasses \<equiv> 11"

text \<open>\<open>bits.Len\<close>: the number of bits needed to represent \<open>n\<close>.\<close>

fun bits_Len :: "nat \<Rightarrow> nat" where
  "bits_Len n = (if n = 0 then 0 else bits_Len (n div 2) + 1)"

declare bits_Len.simps [simp del]

definition classOf :: "int \<Rightarrow> int" where
  "classOf n =
     (if n > Large then - 1
      else if n \<le> MinSize then 0
      else int (bits_Len (nat (n - 1))) - minShift)"

definition Capacity :: "int \<Rightarrow> int" where
  "Capacity n = (let c = classOf n in if c \<ge> 0 then MinSize * 2 ^ nat c else n)"

section \<open>Pool\<close>

record Buf =
  bf_B :: "nat option"
  bf_full :: "byte list"
  bf_class :: int
  bf_live :: bool

record pool =
  p_pools :: "nat list list"
  p_budget :: "budget option"
  p_heap :: "Buf list"
  p_outstanding :: i64
  p_choice :: "nat \<Rightarrow> nat option"
  p_gets :: nat

definition NewPool :: "(nat \<Rightarrow> nat option) \<Rightarrow> budget option \<Rightarrow> pool" where
  "NewPool choice b =
     \<lparr>p_pools = replicate numClasses [], p_budget = b, p_heap = [], p_outstanding = 0,
      p_choice = choice, p_gets = 0\<rparr>"

definition Poison :: byte where "Poison = 0xDB"

text \<open>The longest slice the runtime makes on a 64-bit system; \<open>make\<close> panics above it.\<close>

definition maxAlloc :: int where "maxAlloc = 2 ^ 48"

definition new_Buf :: "nat \<Rightarrow> int \<Rightarrow> Buf" where
  "new_Buf n cls = \<lparr>bf_B = None, bf_full = replicate n 0, bf_class = cls, bf_live = False\<rparr>"

definition remove_nth :: "nat \<Rightarrow> 'a list \<Rightarrow> 'a list" where
  "remove_nth i xs = take i xs @ drop (Suc i) xs"

text \<open>\<open>p.pools[class].Get()\<close>, with the \<open>New\<close> function that \<open>NewPool\<close> installs.\<close>

definition pools_Get :: "nat \<Rightarrow> pool \<Rightarrow> nat \<times> pool" where
  "pools_Get cls p =
     (let free = p_pools p ! cls; p1 = p\<lparr>p_gets := p_gets p + 1\<rparr>;
          new = (length (p_heap p), p1\<lparr>p_heap := p_heap p @ [new_Buf (64 * 2 ^ cls) (int cls)]\<rparr>)
      in case p_choice p (p_gets p) of
           None \<Rightarrow> new
         | Some i \<Rightarrow>
             (if i < length free then (free ! i, p1\<lparr>p_pools := (p_pools p)[cls := remove_nth i free]\<rparr>)
              else new))"

definition pools_Put :: "nat \<Rightarrow> nat \<Rightarrow> pool \<Rightarrow> pool" where
  "pools_Put cls a p = p\<lparr>p_pools := (p_pools p)[cls := a # p_pools p ! cls]\<rparr>"

definition upd_Buf :: "nat \<Rightarrow> (Buf \<Rightarrow> Buf) \<Rightarrow> pool \<Rightarrow> pool" where
  "upd_Buf a f p = p\<lparr>p_heap := (p_heap p)[a := f (p_heap p ! a)]\<rparr>"

definition onGet :: "bool \<Rightarrow> nat \<Rightarrow> pool \<Rightarrow> pool" where
  "onGet dbg a p =
     (let p1 = upd_Buf a (bf_live_update (\<lambda>_. True)) p
      in if dbg then p1\<lparr>p_outstanding := p_outstanding p1 + 1\<rparr> else p1)"

definition onRelease :: "bool \<Rightarrow> nat \<Rightarrow> pool \<Rightarrow> (unit, pool) res" where
  "onRelease dbg a p =
     (if dbg \<and> \<not> bf_live (p_heap p ! a)
      then Panic ''buf: Release of a buffer that is not owned (double Release?)'' p
      else (let p1 = upd_Buf a (bf_live_update (\<lambda>_. False)) p
            in if dbg then
                 Ret () (upd_Buf a (\<lambda>b. b\<lparr>bf_full := replicate (length (bf_full b)) Poison\<rparr>)
                   (p1\<lparr>p_outstanding := p_outstanding p1 - 1\<rparr>))
               else Ret () p1))"

definition Outstanding :: "bool \<Rightarrow> pool \<Rightarrow> i64" where
  "Outstanding dbg p = (if dbg then p_outstanding p else 0)"

text \<open>\<open>p.budget != nil && !p.budget.Reserve(n)\<close>.\<close>

definition pool_Reserve :: "int \<Rightarrow> pool \<Rightarrow> bool \<times> pool" where
  "pool_Reserve n p =
     (case p_budget p of
        None \<Rightarrow> (True, p)
      | Some b \<Rightarrow> (let (ok, b1) = Budget_Reserve (of_int n) b in (ok, p\<lparr>p_budget := Some b1\<rparr>)))"

definition Pool_Get :: "bool \<Rightarrow> int \<Rightarrow> pool \<Rightarrow> (nat option, pool) res" where
  "Pool_Get dbg n p =
     (if n < 0 then Panic ''buf: negative size'' p
      else
        (let cls = classOf n; capacity = (if cls \<ge> 0 then MinSize * 2 ^ nat cls else n);
             (ok, p1) = pool_Reserve capacity p
         in if \<not> ok then Ret None p1
            else if cls < 0 \<and> n > maxAlloc then Panic ''runtime error: makeslice: len out of range'' p1
            else
              (let (a, p2) = (if cls \<ge> 0 then pools_Get (nat cls) p1
                              else (length (p_heap p1), p1\<lparr>p_heap := p_heap p1 @ [new_Buf (nat n) (- 1)]\<rparr>))
               in Ret (Some a) (onGet dbg a (upd_Buf a (bf_B_update (\<lambda>_. Some (nat n))) p2)))))"

text \<open>Writing \<open>xs\<close> into \<open>b.B\<close> from index \<open>i\<close>, as \<open>copy(b.B[i:], xs)\<close> does.\<close>

definition copy_at :: "nat \<Rightarrow> 'a list \<Rightarrow> 'a list \<Rightarrow> 'a list" where
  "copy_at i xs ys = take i ys @ take (length ys - i) xs @ drop (i + length xs) ys"

definition Buf_B :: "Buf \<Rightarrow> byte list" where
  "Buf_B b = (case bf_B b of None \<Rightarrow> [] | Some n \<Rightarrow> take n (bf_full b))"

definition Buf_write :: "nat \<Rightarrow> byte list \<Rightarrow> Buf \<Rightarrow> Buf" where
  "Buf_write i xs b =
     b\<lparr>bf_full := copy_at 0 (copy_at i xs (Buf_B b)) (bf_full b)\<rparr>"

definition Pool_Copy :: "bool \<Rightarrow> byte list \<Rightarrow> pool \<Rightarrow> (nat option, pool) res" where
  "Pool_Copy dbg xs p =
     (case Pool_Get dbg (int (length xs)) p of
        Ret (Some a) p1 \<Rightarrow> Ret (Some a) (upd_Buf a (Buf_write 0 xs) p1)
      | r \<Rightarrow> r)"

definition pool_Release :: "int \<Rightarrow> pool \<Rightarrow> (unit, pool) res" where
  "pool_Release n p =
     (case p_budget p of
        None \<Rightarrow> Ret () p
      | Some b \<Rightarrow>
          (case Budget_Release (of_int n) b of
             Ret u b1 \<Rightarrow> Ret () (p\<lparr>p_budget := Some b1\<rparr>)
           | Panic m b1 \<Rightarrow> Panic m (p\<lparr>p_budget := Some b1\<rparr>)))"

definition Buf_Release :: "bool \<Rightarrow> nat option \<Rightarrow> pool \<Rightarrow> (unit, pool) res" where
  "Buf_Release dbg x p =
     (case x of
        None \<Rightarrow> Ret () p
      | Some a \<Rightarrow>
          (case onRelease dbg a p of
             Panic m p1 \<Rightarrow> Panic m p1
           | Ret u p1 \<Rightarrow>
               (case pool_Release (int (length (bf_full (p_heap p1 ! a)))) p1 of
                  Panic m p2 \<Rightarrow> Panic m p2
                | Ret u p2 \<Rightarrow>
                    (let p3 = upd_Buf a (bf_B_update (\<lambda>_. None)) p2; cls = bf_class (p_heap p3 ! a)
                     in Ret () (if cls \<ge> 0 then pools_Put (nat cls) a p3 else p3)))))"

section \<open>Size classes are tight\<close>

lemma bits_Len_bounds: "0 < n \<Longrightarrow> 2 ^ (bits_Len n - 1) \<le> n \<and> n < 2 ^ bits_Len n \<and> 0 < bits_Len n"
proof (induction n rule: bits_Len.induct)
  case (1 n)
  show ?case
  proof (cases "n div 2 = 0")
    case True
    then have "n = 1" using 1(2) by simp
    then show ?thesis by (simp add: bits_Len.simps [of "Suc 0"] bits_Len.simps [of 0])
  next
    case False
    from 1(1) [OF _ ] 1(2) False
    have "2 ^ (bits_Len (n div 2) - 1) \<le> n div 2" "n div 2 < 2 ^ bits_Len (n div 2)" "0 < bits_Len (n div 2)"
      by simp_all
    then show ?thesis using 1(2) bits_Len.simps [of n]
      by (cases "bits_Len (n div 2)") auto
  qed
qed

lemma bits_Len_leI: "n < 2 ^ k \<Longrightarrow> bits_Len n \<le> k"
proof (cases "n = 0")
  case False
  assume "n < 2 ^ k"
  then have "(2 :: nat) ^ (bits_Len n - 1) < 2 ^ k" using bits_Len_bounds [of n] False by linarith
  then show ?thesis using bits_Len_bounds [of n] False by simp
qed (simp add: bits_Len.simps)

lemma classOf_range: "0 \<le> n \<Longrightarrow> n \<le> Large \<Longrightarrow> 0 \<le> classOf n \<and> classOf n < int numClasses"
proof (cases "n \<le> MinSize")
  case False
  assume "n \<le> Large"
  then have "bits_Len (nat (n - 1)) \<le> 16" by (intro bits_Len_leI) (simp add: Large_def nat_less_iff)
  moreover have "6 < bits_Len (nat (n - 1))"
  proof (rule ccontr)
    assume "\<not> 6 < bits_Len (nat (n - 1))"
    then have le: "(2 :: nat) ^ bits_Len (nat (n - 1)) \<le> 2 ^ 6" by (intro power_increasing) simp_all
    have "0 < nat (n - 1)" using False by (simp add: MinSize_def)
    then have "nat (n - 1) < 2 ^ bits_Len (nat (n - 1))" using bits_Len_bounds by blast
    from less_le_trans [OF this le] have "nat (n - 1) < 64" by simp
    then show False using False by (simp add: MinSize_def)
  qed
  ultimately show ?thesis using False \<open>n \<le> Large\<close> by (simp add: classOf_def MinSize_def)
qed (simp add: classOf_def MinSize_def)

lemma classOf_neg: "classOf n < 0 \<longleftrightarrow> Large < n"
  using classOf_range [of n] by (cases "n \<le> Large"; cases "0 \<le> n") (auto simp: classOf_def MinSize_def)

lemma Capacity_class: "0 \<le> n \<Longrightarrow> n \<le> Large \<Longrightarrow> Capacity n = 64 * 2 ^ nat (classOf n)"
  using classOf_range [of n] by (simp add: Capacity_def MinSize_def)

lemma Capacity_above: "MinSize < n \<Longrightarrow> n \<le> Large \<Longrightarrow> Capacity n = 2 ^ bits_Len (nat (n - 1))"
proof -
  assume n: "MinSize < n" "n \<le> Large"
  let ?k = "bits_Len (nat (n - 1))"
  have "0 \<le> classOf n" using n classOf_range [of n] by (simp add: MinSize_def)
  moreover have "classOf n = int ?k - 6" using n by (simp add: classOf_def)
  ultimately have "Capacity n = 2 ^ 6 * 2 ^ (?k - 6)" "6 \<le> ?k" by (simp_all add: Capacity_def MinSize_def nat_diff_distrib')
  then show ?thesis using power_add [of "2 :: int" 6 "?k - 6"] by simp
qed

lemma Capacity_holds: "n \<le> Capacity n"
proof (cases "MinSize < n \<and> n \<le> Large")
  case True
  then have "nat (n - 1) < 2 ^ bits_Len (nat (n - 1))"
    using bits_Len_bounds [of "nat (n - 1)"] by (simp add: MinSize_def)
  then have "n - 1 < 2 ^ bits_Len (nat (n - 1))" using True by (simp add: MinSize_def nat_less_iff)
  then show ?thesis using True by (simp add: Capacity_above)
qed (auto simp: Capacity_def classOf_def MinSize_def Let_def)

lemma Capacity_least:
  assumes "n \<le> Large" and "n \<le> 64 * 2 ^ c"
  shows "Capacity n \<le> 64 * 2 ^ c"
proof (cases "n \<le> MinSize")
  case True
  have "(1 :: int) \<le> 2 ^ c" by simp
  then show ?thesis using True by (simp add: Capacity_def classOf_def MinSize_def Large_def)
next
  case False
  have "n - 1 < 2 ^ (6 + c)" using assms(2) by (simp add: power_add)
  then have "bits_Len (nat (n - 1)) \<le> 6 + c" using False by (intro bits_Len_leI) (simp add: nat_less_iff MinSize_def)
  then have "(2 :: int) ^ bits_Len (nat (n - 1)) \<le> 2 ^ (6 + c)" by (intro power_increasing) simp_all
  then show ?thesis using False assms(1) by (simp add: Capacity_above power_add)
qed

lemma Capacity_tight:
  assumes "MinSize < n" and "n \<le> Large"
  shows "Capacity n < 2 * n"
proof -
  let ?k = "bits_Len (nat (n - 1))"
  have "2 ^ (?k - 1) \<le> nat (n - 1)" "0 < ?k" using bits_Len_bounds [of "nat (n - 1)"] assms(1) by (simp_all add: MinSize_def)
  then have "2 ^ (?k - 1) \<le> n - 1" "2 ^ ?k = (2 :: int) * 2 ^ (?k - 1)"
    using assms(1) by (simp_all add: MinSize_def le_nat_iff flip: power_Suc)
  then show ?thesis using assms by (simp add: Capacity_above)
qed

section \<open>The pool's invariant\<close>

definition live_addrs :: "pool \<Rightarrow> nat set" where
  "live_addrs p = {a. a < length (p_heap p) \<and> bf_live (p_heap p ! a)}"

definition buf_cap :: "pool \<Rightarrow> nat \<Rightarrow> nat" where
  "buf_cap p a = length (bf_full (p_heap p ! a))"

definition live_bytes :: "pool \<Rightarrow> int" where
  "live_bytes p = (\<Sum>a \<in> live_addrs p. int (buf_cap p a))"

definition class_ok :: "Buf \<Rightarrow> bool" where
  "class_ok b \<longleftrightarrow>
     (if bf_class b < 0 then bf_class b = - 1
      else bf_class b < int numClasses \<and> length (bf_full b) = 64 * 2 ^ nat (bf_class b)) \<and>
     int (length (bf_full b)) \<le> maxAlloc"

definition free_ok :: "pool \<Rightarrow> nat \<Rightarrow> nat \<Rightarrow> bool" where
  "free_ok p c a \<longleftrightarrow> a < length (p_heap p) \<and> \<not> bf_live (p_heap p ! a) \<and> bf_class (p_heap p ! a) = int c"

definition pool_wf :: "pool \<Rightarrow> bool" where
  "pool_wf p \<longleftrightarrow>
     length (p_pools p) = numClasses \<and> (\<forall>b \<in> set (p_heap p). class_ok b) \<and>
     (\<forall>c < numClasses. distinct (p_pools p ! c) \<and> (\<forall>a \<in> set (p_pools p ! c). free_ok p c a)) \<and>
     (\<forall>a \<in> live_addrs p. \<exists>n \<le> buf_cap p a. bf_B (p_heap p ! a) = Some n)"

text \<open>\<open>base\<close> is what other users of the budget have reserved.\<close>

definition charged :: "int \<Rightarrow> pool \<Rightarrow> bool" where
  "charged base p \<longleftrightarrow>
     (case p_budget p of None \<Rightarrow> True | Some b \<Rightarrow> budget_inv b \<and> sint (b_used b) = base + live_bytes p)"

definition pool_inv :: "bool \<Rightarrow> int \<Rightarrow> pool \<Rightarrow> bool" where
  "pool_inv dbg base p \<longleftrightarrow> pool_wf p \<and> 0 \<le> base \<and> charged base p \<and>
     (dbg \<longrightarrow> p_outstanding p = of_nat (card (live_addrs p)))"

text \<open>A buffer that is neither live nor in the pool, as it is between the two halves of
  \<open>Get\<close> and of \<open>Release\<close>.\<close>

definition in_transit :: "nat \<Rightarrow> pool \<Rightarrow> bool" where
  "in_transit a p \<longleftrightarrow> pool_wf p \<and> a < length (p_heap p) \<and> a \<notin> live_addrs p \<and>
     (\<forall>c < numClasses. a \<notin> set (p_pools p ! c))"

lemma upd_Buf_sel [simp]:
  "p_pools (upd_Buf a f p) = p_pools p" "p_budget (upd_Buf a f p) = p_budget p"
  "p_outstanding (upd_Buf a f p) = p_outstanding p" "length (p_heap (upd_Buf a f p)) = length (p_heap p)"
  "p_heap (upd_Buf a f p) = (p_heap p)[a := f (p_heap p ! a)]"
  by (simp_all add: upd_Buf_def)

lemma set_remove_nth: "i < length xs \<Longrightarrow> distinct xs \<Longrightarrow>
    distinct (remove_nth i xs) \<and> set (remove_nth i xs) = set xs - {xs ! i}"
  by (subst (asm) id_take_nth_drop [of i xs], simp, subst (2 3) id_take_nth_drop [of i xs], simp)
     (auto simp: remove_nth_def)

lemma pool_wf_free: "pool_wf p \<Longrightarrow> c < numClasses \<Longrightarrow> a \<in> set (p_pools p ! c) \<Longrightarrow> free_ok p c a"
  by (simp add: pool_wf_def)

lemma free_ok_budget [simp]:
  "free_ok (p\<lparr>p_budget := b\<rparr>) = free_ok p" "live_addrs (p\<lparr>p_budget := b\<rparr>) = live_addrs p"
  "buf_cap (p\<lparr>p_budget := b\<rparr>) = buf_cap p" "pool_wf (p\<lparr>p_budget := b\<rparr>) = pool_wf p"
  "live_bytes (p\<lparr>p_budget := b\<rparr>) = live_bytes p"
  by (simp_all add: free_ok_def live_addrs_def buf_cap_def pool_wf_def live_bytes_def fun_eq_iff)

lemma finite_live [simp]: "finite (live_addrs p)"
  by (simp add: live_addrs_def)

lemma live_new [simp]: "live_addrs (p\<lparr>p_heap := p_heap p @ [new_Buf k c]\<rparr>) = live_addrs p"
  by (auto simp: live_addrs_def nth_append new_Buf_def less_Suc_eq)

lemma new_in_transit:
  assumes "pool_wf p" and "class_ok (new_Buf k c)"
  shows "in_transit (length (p_heap p)) (p\<lparr>p_heap := p_heap p @ [new_Buf k c]\<rparr>)"
  using assms unfolding in_transit_def pool_wf_def live_new
  by (auto simp: free_ok_def nth_append buf_cap_def live_addrs_def intro: less_SucI)

lemma reuse_in_transit:
  assumes "pool_wf p" and "cls < numClasses" and "i < length (p_pools p ! cls)"
  shows "in_transit (p_pools p ! cls ! i) (p\<lparr>p_pools := (p_pools p)[cls := remove_nth i (p_pools p ! cls)]\<rparr>)"
proof -
  let ?free = "p_pools p ! cls" and ?p = "p\<lparr>p_pools := (p_pools p)[cls := remove_nth i (p_pools p ! cls)]\<rparr>"
  have ok: "free_ok p cls (?free ! i)" using assms by (intro pool_wf_free) simp_all
  have other: "?free ! i \<notin> set (p_pools p ! c)" if "c < numClasses" "c \<noteq> cls" for c
    using ok pool_wf_free [OF assms(1) that(1)] that(2) by (auto simp: free_ok_def)
  have sel: "free_ok ?p = free_ok p" "live_addrs ?p = live_addrs p" "buf_cap ?p = buf_cap p"
    by (simp_all add: free_ok_def live_addrs_def buf_cap_def fun_eq_iff)
  have len: "length (p_pools p) = numClasses" and d: "distinct ?free" using assms(1,2) by (simp_all add: pool_wf_def)
  have sub: "distinct (p_pools ?p ! c) \<and> set (p_pools ?p ! c) \<subseteq> set (p_pools p ! c) \<and> ?free ! i \<notin> set (p_pools ?p ! c)"
    if "c < numClasses" for c
  proof (cases "c = cls")
    case True
    then show ?thesis using set_remove_nth [OF assms(3) d] that len by simp
  next
    case False
    then show ?thesis using assms(1) that other by (simp add: pool_wf_def)
  qed
  have "pool_wf ?p"
    using assms(1) sub unfolding pool_wf_def sel by simp blast
  then show ?thesis using sub ok by (simp add: in_transit_def sel) (simp add: free_ok_def live_addrs_def)
qed

lemma pools_Get_transit:
  assumes "pool_wf p" and "cls < numClasses" and "pools_Get cls p = (a, p')"
  shows "in_transit a p'" and "live_addrs p' = live_addrs p" and "bf_class (p_heap p' ! a) = int cls"
    and "p_budget p' = p_budget p" and "p_outstanding p' = p_outstanding p"
    and "\<exists>bs. p_heap p' = p_heap p @ bs"
proof -
  let ?free = "p_pools p ! cls" and ?p1 = "p\<lparr>p_gets := p_gets p + 1\<rparr>"
  let ?new = "?p1\<lparr>p_heap := p_heap p @ [new_Buf (64 * 2 ^ cls) (int cls)]\<rparr>"
  have wf1: "pool_wf ?p1" "live_addrs ?p1 = live_addrs p"
    using assms(1) by (simp_all add: pool_wf_def free_ok_def live_addrs_def buf_cap_def)
  have "(2 :: int) ^ cls \<le> 2 ^ 10" using assms(2) by (intro power_increasing) simp_all
  then have "class_ok (new_Buf (64 * 2 ^ cls) (int cls))"
    using assms(2) by (simp add: class_ok_def new_Buf_def maxAlloc_def)
  note new = new_in_transit [OF wf1(1) this] and reuse = reuse_in_transit [OF wf1(1) assms(2)]
  consider (new) "a = length (p_heap p)" "p' = ?new"
    | (reuse) i where "i < length ?free" "a = ?free ! i" "p' = ?p1\<lparr>p_pools := (p_pools p)[cls := remove_nth i ?free]\<rparr>"
    using assms(3) by (auto simp: pools_Get_def Let_def split: option.splits if_splits)
  then have "in_transit a p' \<and> live_addrs p' = live_addrs p \<and> bf_class (p_heap p' ! a) = int cls \<and>
    p_budget p' = p_budget p \<and> p_outstanding p' = p_outstanding p \<and> (\<exists>bs. p_heap p' = p_heap p @ bs)"
  proof cases
    case new': new
    then show ?thesis using new live_new [of ?p1] wf1(2) by (simp add: new_Buf_def)
  next
    case r: (reuse i)
    have "free_ok p cls a" using assms(1,2) r(1,2) by (intro pool_wf_free) simp_all
    then show ?thesis using r reuse [of i] by (simp add: free_ok_def live_addrs_def)
  qed
  then show "in_transit a p'" and "live_addrs p' = live_addrs p" and "bf_class (p_heap p' ! a) = int cls"
    and "p_budget p' = p_budget p" and "p_outstanding p' = p_outstanding p"
    and "\<exists>bs. p_heap p' = p_heap p @ bs" by simp_all
qed

lemma class_ok_upd [simp]:
  "class_ok (bf_B_update f b) = class_ok b" "class_ok (bf_live_update g b) = class_ok b"
  by (simp_all add: class_ok_def)

text \<open>Handing out a buffer in transit.\<close>

lemma onGet_live:
  assumes "in_transit a p" and "n \<le> buf_cap p a"
    and p'_def: "p' = onGet dbg a (upd_Buf a (bf_B_update (\<lambda>_. Some n)) p)"
  shows "pool_wf p'" and "live_addrs p' = insert a (live_addrs p)" and "buf_cap p' = buf_cap p"
    and "bf_B (p_heap p' ! a) = Some n" and "p_budget p' = p_budget p"
    and "p_outstanding p' = (if dbg then p_outstanding p + 1 else p_outstanding p)"
    and "\<And>x. x \<noteq> a \<Longrightarrow> p_heap p' ! x = p_heap p ! x" and "length (p_heap p') = length (p_heap p)"
proof -
  have a: "a < length (p_heap p)" using assms(1) by (simp add: in_transit_def)
  have heap: "p_heap p' = (p_heap p)[a := (p_heap p ! a)\<lparr>bf_B := Some n, bf_live := True\<rparr>]"
    using a by (simp add: p'_def onGet_def Let_def)
  have pools: "p_pools p' = p_pools p" by (simp add: p'_def onGet_def Let_def)
  show live: "live_addrs p' = insert a (live_addrs p)"
    using a by (auto simp: live_addrs_def heap nth_list_update)
  show cap: "buf_cap p' = buf_cap p" using a by (auto simp: buf_cap_def heap nth_list_update fun_eq_iff)
  show "bf_B (p_heap p' ! a) = Some n" "\<And>x. x \<noteq> a \<Longrightarrow> p_heap p' ! x = p_heap p ! x"
    "length (p_heap p') = length (p_heap p)" using a by (simp_all add: heap)
  show "p_budget p' = p_budget p" "p_outstanding p' = (if dbg then p_outstanding p + 1 else p_outstanding p)"
    by (simp_all add: p'_def onGet_def Let_def)
  have "\<forall>b \<in> set (p_heap p'). class_ok b"
    using assms(1) a unfolding heap by (auto simp: in_transit_def pool_wf_def dest!: set_update_subset_insert [THEN subsetD])
  moreover have "\<forall>x \<in> live_addrs p'. \<exists>n \<le> buf_cap p' x. bf_B (p_heap p' ! x) = Some n"
    using assms(1,2) a unfolding live cap by (auto simp: heap nth_list_update in_transit_def pool_wf_def)
  moreover have "\<forall>c < numClasses. \<forall>x \<in> set (p_pools p ! c). free_ok p' c x"
    using assms(1) by (auto simp: in_transit_def pool_wf_def free_ok_def heap nth_list_update)
  ultimately show "pool_wf p'" using assms(1) by (auto simp: in_transit_def pool_wf_def pools)
qed

section \<open>Get\<close>

lemma pool_Reserve_result:
  assumes "charged base p" and "0 \<le> n" and "n < 2 ^ 63"
  obtains (refused) b where "pool_Reserve n p = (False, p)" "p_budget p = Some b" "sint (b_max b) < sint (b_used b) + n"
  | (fits) ob where "pool_Reserve n p = (True, p\<lparr>p_budget := ob\<rparr>)"
      "\<And>q. live_bytes q = live_bytes p + n \<Longrightarrow> p_budget q = ob \<Longrightarrow> charged base q"
      "\<And>b. p_budget p = Some b \<Longrightarrow> sint (b_used b) + n \<le> sint (b_max b)"
proof (cases "p_budget p")
  case None
  then show thesis by (intro fits [of None]) (simp_all add: pool_Reserve_def charged_def)
next
  case (Some b)
  have n: "sint (of_int n :: i64) = n" using assms(2,3) by (intro sint64_of_int) simp_all
  have b: "budget_inv b" "sint (b_used b) = base + live_bytes p" using assms(1) Some by (simp_all add: charged_def)
  note eq = Budget_Reserve_eq [OF b(1), of "of_int n", unfolded n]
  show thesis
  proof (cases "sint (b_max b) < sint (b_used b) + n")
    case True
    then show thesis using Some eq(1) by (intro refused [of b]) (simp_all add: pool_Reserve_def)
  next
    case False
    then have ok: "Budget_Reserve (of_int n) b = (True, b\<lparr>b_used := b_used b + of_int n\<rparr>)" using eq(1) assms(2) by simp
    moreover have "budget_inv (b\<lparr>b_used := b_used b + of_int n\<rparr>)" "sint (b_used b + of_int n) = sint (b_used b) + n"
      using Budget_Reserve_inv [OF b(1), of "of_int n"] eq(2) ok by simp_all
    ultimately show thesis
      using Some False b(2)
      by (intro fits [of "Some (b\<lparr>b_used := b_used b + of_int n\<rparr>)"]) (auto simp: pool_Reserve_def charged_def)
  qed
qed

text \<open>The buffer \<open>Get\<close> takes, once the budget is charged.\<close>

lemma take_Buf:
  assumes "pool_wf p" and "0 \<le> n" and "n \<le> maxAlloc"
    and "(if classOf n \<ge> 0 then pools_Get (nat (classOf n)) p
          else (length (p_heap p), p\<lparr>p_heap := p_heap p @ [new_Buf (nat n) (- 1)]\<rparr>)) = (a, p')"
  shows "in_transit a p' \<and> live_addrs p' = live_addrs p \<and> buf_cap p' a = nat (Capacity n) \<and>
    p_budget p' = p_budget p \<and> p_outstanding p' = p_outstanding p \<and> (\<exists>bs. p_heap p' = p_heap p @ bs)"
proof (cases "classOf n \<ge> 0")
  case True
  then have "\<not> Large < n" using classOf_neg [of n] by linarith
  then have le: "n \<le> Large" by simp
  then have c: "nat (classOf n) < numClasses" using classOf_range [OF assms(2)] by (simp add: nat_less_iff)
  note g = pools_Get_transit [OF assms(1) c, of a p']
  have got: "pools_Get (nat (classOf n)) p = (a, p')" using assms(4) True by simp
  have "class_ok (p_heap p' ! a)" using g(1) [OF got] by (simp add: in_transit_def pool_wf_def)
  then have "buf_cap p' a = 64 * 2 ^ nat (classOf n)" using g(3) [OF got] True by (simp add: class_ok_def buf_cap_def)
  then show ?thesis using g [OF got] Capacity_class [OF assms(2) le] by (simp add: nat_mult_distrib nat_power_eq)
next
  case False
  moreover have "Capacity n = n" using False by (simp add: Capacity_def Let_def)
  moreover have "class_ok (new_Buf (nat n) (- 1))" using assms(2,3) by (simp add: class_ok_def new_Buf_def)
  ultimately show ?thesis using assms(4) new_in_transit [OF assms(1)] live_new [of p]
    by (auto simp: buf_cap_def new_Buf_def)
qed

lemma live_bytes_insert:
  assumes "live_addrs q = insert a (live_addrs p)" and "a \<notin> live_addrs p"
    and "\<And>x. x \<in> live_addrs p \<Longrightarrow> buf_cap q x = buf_cap p x"
  shows "live_bytes q = live_bytes p + int (buf_cap q a)"
  using assms by (simp add: live_bytes_def)

lemma Capacity_bounds: "0 \<le> n \<Longrightarrow> n \<le> maxAlloc \<Longrightarrow> 0 \<le> Capacity n \<and> Capacity n \<le> maxAlloc"
  using Capacity_holds [of n] Capacity_least [of n 10] by (cases "n \<le> Large") (auto simp: maxAlloc_def Large_def Capacity_def classOf_def)

lemma Pool_Get_result:
  assumes inv: "pool_inv dbg base p" and n: "0 \<le> n" "n \<le> maxAlloc"
  obtains (refused) b where "Pool_Get dbg n p = Ret None p" "p_budget p = Some b"
      "sint (b_max b) < sint (b_used b) + Capacity n"
  | (got) a p' where "Pool_Get dbg n p = Ret (Some a) p'" "pool_inv dbg base p'" "a \<notin> live_addrs p"
      "live_addrs p' = insert a (live_addrs p)" "buf_cap p' a = nat (Capacity n)"
      "bf_B (p_heap p' ! a) = Some (nat n)" "\<forall>x \<in> live_addrs p. p_heap p' ! x = p_heap p ! x"
      "\<And>b. p_budget p = Some b \<Longrightarrow> sint (b_used b) + Capacity n \<le> sint (b_max b)"
proof -
  have wf: "pool_wf p" and ch: "charged base p" using inv by (simp_all add: pool_inv_def)
  have cap: "0 \<le> Capacity n" "Capacity n < 2 ^ 63" using Capacity_bounds [OF n] by (auto simp: maxAlloc_def)
  have code: "(if classOf n \<ge> 0 then MinSize * 2 ^ nat (classOf n) else n) = Capacity n"
    by (simp add: Capacity_def Let_def)
  from ch cap show thesis
  proof (cases rule: pool_Reserve_result)
    case (refused b)
    then show thesis using n that(1) by (simp add: Pool_Get_def Let_def code)
  next
    case (fits ob)
    let ?p1 = "p\<lparr>p_budget := ob\<rparr>"
    obtain a p2 where tk: "(if classOf n \<ge> 0 then pools_Get (nat (classOf n)) ?p1
        else (length (p_heap ?p1), ?p1\<lparr>p_heap := p_heap ?p1 @ [new_Buf (nat n) (- 1)]\<rparr>)) = (a, p2)"
      by (cases "if classOf n \<ge> 0 then pools_Get (nat (classOf n)) ?p1
        else (length (p_heap ?p1), ?p1\<lparr>p_heap := p_heap ?p1 @ [new_Buf (nat n) (- 1)]\<rparr>)")
    define p' where "p' = onGet dbg a (upd_Buf a (bf_B_update (\<lambda>_. Some (nat n))) p2)"
    have t2: "in_transit a p2" "live_addrs p2 = live_addrs p" "buf_cap p2 a = nat (Capacity n)"
      "p_budget p2 = ob" "p_outstanding p2 = p_outstanding p" "\<exists>bs. p_heap p2 = p_heap p @ bs"
      using take_Buf [OF _ n tk] wf by simp_all
    have len: "nat n \<le> buf_cap p2 a" using t2(3) Capacity_holds [of n] by (simp add: nat_mono)
    note on = onGet_live [OF t2(1) len p'_def]
    have a: "a \<notin> live_addrs p" using t2(1,2) by (simp add: in_transit_def)
    have live: "live_addrs p' = insert a (live_addrs p)" using on(2) t2(2) by simp
    have same: "p_heap p' ! x = p_heap p ! x" if "x \<in> live_addrs p" for x
    proof -
      have "x \<noteq> a" "x < length (p_heap p)" using that a by (auto simp: live_addrs_def)
      then show ?thesis using on(7) [of x] t2(6) by (auto simp: nth_append)
    qed
    have caps: "buf_cap p' x = buf_cap p x" if "x \<in> live_addrs p" for x using same [OF that] by (simp add: buf_cap_def)
    have "live_bytes p' = live_bytes p + Capacity n"
      using live_bytes_insert [OF live a caps] on(3) t2(3) cap(1) by simp
    then have "charged base p'" using fits(2) on(5) t2(4) by simp
    moreover have "dbg \<longrightarrow> p_outstanding p' = of_nat (card (live_addrs p'))"
      using inv on(6) t2(5) live a by (simp add: pool_inv_def)
    ultimately have "pool_inv dbg base p'" using inv on(1) by (simp add: pool_inv_def)
    moreover have "Pool_Get dbg n p = Ret (Some a) p'"
      using n tk fits(1) by (simp add: Pool_Get_def Let_def code p'_def)
    ultimately show thesis using that(2) a live on(3,4) t2(3) same fits(3) by simp
  qed
qed

section \<open>Release\<close>

text \<open>The heap after \<open>Release\<close>: only the released buffer changed, and it keeps its capacity and class.\<close>

definition released :: "nat \<Rightarrow> pool \<Rightarrow> pool \<Rightarrow> bool" where
  "released a p p' \<longleftrightarrow> p_pools p' = p_pools p \<and> length (p_heap p') = length (p_heap p) \<and>
     (\<forall>x. x \<noteq> a \<longrightarrow> p_heap p' ! x = p_heap p ! x) \<and> \<not> bf_live (p_heap p' ! a) \<and>
     bf_class (p_heap p' ! a) = bf_class (p_heap p ! a) \<and> buf_cap p' a = buf_cap p a"

lemma released_props:
  assumes "pool_wf p" and "a \<in> live_addrs p" and "released a p p'"
  shows "in_transit a p'" and "live_addrs p' = live_addrs p - {a}" and "live_bytes p' = live_bytes p - int (buf_cap p a)"
proof -
  have a: "a < length (p_heap p)" using assms(2) by (simp add: live_addrs_def)
  note r = assms(3) [unfolded released_def]
  have same: "x \<noteq> a \<Longrightarrow> p_heap p' ! x = p_heap p ! x" for x using r by blast
  show live: "live_addrs p' = live_addrs p - {a}"
    using r by (auto simp: live_addrs_def)
  have cap: "buf_cap p' x = buf_cap p x" for x using r same by (cases "x = a") (simp_all add: buf_cap_def)
  show "live_bytes p' = live_bytes p - int (buf_cap p a)"
    using assms(2) by (simp add: live_bytes_def live cap sum_diff1)
  have "class_ok (p_heap p' ! x)" if "x < length (p_heap p')" for x
    using that r assms(1) cap [of a] a
    by (cases "x = a") (auto simp: pool_wf_def class_ok_def buf_cap_def all_set_conv_all_nth)
  then have ok: "\<forall>b \<in> set (p_heap p'). class_ok b" by (simp add: all_set_conv_all_nth)
  have nf: "x \<noteq> a" if "c < numClasses" "x \<in> set (p_pools p ! c)" for c x
    using pool_wf_free [OF assms(1) that] assms(2) by (auto simp: free_ok_def live_addrs_def)
  then have "free_ok p' c x" if "c < numClasses" "x \<in> set (p_pools p ! c)" for c x
    using pool_wf_free [OF assms(1) that] that r by (simp add: free_ok_def)
  then have "pool_wf p'" using assms(1) ok r live cap by (simp add: pool_wf_def)
  then show "in_transit a p'" using nf r live a by (auto simp: in_transit_def)
qed

lemma pools_Put_wf:
  assumes "in_transit a p" and "bf_class (p_heap p ! a) = int c" and "c < numClasses"
  shows "pool_wf (pools_Put c a p)"
proof -
  let ?p = "pools_Put c a p"
  have sel: "p_heap ?p = p_heap p" "free_ok ?p = free_ok p" "live_addrs ?p = live_addrs p" "buf_cap ?p = buf_cap p"
    by (simp_all add: pools_Put_def free_ok_def live_addrs_def buf_cap_def fun_eq_iff)
  have wf: "pool_wf p" using assms(1) by (simp add: in_transit_def)
  have "free_ok p c a" using assms(1,2) by (auto simp: in_transit_def free_ok_def live_addrs_def)
  then have "distinct (p_pools ?p ! k) \<and> (\<forall>x \<in> set (p_pools ?p ! k). free_ok p k x)" if "k < numClasses" for k
    using wf assms(1,3) that by (cases "k = c") (simp_all add: pools_Put_def pool_wf_def in_transit_def)
  then show ?thesis using wf unfolding pool_wf_def sel by (simp add: pools_Put_def)
qed

lemma onRelease_result:
  assumes "a < length (p_heap p)" and "dbg \<Longrightarrow> bf_live (p_heap p ! a)"
  shows "\<exists>p1. onRelease dbg a p = Ret () p1 \<and> released a p p1 \<and> p_budget p1 = p_budget p \<and>
    p_outstanding p1 = (if dbg then p_outstanding p - 1 else p_outstanding p)"
  using assms by (cases dbg) (simp_all add: onRelease_def released_def buf_cap_def Let_def)

lemma pool_Release_result:
  assumes "charged base p" and "0 \<le> base" and "0 \<le> n" and "n \<le> live_bytes p"
  obtains ob where "\<And>q. p_budget q = p_budget p \<Longrightarrow> pool_Release n q = Ret () (q\<lparr>p_budget := ob\<rparr>)"
    "\<And>q. live_bytes q = live_bytes p - n \<Longrightarrow> p_budget q = ob \<Longrightarrow> charged base q"
proof (cases "p_budget p")
  case None
  then show thesis by (intro that [of None]) (simp_all add: pool_Release_def charged_def)
next
  case (Some b)
  have b: "budget_inv b" "sint (b_used b) = base + live_bytes p" using assms(1) Some by (simp_all add: charged_def)
  then have n: "sint (of_int n :: i64) = n"
    using assms(2-4) sint64_bounds [of "b_used b"] by (intro sint64_of_int) linarith+
  note eq = Budget_Release_eq [OF b(1), of "of_int n", unfolded n]
  have r: "Budget_Release (of_int n) b = Ret () (b\<lparr>b_used := b_used b - of_int n\<rparr>)" using eq(1) b(2) assms(2-4) by simp
  moreover have "budget_inv (b\<lparr>b_used := b_used b - of_int n\<rparr>)" using Budget_Release_inv [OF b(1), of "of_int n"] r by simp
  ultimately show thesis using Some b(2) eq(2) assms(3)
    by (intro that [of "Some (b\<lparr>b_used := b_used b - of_int n\<rparr>)"]) (simp_all add: pool_Release_def charged_def)
qed

lemma Buf_Release_live:
  assumes inv: "pool_inv dbg base p" and a: "a \<in> live_addrs p"
  obtains p' where "Buf_Release dbg (Some a) p = Ret () p'" "pool_inv dbg base p'"
    "live_addrs p' = live_addrs p - {a}" "\<forall>x \<in> live_addrs p - {a}. p_heap p' ! x = p_heap p ! x"
proof -
  have wf: "pool_wf p" and ch: "charged base p" "0 \<le> base" using inv by (simp_all add: pool_inv_def)
  have "a < length (p_heap p)" "bf_live (p_heap p ! a)" using a by (simp_all add: live_addrs_def)
  then obtain p1 where p1: "onRelease dbg a p = Ret () p1" "released a p p1" "p_budget p1 = p_budget p"
    "p_outstanding p1 = (if dbg then p_outstanding p - 1 else p_outstanding p)"
    using onRelease_result [of a p dbg] by blast
  have "int (buf_cap p a) \<le> live_bytes p"
    using a unfolding live_bytes_def by (intro member_le_sum) simp_all
  then obtain ob where ob: "\<And>q. p_budget q = p_budget p \<Longrightarrow> pool_Release (int (buf_cap p a)) q = Ret () (q\<lparr>p_budget := ob\<rparr>)"
    "\<And>q. live_bytes q = live_bytes p - int (buf_cap p a) \<Longrightarrow> p_budget q = ob \<Longrightarrow> charged base q"
    using pool_Release_result [OF ch] by (metis of_nat_0_le_iff)
  define p3 where "p3 = upd_Buf a (bf_B_update (\<lambda>_. None)) (p1\<lparr>p_budget := ob\<rparr>)"
  have len: "a < length (p_heap p1)" using p1(2) a by (simp add: released_def live_addrs_def)
  have rel: "released a p p3" using p1(2) len by (auto simp: released_def p3_def buf_cap_def nth_list_update)
  note r3 = released_props [OF wf a rel]
  define cls where "cls = bf_class (p_heap p3 ! a)"
  define p' where "p' = (if cls \<ge> 0 then pools_Put (nat cls) a p3 else p3)"
  have "class_ok (p_heap p3 ! a)" using r3(1) by (simp add: in_transit_def pool_wf_def)
  then have "pool_wf p'"
    using r3(1) pools_Put_wf [OF r3(1), of "nat cls"]
    by (auto simp: p'_def cls_def class_ok_def in_transit_def split: if_splits)
  moreover have heap: "p_heap p' = p_heap p3" "p_budget p' = ob" "p_outstanding p' = p_outstanding p1"
    by (simp_all add: p'_def pools_Put_def p3_def)
  moreover have live: "live_addrs p' = live_addrs p - {a}" "live_bytes p' = live_bytes p3"
    using r3(2) heap(1) by (simp_all add: live_addrs_def live_bytes_def buf_cap_def)
  moreover have "p_outstanding p' = of_nat (card (live_addrs p'))" if dbg
  proof -
    have "card (live_addrs p) = Suc (card (live_addrs p'))" using card.remove [OF finite_live a] live(1) by simp
    then show ?thesis using that inv p1(4) heap(3) by (simp add: pool_inv_def)
  qed
  ultimately have "pool_inv dbg base p'" using ob(2) r3(3) ch(2) by (simp add: pool_inv_def)
  moreover have "Buf_Release dbg (Some a) p = Ret () p'"
    using p1(1,3) ob(1) [of p1] p1(2) by (simp add: Buf_Release_def Let_def p'_def p3_def cls_def released_def buf_cap_def)
  moreover have "\<forall>x \<in> live_addrs p - {a}. p_heap p' ! x = p_heap p ! x" using rel heap(1) by (simp add: released_def)
  ultimately show thesis using that live(1) by blast
qed

lemma Buf_Release_dead:
  "a \<notin> live_addrs p \<Longrightarrow> a < length (p_heap p) \<Longrightarrow> Buf_Release True (Some a) p =
     Panic ''buf: Release of a buffer that is not owned (double Release?)'' p"
  by (simp add: Buf_Release_def onRelease_def live_addrs_def)

lemma Buf_Release_None [simp]: "Buf_Release dbg None p = Ret () p"
  by (simp add: Buf_Release_def)

section \<open>The ownership contract\<close>

text \<open>
  What the users of a pool rely on: \<open>Get\<close> hands out a buffer that nobody owns or nothing,
  \<open>Release\<close> by an owner succeeds, and neither touches a buffer that somebody else owns.
\<close>

fun release_all :: "('a option \<Rightarrow> 'p \<Rightarrow> (unit, 'p) res) \<Rightarrow> 'a list \<Rightarrow> 'p \<Rightarrow> (unit, 'p) res" where
  "release_all rel [] p = Ret () p"
| "release_all rel (a # as) p =
     (case rel (Some a) p of Ret u p1 \<Rightarrow> release_all rel as p1 | Panic m p1 \<Rightarrow> Panic m p1)"

locale ownership =
  fixes inv :: "'p \<Rightarrow> bool"
    and live :: "'p \<Rightarrow> 'a set"
    and view :: "'p \<Rightarrow> 'a \<Rightarrow> 'v"
    and legal :: "'n \<Rightarrow> bool"
    and get :: "'n \<Rightarrow> 'p \<Rightarrow> ('a option, 'p) res"
    and rel :: "'a option \<Rightarrow> 'p \<Rightarrow> (unit, 'p) res"
  assumes get_law: "inv p \<Longrightarrow> legal n \<Longrightarrow> \<exists>x p'. get n p = Ret x p' \<and> inv p' \<and>
      (case x of None \<Rightarrow> p' = p
       | Some a \<Rightarrow> a \<notin> live p \<and> live p' = insert a (live p) \<and> (\<forall>y \<in> live p. view p' y = view p y))"
    and release_law: "inv p \<Longrightarrow> a \<in> live p \<Longrightarrow> \<exists>p'. rel (Some a) p = Ret () p' \<and> inv p' \<and>
      live p' = live p - {a} \<and> (\<forall>y \<in> live p - {a}. view p' y = view p y)"
begin

lemma release_all_live:
  assumes "inv p" and "distinct as" and "set as \<subseteq> live p"
  shows "\<exists>p'. release_all rel as p = Ret () p' \<and> inv p' \<and> live p' = live p - set as \<and>
    (\<forall>y \<in> live p - set as. view p' y = view p y)"
  using assms
proof (induction as arbitrary: p)
  case (Cons a as)
  from release_law [OF Cons.prems(1), of a] Cons.prems(3) obtain p1 where p1: "rel (Some a) p = Ret () p1"
    "inv p1" "live p1 = live p - {a}" "\<forall>y \<in> live p - {a}. view p1 y = view p y" by auto
  have "distinct as" "set as \<subseteq> live p1" using Cons.prems p1(3) by auto
  from Cons.IH [OF p1(2) this] obtain p2 where "release_all rel as p1 = Ret () p2" "inv p2"
    "live p2 = live p1 - set as" "\<forall>y \<in> live p1 - set as. view p2 y = view p1 y" by auto
  then show ?case using p1 by auto
qed simp

text \<open>Get followed by Release leaves the owners as they were.\<close>

lemma get_release_live:
  assumes "inv p" and "legal n" and "get n p = Ret x p1"
  shows "\<exists>p2. (case x of None \<Rightarrow> Ret () p1 | Some a \<Rightarrow> rel (Some a) p1) = Ret () p2 \<and> inv p2 \<and> live p2 = live p"
proof (cases x)
  case None
  then show ?thesis using get_law [OF assms(1,2)] assms(3) by auto
next
  case (Some a)
  then have p1: "inv p1" "a \<in> live p1" "live p1 - {a} = live p" using get_law [OF assms(1,2)] assms(3) by auto
  from release_law [OF p1(1,2)] show ?thesis using Some p1(3) by auto
qed

end

interpretation owned: ownership "pool_inv dbg base" live_addrs "\<lambda>p a. p_heap p ! a" "\<lambda>n. 0 \<le> n \<and> n \<le> maxAlloc"
    "Pool_Get dbg" "Buf_Release dbg" for dbg base
proof unfold_locales
  fix p and n :: int
  assume inv: "pool_inv dbg base p" and "0 \<le> n \<and> n \<le> maxAlloc"
  then have n: "0 \<le> n" "n \<le> maxAlloc" by simp_all
  from inv n show "\<exists>x p'. Pool_Get dbg n p = Ret x p' \<and> pool_inv dbg base p' \<and>
      (case x of None \<Rightarrow> p' = p
       | Some a \<Rightarrow> a \<notin> live_addrs p \<and> live_addrs p' = insert a (live_addrs p) \<and>
           (\<forall>y \<in> live_addrs p. p_heap p' ! y = p_heap p ! y))"
    by (cases rule: Pool_Get_result) (use inv in auto)
next
  fix p a
  assume "pool_inv dbg base p" and "a \<in> live_addrs p"
  then show "\<exists>p'. Buf_Release dbg (Some a) p = Ret () p' \<and> pool_inv dbg base p' \<and>
      live_addrs p' = live_addrs p - {a} \<and> (\<forall>y \<in> live_addrs p - {a}. p_heap p' ! y = p_heap p ! y)"
    by (cases rule: Buf_Release_live) auto
qed

section \<open>Writing into a buffer\<close>

lemma length_copy_at [simp]: "length (copy_at i xs ys) = length ys"
  by (simp add: copy_at_def)

lemma copy_at_take:
  assumes "i + length xs \<le> length ys"
  shows "take (i + length xs) (copy_at i xs ys) = take i ys @ xs"
  using assms by (simp add: copy_at_def)

lemma take_copy_at: "k \<le> i \<Longrightarrow> take k (copy_at i xs ys) = take k ys"
  by (simp add: copy_at_def min_def)

lemma Buf_write_sel [simp]:
  "bf_B (Buf_write i xs b) = bf_B b" "bf_class (Buf_write i xs b) = bf_class b" "bf_live (Buf_write i xs b) = bf_live b"
  "length (bf_full (Buf_write i xs b)) = length (bf_full b)"
  by (simp_all add: Buf_write_def)

lemma Buf_B_write: "Buf_B (Buf_write i xs b) = copy_at i xs (Buf_B b)"
proof (cases "bf_B b")
  case None
  then show ?thesis by (simp add: Buf_B_def copy_at_def)
next
  case (Some n)
  then have "length (copy_at i xs (Buf_B b)) \<le> length (bf_full b)" by (simp add: Buf_B_def)
  then show ?thesis using Some
    by (simp add: Buf_B_def [of "Buf_write i xs b"] Buf_write_def copy_at_def [of 0]) (simp add: Buf_B_def min_def)
qed

text \<open>A write by the owner changes nothing but the bytes of that buffer.\<close>

lemma write_live:
  assumes "pool_inv dbg base p" and "a \<in> live_addrs p"
  shows "pool_inv dbg base (upd_Buf a (Buf_write i xs) p)"
    and "live_addrs (upd_Buf a (Buf_write i xs) p) = live_addrs p"
    and "Buf_B (p_heap (upd_Buf a (Buf_write i xs) p) ! a) = copy_at i xs (Buf_B (p_heap p ! a))"
proof -
  let ?p = "upd_Buf a (Buf_write i xs) p"
  have a: "a < length (p_heap p)" using assms(2) by (simp add: live_addrs_def)
  have sel: "x < length (p_heap p) \<Longrightarrow> bf_live (p_heap ?p ! x) = bf_live (p_heap p ! x)"
    "bf_class (p_heap ?p ! x) = bf_class (p_heap p ! x)" "bf_B (p_heap ?p ! x) = bf_B (p_heap p ! x)"
    "buf_cap ?p x = buf_cap p x" for x
    using a by (cases "x = a"; simp add: buf_cap_def)+
  show live: "live_addrs ?p = live_addrs p" using sel(1) by (auto simp: live_addrs_def)
  have "class_ok (p_heap ?p ! x)" if "x < length (p_heap p)" for x
  proof -
    have "class_ok (p_heap p ! x)" using that assms(1) by (simp add: pool_inv_def pool_wf_def)
    then show ?thesis using sel(2,4) [of x] by (auto simp: class_ok_def buf_cap_def split: if_splits)
  qed
  then have "\<forall>b \<in> set (p_heap ?p). class_ok b" by (simp add: all_set_conv_all_nth)
  moreover have "free_ok ?p c x = free_ok p c x" for c x using sel(1,2) [of x] by (auto simp: free_ok_def)
  ultimately have "pool_wf ?p" using assms(1) live sel(3,4)
    unfolding pool_inv_def pool_wf_def by (simp only: upd_Buf_sel(1)) blast
  moreover have "live_bytes ?p = live_bytes p" by (simp add: live_bytes_def live sel(4))
  then have "charged base ?p = charged base p" by (simp add: charged_def split: option.splits)
  ultimately show "pool_inv dbg base ?p" using assms(1) live by (simp add: pool_inv_def)
  show "Buf_B (p_heap ?p ! a) = copy_at i xs (Buf_B (p_heap p ! a))" using a by (simp add: Buf_B_write)
qed

section \<open>Sequences of calls\<close>

datatype pool_op = PGet int | PRelease nat
datatype pool_out = OGot "nat option" | ODone | OPanic

fun pool_step :: "bool \<Rightarrow> pool_op \<Rightarrow> pool \<Rightarrow> pool_out \<times> pool" where
  "pool_step dbg (PGet n) p =
     (case Pool_Get dbg n p of Ret x p' \<Rightarrow> (OGot x, p') | Panic m p' \<Rightarrow> (OPanic, p'))"
| "pool_step dbg (PRelease a) p =
     (if a < length (p_heap p) then
        (case Buf_Release dbg (Some a) p of Ret u p' \<Rightarrow> (ODone, p') | Panic m p' \<Rightarrow> (OPanic, p'))
      else (OPanic, p))"

text \<open>
  The specification: what a caller may see. \<open>h\<close> maps the buffers that are out to their
  capacities; \<open>bnd\<close> is the budget's maximum and what others have reserved of it, if there
  is a budget.
\<close>

definition fits :: "(int \<times> int) option \<Rightarrow> (nat \<rightharpoonup> int) \<Rightarrow> int \<Rightarrow> bool" where
  "fits bnd h n = (case bnd of None \<Rightarrow> True | Some (mx, base) \<Rightarrow> base + (\<Sum>a \<in> dom h. the (h a)) + n \<le> mx)"

fun pool_trace :: "(int \<times> int) option \<Rightarrow> (nat \<rightharpoonup> int) \<Rightarrow> (pool_op \<times> pool_out) list \<Rightarrow> bool" where
  "pool_trace bnd h [] = True"
| "pool_trace bnd h ((PGet n, OPanic) # tr) = (n < 0 \<and> pool_trace bnd h tr)"
| "pool_trace bnd h ((PGet n, OGot None) # tr) = (0 \<le> n \<and> \<not> fits bnd h (Capacity n) \<and> pool_trace bnd h tr)"
| "pool_trace bnd h ((PGet n, OGot (Some a)) # tr) =
     (0 \<le> n \<and> fits bnd h (Capacity n) \<and> a \<notin> dom h \<and> pool_trace bnd (h(a \<mapsto> Capacity n)) tr)"
| "pool_trace bnd h ((PRelease a, ODone) # tr) = (a \<in> dom h \<and> pool_trace bnd (h(a := None)) tr)"
| "pool_trace bnd h ((PRelease a, OPanic) # tr) = (a \<notin> dom h \<and> pool_trace bnd h tr)"
| "pool_trace bnd h (_ # tr) = False"

definition holds :: "(nat \<rightharpoonup> int) \<Rightarrow> pool \<Rightarrow> bool" where
  "holds h p \<longleftrightarrow> dom h = live_addrs p \<and> (\<forall>a \<in> live_addrs p. h a = Some (int (buf_cap p a)))"

definition limit_of :: "int \<Rightarrow> pool \<Rightarrow> (int \<times> int) option" where
  "limit_of base p = (case p_budget p of None \<Rightarrow> None | Some b \<Rightarrow> Some (sint (b_max b), base))"

lemma fits_iff:
  assumes "holds h p" and "charged base p"
  shows "fits (limit_of base p) h n \<longleftrightarrow>
    (\<forall>b. p_budget p = Some b \<longrightarrow> sint (b_used b) + n \<le> sint (b_max b))"
proof -
  have "(\<Sum>a \<in> dom h. the (h a)) = live_bytes p"
    using assms(1) by (simp add: holds_def live_bytes_def)
  then show ?thesis using assms(2) by (auto simp: fits_def limit_of_def charged_def split: option.splits)
qed

lemma Pool_Get_max: "Pool_Get dbg n p = Ret x p' \<Longrightarrow> limit_of base p' = limit_of base p"
  by (auto simp: Pool_Get_def Let_def limit_of_def pool_Reserve_def Budget_Reserve_def onGet_def pools_Get_def
      split: option.splits if_splits prod.splits)

lemma Buf_Release_max: "Buf_Release dbg x p = Ret () p' \<Longrightarrow> limit_of base p' = limit_of base p"
  by (auto simp: Buf_Release_def onRelease_def Let_def limit_of_def pool_Release_def Budget_Release_def pools_Put_def
      split: option.splits if_splits res.splits)

text \<open>The build that runs: a debug build, or a caller that releases only what it owns.\<close>

definition rules_kept :: "bool \<Rightarrow> pool_op \<Rightarrow> pool \<Rightarrow> bool" where
  "rules_kept dbg e p = (case e of PGet n \<Rightarrow> n \<le> maxAlloc | PRelease a \<Rightarrow> dbg \<or> a \<in> live_addrs p)"

lemma pool_step_trace:
  assumes inv: "pool_inv dbg base p" and h: "holds h p" and rules: "rules_kept dbg e p"
  obtains h' where "pool_inv dbg base (snd (pool_step dbg e p))" "holds h' (snd (pool_step dbg e p))"
    "limit_of base (snd (pool_step dbg e p)) = limit_of base p"
    "\<And>tr. pool_trace (limit_of base p) h' tr \<Longrightarrow> pool_trace (limit_of base p) h ((e, fst (pool_step dbg e p)) # tr)"
proof (cases e)
  case (PRelease a)
  show thesis
  proof (cases "a \<in> live_addrs p")
    case True
    from inv True show thesis
    proof (cases rule: Buf_Release_live)
      case (1 p')
      have a: "a < length (p_heap p)" using True by (simp add: live_addrs_def)
      have "holds (h(a := None)) p'" using h 1(3,4) by (auto simp: holds_def buf_cap_def)
      then show thesis
        using that [of "h(a := None)"] PRelease a 1 h True Buf_Release_max [OF 1(1)] by (simp add: holds_def)
    qed
  next
    case False
    then have d: "dbg" using rules PRelease by (simp add: rules_kept_def)
    then have "pool_step dbg e p = (OPanic, p)" using PRelease Buf_Release_dead [OF False] by simp
    then show thesis using that [of h] PRelease inv h False by (simp add: holds_def)
  qed
next
  case (PGet n)
  show thesis
  proof (cases "0 \<le> n")
    case False
    then have "pool_step dbg e p = (OPanic, p)" using PGet by (simp add: Pool_Get_def)
    then show thesis using that [of h] PGet inv h False by simp
  next
    case True
    have le: "n \<le> maxAlloc" using rules PGet by (simp add: rules_kept_def)
    have ch: "charged base p" using inv by (simp add: pool_inv_def)
    from inv True le show thesis
    proof (cases rule: Pool_Get_result)
      case (refused b)
      then have "\<not> fits (limit_of base p) h (Capacity n)" using fits_iff [OF h ch] by auto
      then show thesis using that [of h] PGet inv h True refused(1) by simp
    next
      case (got a p')
      have "Capacity n = int (buf_cap p' a)" using got(5) Capacity_bounds [OF True le] by simp
      then have "holds (h(a \<mapsto> Capacity n)) p'"
        using h got(4,7) by (auto simp: holds_def buf_cap_def)
      moreover have "fits (limit_of base p) h (Capacity n)" using fits_iff [OF h ch] got(8) by blast
      moreover have "a \<notin> dom h" using h got(3) by (simp add: holds_def)
      ultimately show thesis
        using that [of "h(a \<mapsto> Capacity n)"] PGet True got(1,2) Pool_Get_max [OF got(1)] by simp
    qed
  qed
qed

text \<open>The rules along a whole run.\<close>

fun run_rules :: "bool \<Rightarrow> pool_op list \<Rightarrow> pool \<Rightarrow> bool" where
  "run_rules dbg [] p = True"
| "run_rules dbg (e # es) p = (rules_kept dbg e p \<and> run_rules dbg es (snd (pool_step dbg e p)))"

lemma pool_run_trace:
  assumes "pool_inv dbg base p" and "holds h p" and "run_rules dbg es p"
  shows "pool_trace (limit_of base p) h (zip es (fst (run_ops (pool_step dbg) es p))) \<and>
    pool_inv dbg base (snd (run_ops (pool_step dbg) es p))"
  using assms
proof (induction es arbitrary: p h)
  case (Cons e es)
  from Cons.prems have r: "rules_kept dbg e p" "run_rules dbg es (snd (pool_step dbg e p))" by simp_all
  from Cons.prems(1,2) r(1) show ?case
  proof (cases rule: pool_step_trace)
    case (1 h')
    from Cons.IH [OF 1(1,2) r(2)] 1(3,4) show ?thesis by simp
  qed
qed simp

section \<open>The two builds agree\<close>

text \<open>What the builds share of a pool: everything but the bytes of the buffers and the counter.\<close>

definition skel :: "Buf \<Rightarrow> nat option \<times> nat \<times> int \<times> bool" where
  "skel b = (bf_B b, length (bf_full b), bf_class b, bf_live b)"

definition same_pool :: "pool \<Rightarrow> pool \<Rightarrow> bool" where
  "same_pool p q \<longleftrightarrow> p_pools q = p_pools p \<and> p_budget q = p_budget p \<and> p_choice q = p_choice p \<and>
     p_gets q = p_gets p \<and> map skel (p_heap q) = map skel (p_heap p)"

lemma same_pool_len: "same_pool p q \<Longrightarrow> length (p_heap q) = length (p_heap p)"
  unfolding same_pool_def by (metis length_map)

lemma same_pool_nth: "same_pool p q \<Longrightarrow> a < length (p_heap p) \<Longrightarrow> skel (p_heap q ! a) = skel (p_heap p ! a)"
  unfolding same_pool_def by (metis length_map nth_map)

lemma same_pool_upd:
  assumes "same_pool p q" and "\<And>b c. skel b = skel c \<Longrightarrow> skel (g b) = skel (f c)"
  shows "same_pool (upd_Buf a f p) (upd_Buf a g q)"
proof (cases "a < length (p_heap p)")
  case True
  from assms(2) [OF same_pool_nth [OF assms(1) True]] assms(1) show ?thesis
    by (simp add: same_pool_def upd_Buf_def map_update)
next
  case False
  then show ?thesis using assms(1) same_pool_len [OF assms(1)] by (simp add: same_pool_def upd_Buf_def list_update_beyond)
qed

lemma same_pool_field:
  "same_pool p q \<Longrightarrow> same_pool (p\<lparr>p_budget := ob\<rparr>) (q\<lparr>p_budget := ob\<rparr>)"
  "same_pool p q \<Longrightarrow> same_pool (p\<lparr>p_heap := p_heap p @ [b]\<rparr>) (q\<lparr>p_heap := p_heap q @ [b]\<rparr>)"
  "same_pool p q \<Longrightarrow> same_pool (p\<lparr>p_outstanding := x\<rparr>) q"
  by (simp_all add: same_pool_def)

lemma same_pool_onGet: "same_pool p q \<Longrightarrow> same_pool (onGet True a p) (onGet False a q)"
  by (auto simp: onGet_def Let_def skel_def intro!: same_pool_field(3) same_pool_upd)

lemma same_pool_Reserve:
  "same_pool p q \<Longrightarrow> fst (pool_Reserve n q) = fst (pool_Reserve n p) \<and>
     same_pool (snd (pool_Reserve n p)) (snd (pool_Reserve n q))"
  by (auto simp: pool_Reserve_def case_prod_beta same_pool_field(1) split: option.splits) (simp_all add: same_pool_def)

lemma same_pool_pools_Get:
  "same_pool p q \<Longrightarrow> fst (pools_Get c q) = fst (pools_Get c p) \<and>
     same_pool (snd (pools_Get c p)) (snd (pools_Get c q))"
  using same_pool_len [of p q] by (auto simp: pools_Get_def Let_def same_pool_def split: option.splits)

lemma Pool_Get_same:
  assumes "same_pool p q" and "Pool_Get True n p = Ret x p'"
  shows "\<exists>q'. Pool_Get False n q = Ret x q' \<and> same_pool p' q'"
proof -
  let ?cap = "if classOf n \<ge> 0 then MinSize * 2 ^ nat (classOf n) else n"
  obtain ok p1 q1 where r: "pool_Reserve ?cap p = (ok, p1)" "pool_Reserve ?cap q = (ok, q1)" "same_pool p1 q1"
    using same_pool_Reserve [OF assms(1), of ?cap] by (cases "pool_Reserve ?cap p"; cases "pool_Reserve ?cap q") auto
  let ?take = "\<lambda>p. if classOf n \<ge> 0 then pools_Get (nat (classOf n)) p
      else (length (p_heap p), p\<lparr>p_heap := p_heap p @ [new_Buf (nat n) (- 1)]\<rparr>)"
  have "fst (?take q1) = fst (?take p1) \<and> same_pool (snd (?take p1)) (snd (?take q1))"
    using same_pool_pools_Get [OF r(3), of "nat (classOf n)"] same_pool_field(2) [OF r(3)] same_pool_len [OF r(3)] by simp
  then obtain a p2 q2 where tk: "?take p1 = (a, p2)" "?take q1 = (a, q2)" "same_pool p2 q2"
    by (cases "?take p1"; cases "?take q1") (simp only: fst_conv snd_conv)
  have "same_pool (onGet True a (upd_Buf a (bf_B_update (\<lambda>_. Some (nat n))) p2))
    (onGet False a (upd_Buf a (bf_B_update (\<lambda>_. Some (nat n))) q2))"
    by (intro same_pool_onGet same_pool_upd [OF tk(3)]) (simp add: skel_def)
  then show ?thesis using assms(2) r tk by (auto simp: Pool_Get_def Let_def split: if_splits)
qed

lemma Buf_Release_same:
  assumes "same_pool p q" and "a < length (p_heap p)" and "Buf_Release True (Some a) p = Ret () p'"
  shows "\<exists>q'. Buf_Release False (Some a) q = Ret () q' \<and> same_pool p' q'"
proof -
  obtain p1 where p1: "onRelease True a p = Ret () p1" using assms(3) by (cases "onRelease True a p") (simp_all add: Buf_Release_def)
  define q1 where "q1 = upd_Buf a (bf_live_update (\<lambda>_. False)) q"
  have q1: "onRelease False a q = Ret () q1" by (simp add: onRelease_def q1_def)
  have s1: "same_pool p1 q1"
  proof -
    let ?f = "\<lambda>b. b\<lparr>bf_live := False, bf_full := replicate (length (bf_full b)) Poison\<rparr>"
    have "p1 = (upd_Buf a ?f p)\<lparr>p_outstanding := p_outstanding p - 1\<rparr>"
      using p1 assms(2) by (auto simp: onRelease_def Let_def upd_Buf_def split: if_splits)
    moreover have "same_pool (upd_Buf a ?f p) q1"
      unfolding q1_def by (rule same_pool_upd [OF assms(1)]) (simp add: skel_def)
    ultimately show ?thesis using same_pool_field(3) by simp
  qed
  have len: "a < length (p_heap p1)" using p1 assms(2) by (auto simp: onRelease_def Let_def split: if_splits)
  note sk = same_pool_nth [OF s1 len, unfolded skel_def]
  obtain p2 where p2: "pool_Release (int (length (bf_full (p_heap p1 ! a)))) p1 = Ret () p2"
    using assms(3) p1 by (auto simp: Buf_Release_def split: res.splits)
  define ob where "ob = p_budget p2"
  have "p2 = p1\<lparr>p_budget := ob\<rparr>" "pool_Release (int (length (bf_full (p_heap q1 ! a)))) q1 = Ret () (q1\<lparr>p_budget := ob\<rparr>)"
    using p2 s1 sk unfolding ob_def same_pool_def
    by (cases p1; cases q1; cases "p_budget p1"; auto simp: pool_Release_def split: res.splits)+
  moreover have "same_pool (upd_Buf a (bf_B_update (\<lambda>_. None)) (p1\<lparr>p_budget := ob\<rparr>)) (upd_Buf a (bf_B_update (\<lambda>_. None)) (q1\<lparr>p_budget := ob\<rparr>))"
    by (intro same_pool_upd same_pool_field(1) s1) (simp add: skel_def)
  ultimately show ?thesis using assms(3) p1 p2 q1 sk len same_pool_len [OF s1]
    by (auto simp: Buf_Release_def Let_def pools_Put_def same_pool_def split: if_splits)
qed

lemma pool_run_same:
  assumes "same_pool p q" and "OPanic \<notin> set (fst (run_ops (pool_step True) es p))"
  shows "fst (run_ops (pool_step False) es q) = fst (run_ops (pool_step True) es p) \<and>
    same_pool (snd (run_ops (pool_step True) es p)) (snd (run_ops (pool_step False) es q))"
  using assms
proof (induction es arbitrary: p q)
  case (Cons e es)
  have "fst (pool_step False e q) = fst (pool_step True e p) \<and> same_pool (snd (pool_step True e p)) (snd (pool_step False e q))"
  proof (cases e)
    case (PGet n)
    then obtain x p' where "Pool_Get True n p = Ret x p'" using Cons.prems(2) by (cases "Pool_Get True n p") auto
    then show ?thesis using PGet Pool_Get_same [OF Cons.prems(1)] by fastforce
  next
    case (PRelease a)
    then have a: "a < length (p_heap p)" using Cons.prems(2) by (auto split: if_splits)
    then obtain u p' where "Buf_Release True (Some a) p = Ret u p'"
      using PRelease Cons.prems(2) by (cases "Buf_Release True (Some a) p") auto
    then show ?thesis using PRelease a Buf_Release_same [OF Cons.prems(1) a] same_pool_len [OF Cons.prems(1)] by fastforce
  qed
  then show ?case using Cons.IH Cons.prems(2) by simp
qed simp

section \<open>Properties\<close>

lemma NewPool_inv:
  assumes "\<And>b. ob = Some b \<Longrightarrow> budget_inv b \<and> base = sint (b_used b)" and "0 \<le> base"
  shows "pool_inv dbg base (NewPool choice ob)" and "holds Map.empty (NewPool choice ob)"
  using assms by (auto simp: NewPool_def pool_inv_def pool_wf_def live_addrs_def charged_def live_bytes_def holds_def
      split: option.splits)

text \<open>
  C37: Size classes. Up to \<open>Large\<close>, \<open>Capacity(n)\<close> is one of the eleven classes, holds \<open>n\<close>, is
  the smallest class that does, and above \<open>MinSize\<close> is less than \<open>2 * n\<close>; above \<open>Large\<close> it
  is \<open>n\<close>.
\<close>

theorem Capacity_is_least_class:
  assumes "0 \<le> n"
  shows "(if n \<le> Large
     then (\<exists>c < numClasses. classOf n = int c \<and> Capacity n = MinSize * 2 ^ c) \<and> n \<le> Capacity n \<and>
       (\<forall>c. n \<le> MinSize * 2 ^ c \<longrightarrow> Capacity n \<le> MinSize * 2 ^ c) \<and> (MinSize < n \<longrightarrow> Capacity n < 2 * n)
     else classOf n = - 1 \<and> Capacity n = n)"
proof (cases "n \<le> Large")
  case True
  have "nat (classOf n) < numClasses" "int (nat (classOf n)) = classOf n" using classOf_range [OF assms True] by auto
  then show ?thesis using True Capacity_class [OF assms True] Capacity_holds [of n] Capacity_least [OF True] Capacity_tight [OF _ True]
    by (auto simp: MinSize_def intro!: exI [of _ "nat (classOf n)"])
next
  case False
  then show ?thesis by (simp add: Capacity_def classOf_def)
qed

theorem Capacity_is_least_class_witness: "Capacity 1500 < 2 * 1500 \<and> 1500 \<le> Capacity 1500"
  using Capacity_is_least_class [of 1500] by (simp add: MinSize_def Large_def)



text \<open>
  C36: A debug build changes nothing but panics, contents and the counter: if no call of a sequence
  panics in the debug build, the release build returns the same results for the same sequence
  and ends with the same budget, free lists and buffers.
\<close>

theorem builds_agree:
  assumes "run_ops (pool_step True) es (NewPool choice ob) = (outs, p)" and "OPanic \<notin> set outs"
  shows "\<exists>q. run_ops (pool_step False) es (NewPool choice ob) = (outs, q) \<and>
    p_budget q = p_budget p \<and> p_pools q = p_pools p \<and> map skel (p_heap q) = map skel (p_heap p)"
  using pool_run_same [of "NewPool choice ob" "NewPool choice ob" es] assms
  by (cases "run_ops (pool_step False) es (NewPool choice ob)") (auto simp: same_pool_def)

theorem builds_agree_witness:
  "\<exists>q. run_ops (pool_step False) [PGet 70000, PRelease 0] (NewPool (\<lambda>_. None) None) = ([OGot (Some 0), ODone], q)"
proof -
  let ?p = "\<lparr>p_pools = replicate 11 [], p_budget = None,
    p_heap = [\<lparr>bf_B = None, bf_full = replicate 70000 Poison, bf_class = - 1, bf_live = False\<rparr>],
    p_outstanding = 0, p_choice = \<lambda>_. None, p_gets = 0\<rparr>"
  have "run_ops (pool_step True) [PGet 70000, PRelease 0] (NewPool (\<lambda>_. None) None) = ([OGot (Some 0), ODone], ?p)"
    by (simp add: Pool_Get_def classOf_def Large_def pool_Reserve_def NewPool_def maxAlloc_def Let_def onGet_def
        new_Buf_def upd_Buf_def Buf_Release_def onRelease_def pool_Release_def)
  from builds_agree [OF this] show ?thesis by auto
qed

text \<open>
  \<open>Copy\<close> returns a private copy: the buffer holds exactly the data, nobody owned it before,
  every buffer owned by others keeps its bytes, and releasing it gives the budget back.
\<close>

theorem Copy_is_private:
  assumes "pool_inv dbg base p" and "int (length xs) \<le> maxAlloc" and "Pool_Copy dbg xs p = Ret (Some a) p'"
  shows "Buf_B (p_heap p' ! a) = xs \<and> a \<notin> live_addrs p \<and> live_addrs p' = insert a (live_addrs p) \<and>
    (\<forall>x \<in> live_addrs p. p_heap p' ! x = p_heap p ! x) \<and> live_bytes p' = live_bytes p + Capacity (int (length xs)) \<and>
    (\<exists>p''. Buf_Release dbg (Some a) p' = Ret () p'' \<and> live_addrs p'' = live_addrs p \<and> live_bytes p'' = live_bytes p)"
proof -
  obtain p1 where p1: "Pool_Get dbg (int (length xs)) p = Ret (Some a) p1" "p' = upd_Buf a (Buf_write 0 xs) p1"
    using assms(3) by (auto simp: Pool_Copy_def split: res.splits option.splits)
  have n: "0 \<le> int (length xs)" by simp
  from assms(1) n assms(2) show ?thesis
  proof (cases rule: Pool_Get_result)
    case (refused b)
    then show ?thesis using p1(1) by simp
  next
    case (got a' q)
    then have got': "pool_inv dbg base p1" "a \<notin> live_addrs p" "live_addrs p1 = insert a (live_addrs p)"
      "buf_cap p1 a = nat (Capacity (int (length xs)))" "bf_B (p_heap p1 ! a) = Some (length xs)"
      "\<forall>x \<in> live_addrs p. p_heap p1 ! x = p_heap p ! x" using p1(1) by simp_all
    have a: "a \<in> live_addrs p1" using got'(3) by simp
    note w = write_live [OF got'(1) a, of 0 xs, folded p1(2)]
    have cap0: "0 \<le> Capacity (int (length xs))" using Capacity_bounds [OF n assms(2)] by simp
    have "length (Buf_B (p_heap p1 ! a)) = length xs"
      using got'(4,5) Capacity_holds [of "int (length xs)"] by (simp add: Buf_B_def buf_cap_def)
    then have B: "Buf_B (p_heap p' ! a) = xs" using w(3) by (simp add: copy_at_def)
    have same: "\<forall>x \<in> live_addrs p. p_heap p' ! x = p_heap p ! x"
      using got'(2,6) p1(2) by (metis nth_list_update_neq upd_Buf_sel(5))
    have cap: "buf_cap p' a = buf_cap p1 a" using p1(2) a by (simp add: buf_cap_def live_addrs_def)
    have bytes: "live_bytes p' = live_bytes p + Capacity (int (length xs))"
      using live_bytes_insert [of p' a p] w(2) got'(2,3,4) same cap cap0 by (simp add: buf_cap_def)
    have a': "a \<in> live_addrs p'" using w(2) a by simp
    from w(1) a' obtain p'' where rel: "Buf_Release dbg (Some a) p' = Ret () p''" "live_addrs p'' = live_addrs p' - {a}"
      "\<forall>x \<in> live_addrs p' - {a}. p_heap p'' ! x = p_heap p' ! x" by (cases rule: Buf_Release_live) auto
    moreover have "live_addrs p'' = live_addrs p" using rel(2) w(2) got'(2,3) by simp
    moreover have "live_bytes p'' = live_bytes p"
      using rel(2,3) same got'(2,3) w(2) by (simp add: live_bytes_def buf_cap_def)
    ultimately show ?thesis using B got'(2,3) w(2) same bytes by auto
  qed
qed

theorem Copy_is_private_witness:
  "\<exists>a p'. Pool_Copy True [1, 2, 3] (NewPool (\<lambda>_. None) None) = Ret (Some a) p' \<and> Buf_B (p_heap p' ! a) = [1, 2, 3]"
proof -
  let ?p = "NewPool (\<lambda>_. None) None"
  have inv: "pool_inv True 0 ?p" by (rule NewPool_inv) simp_all
  obtain a p' where "Pool_Copy True [1, 2, 3] ?p = Ret (Some a) p'"
    by (simp add: Pool_Copy_def Pool_Get_def classOf_def Large_def MinSize_def pool_Reserve_def NewPool_def pools_Get_def Let_def)
  moreover from Copy_is_private [OF inv _ this] have "Buf_B (p_heap p' ! a) = [1, 2, 3]" by (simp add: maxAlloc_def)
  ultimately show ?thesis by blast
qed

end
