(* ===== verification/Stream_Reader.thy ===== *)
theory Stream_Reader
  imports Buf
begin

text \<open>
  \<open>stream.Reader\<close> (\<open>src/stream/reader.go\<close>): a buffered reader that borrows a larger buffer from a
  \<open>buf.Pool\<close> while data is pending. The source is a parameter: \<open>src k s\<close> is a call of
  \<open>Read(p)\<close> with \<open>len(p) = k\<close> in state \<open>s\<close>, and returns the count, the bytes it wrote to the
  front of \<open>p\<close>, the error, and its next state. The field \<open>rd_data\<close> says which memory the
  slice \<open>r.data\<close> points to, so reads write through to the pool's heap.

  \<open>Peek\<close>'s loop is a partial function, and the lemmas show that it returns. They also show that
  the bytes handed out are the bytes the source delivered, in order and without loss; that the
  buffer never exceeds \<open>Max\<close>; and that the reader holds at most one pool buffer, gives it back,
  and touches no other.
\<close>

datatype rerr = ErrTooLarge | ErrNoBuffer | ErrReleased | ErrNegativeCount | ErrNoProgress | ErrInvalidCount
  | ErrSource string

datatype dataref = DNil | DIdle | DBig nat

type_synonym 's source = "nat \<Rightarrow> 's \<Rightarrow> (int \<times> byte list \<times> string option) \<times> 's"

record 's reader =
  rd_src :: 's
  rd_pool :: pool
  rd_idle :: "byte list"
  rd_big :: "nat option"
  rd_data :: dataref
  rd_r :: nat
  rd_w :: nat
  rd_last :: nat
  rd_err :: "rerr option"
  rd_max :: int
  rd_done :: bool

text \<open>\<open>len(r.data)\<close> and its contents, and writing into it.\<close>

definition data_of :: "'s reader \<Rightarrow> byte list" where
  "data_of rd =
     (case rd_data rd of DNil \<Rightarrow> [] | DIdle \<Rightarrow> rd_idle rd | DBig a \<Rightarrow> Buf_B (p_heap (rd_pool rd) ! a))"

definition write_data :: "nat \<Rightarrow> byte list \<Rightarrow> 's reader \<Rightarrow> 's reader" where
  "write_data i xs rd =
     (case rd_data rd of
        DNil \<Rightarrow> rd
      | DIdle \<Rightarrow> rd\<lparr>rd_idle := copy_at i xs (rd_idle rd)\<rparr>
      | DBig a \<Rightarrow> rd\<lparr>rd_pool := upd_Buf a (Buf_write i xs) (rd_pool rd)\<rparr>)"

definition NewReader :: "'s \<Rightarrow> pool option \<Rightarrow> int \<Rightarrow> int \<Rightarrow> ('s reader, unit) res" where
  "NewReader s pl oIdleSize oMax =
     (let idleSize = (if oIdleSize = 0 then 512 else oIdleSize); mx = (if oMax = 0 then Large else oMax)
      in case pl of
           None \<Rightarrow> Panic ''stream: invalid ReaderOptions or nil pool'' ()
         | Some p \<Rightarrow>
             (if idleSize < 0 \<or> mx < idleSize then Panic ''stream: invalid ReaderOptions or nil pool'' ()
              else if idleSize > maxAlloc then Panic ''runtime error: makeslice: len out of range'' ()
              else Ret \<lparr>rd_src = s, rd_pool = p, rd_idle = replicate (nat idleSize) 0, rd_big = None, rd_data = DIdle,
                        rd_r = 0, rd_w = 0, rd_last = 0, rd_err = None, rd_max = mx, rd_done = False\<rparr> ()))"

definition Buffered :: "'s reader \<Rightarrow> byte list" where
  "Buffered rd = drop (rd_r rd) (take (rd_w rd) (data_of rd))"

definition Reader_Len :: "'s reader \<Rightarrow> nat" where
  "Reader_Len rd = rd_w rd - rd_r rd"

definition shrink :: "bool \<Rightarrow> 's reader \<Rightarrow> (unit, 's reader) res" where
  "shrink dbg rd =
     (case Buf_Release dbg (rd_big rd) (rd_pool rd) of
        Panic m p \<Rightarrow> Panic m (rd\<lparr>rd_pool := p\<rparr>)
      | Ret u p \<Rightarrow> Ret () (rd\<lparr>rd_pool := p, rd_big := None, rd_data := DIdle\<rparr>))"

definition grow :: "bool \<Rightarrow> int \<Rightarrow> 's reader \<Rightarrow> (rerr option, 's reader) res" where
  "grow dbg need rd =
     (let len = int (length (data_of rd)); size = min (Capacity (max need (len + 1))) (rd_max rd)
      in if size \<le> len then Ret (Some ErrTooLarge) rd
         else (case Pool_Get dbg size (rd_pool rd) of
                 Panic m p \<Rightarrow> Panic m (rd\<lparr>rd_pool := p\<rparr>)
               | Ret None p \<Rightarrow> Ret (Some ErrNoBuffer) (rd\<lparr>rd_pool := p\<rparr>)
               | Ret (Some b) p \<Rightarrow>
                   (let xs = Buffered (rd\<lparr>rd_pool := p\<rparr>);
                        rd1 = rd\<lparr>rd_pool := upd_Buf b (Buf_write 0 xs) p,
                                 rd_w := min (length (Buf_B (p_heap p ! b))) (length xs), rd_r := 0\<rparr>
                    in case Buf_Release dbg (rd_big rd1) (rd_pool rd1) of
                         Panic m p2 \<Rightarrow> Panic m (rd1\<lparr>rd_pool := p2\<rparr>)
                       | Ret u p2 \<Rightarrow> Ret None (rd1\<lparr>rd_pool := p2, rd_big := Some b, rd_data := DBig b\<rparr>))))"

definition compact_data :: "'s reader \<Rightarrow> 's reader" where
  "compact_data rd =
     (write_data 0 (Buffered rd) rd)\<lparr>rd_w := min (length (data_of rd)) (length (Buffered rd)), rd_r := 0\<rparr>"

definition ensure :: "bool \<Rightarrow> int \<Rightarrow> 's reader \<Rightarrow> (rerr option, 's reader) res" where
  "ensure dbg n rd =
     (let len = length (data_of rd)
      in if n > rd_max rd then Ret (Some ErrTooLarge) rd
         else if int len < n then grow dbg n rd
         else if rd_w rd < len \<and> int len - int (rd_r rd) \<ge> n then Ret None rd
         else if rd_r rd > 0 then
           (let rd1 = compact_data rd
            in if rd_w rd1 < length (data_of rd1) then Ret None rd1
               else grow dbg (int (length (data_of rd1)) + 1) rd1)
         else grow dbg (int len + 1) rd)"

definition maxEmptyReads :: nat where "maxEmptyReads = 100"

text \<open>The read loop of \<open>readOnce\<close> with \<open>k\<close> attempts left; \<open>None\<close> is \<open>io.ErrNoProgress\<close>.\<close>

fun read_loop :: "'s source \<Rightarrow> nat \<Rightarrow> 's reader \<Rightarrow> (int \<times> string option) option \<times> 's reader" where
  "read_loop src 0 rd = (None, rd)"
| "read_loop src (Suc k) rd =
     (let ((n, bs, e), s) = src (length (data_of rd) - rd_w rd) (rd_src rd);
          rd1 = write_data (rd_w rd) bs (rd\<lparr>rd_src := s\<rparr>)
      in if n \<noteq> 0 \<or> e \<noteq> None then (Some (n, e), rd1) else read_loop src k rd1)"

definition readOnce :: "'s source \<Rightarrow> 's reader \<Rightarrow> rerr option \<times> 's reader" where
  "readOnce src rd =
     (case rd_err rd of
        Some e \<Rightarrow> (Some e, rd)
      | None \<Rightarrow>
          (case read_loop src maxEmptyReads rd of
             (None, rd1) \<Rightarrow> (Some ErrNoProgress, rd1)
           | (Some (n, e), rd1) \<Rightarrow>
               (if n < 0 \<or> n > int (length (data_of rd1)) - int (rd_w rd1)
                then (Some ErrInvalidCount, rd1\<lparr>rd_err := Some ErrInvalidCount\<rparr>)
                else
                  (let rd2 = rd1\<lparr>rd_w := rd_w rd1 + nat n, rd_last := nat n\<rparr>
                   in case e of
                        None \<Rightarrow> (None, rd2)
                      | Some x \<Rightarrow>
                          (let rd3 = rd2\<lparr>rd_err := Some (ErrSource x)\<rparr>
                           in if n > 0 then (None, rd3) else (Some (ErrSource x), rd3))))))"

partial_function (option) Peek_loop ::
    "bool \<Rightarrow> 's source \<Rightarrow> int \<Rightarrow> 's reader \<Rightarrow> (byte list \<times> rerr option, 's reader) res option" where
  "Peek_loop dbg src n rd =
     (if int (Reader_Len rd) < n then
        (case ensure dbg n rd of
           Panic m rd1 \<Rightarrow> Some (Panic m rd1)
         | Ret err rd1 \<Rightarrow>
             (case err of
                Some e \<Rightarrow> Some (Ret (Buffered rd1, Some e) rd1)
              | None \<Rightarrow>
                  (case readOnce src rd1 of
                     (err2, rd2) \<Rightarrow>
                       (case err2 of
                          None \<Rightarrow> Peek_loop dbg src n rd2
                        | Some e \<Rightarrow>
                            (if int (Reader_Len rd2) \<ge> n
                             then Some (Ret (take (nat n) (drop (rd_r rd2) (data_of rd2)), None) rd2)
                             else Some (Ret (Buffered rd2, Some e) rd2))))))
      else Some (Ret (take (nat n) (drop (rd_r rd) (data_of rd)), None) rd))"

definition Peek :: "bool \<Rightarrow> 's source \<Rightarrow> int \<Rightarrow> 's reader \<Rightarrow> (byte list \<times> rerr option, 's reader) res option" where
  "Peek dbg src n rd =
     (if rd_done rd then Some (Ret ([], Some ErrReleased) rd)
      else if n < 0 then Some (Ret ([], Some ErrNegativeCount) rd)
      else if n > rd_max rd then Some (Ret (Buffered rd, Some ErrTooLarge) rd)
      else Peek_loop dbg src n rd)"

definition Fill :: "bool \<Rightarrow> 's source \<Rightarrow> 's reader \<Rightarrow> (rerr option, 's reader) res" where
  "Fill dbg src rd =
     (if rd_done rd then Ret (Some ErrReleased) rd
      else (case ensure dbg (int (Reader_Len rd) + 1) rd of
              Panic m rd1 \<Rightarrow> Panic m rd1
            | Ret (Some e) rd1 \<Rightarrow> Ret (Some e) rd1
            | Ret None rd1 \<Rightarrow> (let (e, rd2) = readOnce src rd1 in Ret e rd2)))"

definition Discard :: "bool \<Rightarrow> int \<Rightarrow> 's reader \<Rightarrow> (nat, 's reader) res" where
  "Discard dbg n rd =
     (if n \<le> 0 then Ret 0 rd
      else
        (let k = (if n > int (Reader_Len rd) then Reader_Len rd else nat n);
             rd1 = rd\<lparr>rd_r := rd_r rd + k\<rparr>
         in if rd_r rd1 = rd_w rd1 then
              (let rd2 = rd1\<lparr>rd_r := 0, rd_w := 0\<rparr>
               in if rd_big rd2 \<noteq> None \<and> rd_last rd2 \<le> length (rd_idle rd2) then
                    (case shrink dbg rd2 of Panic m rd3 \<Rightarrow> Panic m rd3 | Ret u rd3 \<Rightarrow> Ret k rd3)
                  else Ret k rd2)
            else Ret k rd1))"

text \<open>\<open>Read(p)\<close> with \<open>len(p) = k\<close>: the bytes copied to \<open>p\<close> stand for the count.\<close>

definition Reader_Read :: "bool \<Rightarrow> 's source \<Rightarrow> nat \<Rightarrow> 's reader \<Rightarrow> (byte list \<times> rerr option, 's reader) res" where
  "Reader_Read dbg src k rd =
     (if rd_done rd then Ret ([], Some ErrReleased) rd
      else if k = 0 then Ret ([], None) rd
      else
        (let (e, rd1) = (if Reader_Len rd = 0 then readOnce src rd else (None, rd))
         in case e of
              Some x \<Rightarrow>
                (if Reader_Len rd1 = 0 then Ret ([], Some x) rd1
                 else (case Discard dbg (int (min k (Reader_Len rd1))) rd1 of
                         Panic m rd2 \<Rightarrow> Panic m rd2
                       | Ret u rd2 \<Rightarrow> Ret (take k (Buffered rd1), None) rd2))
            | None \<Rightarrow>
                (case Discard dbg (int (min k (Reader_Len rd1))) rd1 of
                   Panic m rd2 \<Rightarrow> Panic m rd2
                 | Ret u rd2 \<Rightarrow> Ret (take k (Buffered rd1), None) rd2)))"

definition Reader_Release :: "bool \<Rightarrow> 's reader \<Rightarrow> (unit, 's reader) res" where
  "Reader_Release dbg rd =
     (if rd_done rd then Ret () rd
      else
        (let rd1 = rd\<lparr>rd_done := True\<rparr>
         in case Buf_Release dbg (rd_big rd1) (rd_pool rd1) of
              Panic m p \<Rightarrow> Panic m (rd1\<lparr>rd_pool := p\<rparr>)
            | Ret u p \<Rightarrow> Ret () (rd1\<lparr>rd_pool := p, rd_big := None, rd_data := DNil, rd_r := 0, rd_w := 0\<rparr>)))"

section \<open>Invariant\<close>

text \<open>The errors that are the source's, as opposed to the reader's own; the sticky error is one.\<close>

definition from_source :: "rerr \<Rightarrow> bool" where
  "from_source e = (case e of ErrNoProgress \<Rightarrow> True | ErrInvalidCount \<Rightarrow> True | ErrSource x \<Rightarrow> True | _ \<Rightarrow> False)"

lemma from_source_simps [simp]:
  "from_source ErrNoProgress" "from_source ErrInvalidCount" "from_source (ErrSource x)" "\<not> from_source ErrTooLarge"
  "\<not> from_source ErrNoBuffer" "\<not> from_source ErrReleased" "\<not> from_source ErrNegativeCount"
  by (simp_all add: from_source_def)

definition reader_inv :: "bool \<Rightarrow> int \<Rightarrow> 's reader \<Rightarrow> bool" where
  "reader_inv dbg base rd \<longleftrightarrow> pool_inv dbg base (rd_pool rd) \<and> (\<forall>e. rd_err rd = Some e \<longrightarrow> from_source e) \<and>
     (if rd_done rd then rd_big rd = None \<and> rd_data rd = DNil \<and> rd_r rd = 0 \<and> rd_w rd = 0
      else (case rd_big rd of None \<Rightarrow> rd_data rd = DIdle | Some a \<Rightarrow> rd_data rd = DBig a \<and> a \<in> live_addrs (rd_pool rd)) \<and>
        rd_r rd \<le> rd_w rd \<and> rd_w rd \<le> length (data_of rd) \<and> (rd_r rd = rd_w rd \<longrightarrow> rd_w rd = 0) \<and>
        0 < length (data_of rd) \<and> int (length (data_of rd)) \<le> rd_max rd \<and>
        0 < length (rd_idle rd) \<and> int (length (rd_idle rd)) \<le> rd_max rd \<and> rd_max rd \<le> maxAlloc)"

text \<open>The live buffers of the pool that belong to others.\<close>

definition others :: "'s reader \<Rightarrow> nat set" where
  "others rd = live_addrs (rd_pool rd) - set_option (rd_big rd)"

definition keeps :: "bool \<Rightarrow> int \<Rightarrow> 's reader \<Rightarrow> 's reader \<Rightarrow> bool" where
  "keeps dbg base rd rd' \<longleftrightarrow> reader_inv dbg base rd' \<and> rd_max rd' = rd_max rd \<and> others rd' = others rd \<and>
     (\<forall>x \<in> others rd. p_heap (rd_pool rd') ! x = p_heap (rd_pool rd) ! x)"

text \<open>A source that records the bytes it delivered, and the contract of \<open>io.Reader\<close> that a source
  has written the bytes it reports.\<close>

definition logged :: "'s source \<Rightarrow> ('s \<times> byte list) source" where
  "logged src k st =
     (let ((n, bs, e), s) = src k (fst st)
      in ((n, bs, e), (s, snd st @ (if 0 \<le> n \<and> n \<le> int k then take (nat n) bs else []))))"

definition honest :: "'s source \<Rightarrow> bool" where
  "honest src \<longleftrightarrow> (\<forall>k s n bs e s'. src k s = ((n, bs, e), s') \<and> n \<le> int k \<longrightarrow> n \<le> int (length bs))"

abbreviation delivered :: "('s \<times> byte list) reader \<Rightarrow> byte list" where
  "delivered rd \<equiv> snd (rd_src rd)"

definition advances :: "bool \<Rightarrow> int \<Rightarrow> ('s \<times> byte list) reader \<Rightarrow> ('s \<times> byte list) reader \<Rightarrow> byte list \<Rightarrow> bool" where
  "advances dbg base rd rd' new \<longleftrightarrow> keeps dbg base rd rd' \<and> rd_done rd' = rd_done rd \<and>
     Buffered rd' = Buffered rd @ new \<and> delivered rd' = delivered rd @ new"

lemma keeps_refl: "reader_inv dbg base rd \<Longrightarrow> keeps dbg base rd rd"
  by (simp add: keeps_def)

lemma keeps_trans: "keeps dbg base a b \<Longrightarrow> keeps dbg base b c \<Longrightarrow> keeps dbg base a c"
  by (simp add: keeps_def)

lemma advances_refl: "reader_inv dbg base rd \<Longrightarrow> advances dbg base rd rd []"
  by (simp add: advances_def keeps_refl)

lemma advances_trans: "advances dbg base a b xs \<Longrightarrow> advances dbg base b c ys \<Longrightarrow> advances dbg base a c (xs @ ys)"
  by (auto simp: advances_def intro: keeps_trans)

lemma advances_inv: "advances dbg base a b xs \<Longrightarrow> reader_inv dbg base b"
  by (simp add: advances_def keeps_def)

lemma length_Buffered: "reader_inv dbg base rd \<Longrightarrow> length (Buffered rd) = Reader_Len rd"
  by (auto simp: Buffered_def Reader_Len_def reader_inv_def split: if_splits)

lemma data_of_update [simp]:
  "data_of (rd\<lparr>rd_src := s\<rparr>) = data_of rd" "data_of (rd\<lparr>rd_w := w\<rparr>) = data_of rd" "data_of (rd\<lparr>rd_r := r\<rparr>) = data_of rd"
  "data_of (rd\<lparr>rd_last := l\<rparr>) = data_of rd" "data_of (rd\<lparr>rd_err := e\<rparr>) = data_of rd" "data_of (rd\<lparr>rd_done := d\<rparr>) = data_of rd"
  by (simp_all add: data_of_def split: dataref.splits)

lemma copy_at_Nil_iff [simp]: "copy_at i xs ys = [] \<longleftrightarrow> ys = []" "[] = copy_at i xs ys \<longleftrightarrow> ys = []"
  by (metis length_0_conv length_copy_at)+

lemma write_data_sel [simp]:
  "rd_src (write_data i xs rd) = rd_src rd" "rd_big (write_data i xs rd) = rd_big rd" "rd_data (write_data i xs rd) = rd_data rd"
  "rd_r (write_data i xs rd) = rd_r rd" "rd_w (write_data i xs rd) = rd_w rd" "rd_last (write_data i xs rd) = rd_last rd"
  "rd_err (write_data i xs rd) = rd_err rd" "rd_max (write_data i xs rd) = rd_max rd" "rd_done (write_data i xs rd) = rd_done rd"
  "length (rd_idle (write_data i xs rd)) = length (rd_idle rd)" "rd_idle (write_data i xs rd) = [] \<longleftrightarrow> rd_idle rd = []"
  by (auto simp: write_data_def split: dataref.splits)

text \<open>Writing into the reader's own memory.\<close>

lemma write_data_ok:
  assumes inv: "reader_inv dbg base rd"
  shows "data_of (write_data i xs rd) = copy_at i xs (data_of rd)"
    and "pool_inv dbg base (rd_pool (write_data i xs rd))"
    and "live_addrs (rd_pool (write_data i xs rd)) = live_addrs (rd_pool rd)"
    and "\<forall>x \<in> others rd. p_heap (rd_pool (write_data i xs rd)) ! x = p_heap (rd_pool rd) ! x"
proof -
  have "data_of (write_data i xs rd) = copy_at i xs (data_of rd) \<and> pool_inv dbg base (rd_pool (write_data i xs rd)) \<and>
    live_addrs (rd_pool (write_data i xs rd)) = live_addrs (rd_pool rd) \<and>
    (\<forall>x \<in> others rd. p_heap (rd_pool (write_data i xs rd)) ! x = p_heap (rd_pool rd) ! x)"
  proof (cases "rd_data rd")
    case (DBig a)
    then have a: "rd_big rd = Some a" "a \<in> live_addrs (rd_pool rd)"
      using inv by (auto simp: reader_inv_def split: if_splits option.splits)
    have p: "pool_inv dbg base (rd_pool rd)" using inv by (simp add: reader_inv_def)
    show ?thesis using write_live [OF p a(2), of i xs] DBig a(1)
      by (simp add: write_data_def data_of_def others_def)
  qed (use inv in \<open>simp_all add: write_data_def data_of_def reader_inv_def copy_at_def\<close>)
  then show "data_of (write_data i xs rd) = copy_at i xs (data_of rd)"
    and "pool_inv dbg base (rd_pool (write_data i xs rd))"
    and "live_addrs (rd_pool (write_data i xs rd)) = live_addrs (rd_pool rd)"
    and "\<forall>x \<in> others rd. p_heap (rd_pool (write_data i xs rd)) ! x = p_heap (rd_pool rd) ! x" by simp_all
qed

lemma write_data_keeps: "reader_inv dbg base rd \<Longrightarrow> keeps dbg base rd (write_data i xs rd)"
  using write_data_ok [of dbg base rd i xs] by (auto simp: keeps_def others_def reader_inv_def split: option.splits)

section \<open>Making room\<close>

lemma compact_ok:
  assumes inv: "reader_inv dbg base rd" and nd: "\<not> rd_done rd"
  shows "advances dbg base rd (compact_data rd) []" and "length (data_of (compact_data rd)) = length (data_of rd)"
    and "rd_r (compact_data rd) = 0" and "rd_w (compact_data rd) = Reader_Len rd"
proof -
  let ?rd = "write_data 0 (Buffered rd) rd"
  note w = write_data_ok [OF inv, of 0 "Buffered rd"] and k = write_data_keeps [OF inv, of 0 "Buffered rd"]
  note len = length_Buffered [OF inv]
  have le: "Reader_Len rd \<le> length (data_of rd)" using inv nd by (auto simp: reader_inv_def Reader_Len_def)
  have d: "data_of (compact_data rd) = copy_at 0 (Buffered rd) (data_of rd)" using w(1) by (simp add: compact_data_def)
  show "length (data_of (compact_data rd)) = length (data_of rd)" by (simp add: d)
  show r0: "rd_r (compact_data rd) = 0" and wl: "rd_w (compact_data rd) = Reader_Len rd" using le len by (simp_all add: compact_data_def)
  have "Buffered (compact_data rd) = Buffered rd"
    using copy_at_take [of 0 "Buffered rd" "data_of rd"] le len r0 wl by (simp add: Buffered_def [of "compact_data rd"] d)
  moreover have "reader_inv dbg base (compact_data rd)"
    using k nd le r0 wl unfolding keeps_def reader_inv_def by (simp add: compact_data_def d w(1) split: option.splits)
  ultimately show "advances dbg base rd (compact_data rd) []"
    using k by (simp add: advances_def keeps_def compact_data_def others_def)
qed

lemma Capacity_grow:
  assumes "0 \<le> len" and "len < need" and "need \<le> mx"
  shows "len < min (Capacity (max need (len + 1))) mx" and "need \<le> min (Capacity (max need (len + 1))) mx"
  using assms Capacity_holds [of "max need (len + 1)"] by simp_all

lemma grow_ok:
  assumes inv: "reader_inv dbg base rd" and nd: "\<not> rd_done rd"
    and need: "int (length (data_of rd)) < need" "need \<le> rd_max rd"
  obtains (no_buffer) "grow dbg need rd = Ret (Some ErrNoBuffer) rd"
  | (grown) rd' where "grow dbg need rd = Ret None rd'" "advances dbg base rd rd' []"
      "need \<le> int (length (data_of rd'))" "rd_r rd' = 0" "rd_w rd' = Reader_Len rd"
proof -
  let ?len = "int (length (data_of rd))" and ?p = "rd_pool rd"
  let ?size = "min (Capacity (max need (?len + 1))) (rd_max rd)"
  have p: "pool_inv dbg base ?p" and mx: "rd_max rd \<le> maxAlloc" using inv nd by (simp_all add: reader_inv_def)
  have size: "?len < ?size" "need \<le> ?size" using Capacity_grow [OF _ need] by simp_all
  have nle: "\<not> ?size \<le> ?len" unfolding not_le by (rule size(1))
  have sz: "0 \<le> ?size" "?size \<le> maxAlloc" using size(1) mx by simp_all
  from p sz show thesis
  proof (cases rule: Pool_Get_result)
    case (refused b)
    then have "grow dbg need rd = Ret (Some ErrNoBuffer) (rd\<lparr>rd_pool := ?p\<rparr>)"
      by (simp add: grow_def Let_def nle del: min_le_iff_disj)
    then show thesis using no_buffer by simp
  next
    case (got b p1)
    have big: "set_option (rd_big rd) \<subseteq> live_addrs ?p" using inv nd by (auto simp: reader_inv_def split: option.splits)
    have d1: "data_of (rd\<lparr>rd_pool := p1\<rparr>) = data_of rd"
      using got(7) inv nd by (auto simp: data_of_def reader_inv_def split: option.splits dataref.splits)
    let ?xs = "Buffered rd" and ?rd1 = "rd\<lparr>rd_pool := upd_Buf b (Buf_write 0 (Buffered rd)) p1, rd_w := Reader_Len rd, rd_r := 0\<rparr>"
    have xs: "Buffered (rd\<lparr>rd_pool := p1\<rparr>) = ?xs" by (simp add: Buffered_def d1)
    have b: "b \<in> live_addrs p1" "b \<notin> set_option (rd_big rd)" using got(3,4) big by auto
    note w = write_live [OF got(2) b(1), of 0 ?xs]
    have lb: "length (Buf_B (p_heap p1 ! b)) = nat ?size"
      by (simp only: Buf_B_def got(6) option.case length_take buf_cap_def [symmetric] got(5)
          min.absorb2 [OF nat_mono [OF Capacity_holds]])
    have fit: "Reader_Len rd \<le> nat ?size" using size(1) inv nd by (auto simp: reader_inv_def Reader_Len_def)
    note len = length_Buffered [OF inv]
    have wmin: "min (length (Buf_B (p_heap p1 ! b))) (length ?xs) = Reader_Len rd" using lb fit len by simp
    obtain p2 where p2: "Buf_Release dbg (rd_big rd) (rd_pool ?rd1) = Ret () p2" "pool_inv dbg base p2"
      "live_addrs p2 = live_addrs p1 - set_option (rd_big rd)"
      "\<forall>x \<in> live_addrs p1 - set_option (rd_big rd). p_heap p2 ! x = p_heap (rd_pool ?rd1) ! x"
    proof (cases "rd_big rd")
      case None
      then show thesis using that [of "rd_pool ?rd1"] w by simp
    next
      case (Some a)
      then have "a \<in> live_addrs (rd_pool ?rd1)" using big w(2) got(4) by simp
      with w(1) show thesis using that Some w(2) by (auto elim: Buf_Release_live)
    qed
    define rd' where "rd' = ?rd1\<lparr>rd_pool := p2, rd_big := Some b, rd_data := DBig b\<rparr>"
    have "b \<in> live_addrs p1 - set_option (rd_big rd)" using b by simp
    then have hb: "p_heap p2 ! b = p_heap (rd_pool ?rd1) ! b" using p2(4) by blast
    have d': "data_of rd' = copy_at 0 ?xs (Buf_B (p_heap p1 ! b))"
      using w(3) hb by (simp add: data_of_def rd'_def)
    have ld: "length (data_of rd') = nat ?size" using d' lb by simp
    have "Buffered rd' = ?xs"
      using copy_at_take [of 0 ?xs "Buf_B (p_heap p1 ! b)"] lb fit len by (simp add: Buffered_def [of rd'] d') (simp add: rd'_def)
    moreover have "reader_inv dbg base rd'"
      using p2(2,3) b fit ld sz size(1) inv nd unfolding reader_inv_def by (simp add: rd'_def [symmetric]) (simp add: rd'_def)
    moreover have o: "others rd' = others rd" using got(3,4) p2(3) b(2) by (auto simp: others_def rd'_def)
    moreover have "p_heap p2 ! x = p_heap ?p ! x" if "x \<in> others rd" for x
    proof -
      have "x \<in> live_addrs p1 - set_option (rd_big rd)" "x \<noteq> b" "x \<in> live_addrs ?p"
        using that got(3,4) by (auto simp: others_def)
      then show ?thesis using p2(4) got(7) by simp
    qed
    ultimately have "advances dbg base rd rd' []" by (simp add: advances_def keeps_def) (simp add: rd'_def)
    moreover have "grow dbg need rd = Ret None rd'"
      using got(1) p2(1) by (simp add: grow_def Let_def nle xs wmin rd'_def del: min_le_iff_disj)
    moreover have "int (length (data_of rd')) = ?size" unfolding ld using sz(1) by (rule int_nat_eq [THEN trans, OF if_P])
    moreover have "rd_r rd' = 0" "rd_w rd' = Reader_Len rd" by (simp_all add: rd'_def)
    ultimately show thesis using grown [of rd'] size(2) by simp
  qed
qed

lemma ensure_ok:
  assumes inv: "reader_inv dbg base rd" and nd: "\<not> rd_done rd" and n: "int (Reader_Len rd) < n"
  obtains (too_large) "n > rd_max rd" "ensure dbg n rd = Ret (Some ErrTooLarge) rd"
  | (no_buffer) "n \<le> rd_max rd" "ensure dbg n rd = Ret (Some ErrNoBuffer) rd"
  | (room) rd' where "n \<le> rd_max rd" "ensure dbg n rd = Ret None rd'" "advances dbg base rd rd' []"
      "int (rd_r rd') + n \<le> int (length (data_of rd'))" "rd_w rd' < length (data_of rd')"
proof (cases "n \<le> rd_max rd")
  case False
  then show thesis using too_large by (simp add: ensure_def Let_def)
next
  case mx: True
  show thesis
  proof (cases "int (length (data_of rd)) < n")
    case True
    then have e: "ensure dbg n rd = grow dbg n rd" using mx by (simp add: ensure_def Let_def)
    from inv nd True mx show thesis
    proof (cases rule: grow_ok)
      case no_buffer
      then show thesis using that(2) e mx by simp
    next
      case (grown rd')
      then show thesis using that(3) e mx n by simp
    qed
  next
    case False
    note c = compact_ok [OF inv nd]
    have lw: "rd_r rd \<le> rd_w rd" "rd_w rd \<le> length (data_of rd)" using inv nd by (simp_all add: reader_inv_def)
    consider (fits) "rd_w rd < length (data_of rd)" "int (length (data_of rd)) - int (rd_r rd) \<ge> n"
      | (move) "\<not> (rd_w rd < length (data_of rd) \<and> int (length (data_of rd)) - int (rd_r rd) \<ge> n)" "rd_r rd > 0"
    proof (cases "rd_r rd = 0")
      case True
      then show ?thesis using that(1) lw n False by (simp add: Reader_Len_def)
    qed (use that in auto)
    then show thesis
    proof cases
      case fits
      then show thesis using that(3) [of rd] mx False advances_refl [OF inv] by (simp add: ensure_def Let_def)
    next
      case move
      then have "ensure dbg n rd = Ret None (compact_data rd)"
        using mx False c n by (auto simp: ensure_def Let_def)
      then show thesis using that(3) [of "compact_data rd"] mx False c n by simp
    qed
  qed
qed

section \<open>Reading\<close>

lemma data_of_src [simp]: "write_data i xs (rd\<lparr>rd_src := s\<rparr>) = (write_data i xs rd)\<lparr>rd_src := s\<rparr>"
  by (simp add: write_data_def split: dataref.splits)

lemma keeps_src:
  "reader_inv dbg base (rd\<lparr>rd_src := s\<rparr>) = reader_inv dbg base rd" "others (rd\<lparr>rd_src := s\<rparr>) = others rd"
  "keeps dbg base rd' (rd\<lparr>rd_src := s\<rparr>) = keeps dbg base rd' rd"
  by (simp_all add: reader_inv_def others_def keeps_def split: option.splits)

lemma keeps_err: "keeps dbg base rd rd' \<Longrightarrow> from_source e \<Longrightarrow> keeps dbg base rd (rd'\<lparr>rd_err := Some e\<rparr>)"
  by (auto simp: keeps_def reader_inv_def others_def split: option.splits if_splits)

text \<open>The loop of \<open>readOnce\<close> changes nothing below \<open>w\<close>, and what it reports is what was delivered.\<close>

lemma read_loop_ok:
  assumes "honest src" and "reader_inv dbg base rd" and "read_loop (logged src) k rd = (x, rd')"
  shows "keeps dbg base rd rd' \<and> rd_done rd' = rd_done rd \<and> rd_r rd' = rd_r rd \<and> rd_w rd' = rd_w rd \<and>
    rd_err rd' = rd_err rd \<and> rd_big rd' = rd_big rd \<and> rd_data rd' = rd_data rd \<and>
    length (data_of rd') = length (data_of rd) \<and> take (rd_w rd) (data_of rd') = take (rd_w rd) (data_of rd) \<and>
    (case x of
       None \<Rightarrow> delivered rd' = delivered rd
     | Some (n, e) \<Rightarrow> (n \<noteq> 0 \<or> e \<noteq> None) \<and>
         delivered rd' = delivered rd @
           (if 0 \<le> n \<and> n \<le> int (length (data_of rd) - rd_w rd) then take (nat n) (drop (rd_w rd) (data_of rd')) else []))"
  using assms(2,3)
proof (induction k arbitrary: rd)
  case 0
  then show ?case by (simp add: keeps_refl)
next
  case (Suc k)
  let ?room = "length (data_of rd) - rd_w rd"
  obtain n bs e s where src: "src ?room (fst (rd_src rd)) = ((n, bs, e), s)" by (metis prod.collapse)
  define new where "new = (if 0 \<le> n \<and> n \<le> int ?room then take (nat n) bs else [])"
  define rd1 where "rd1 = (write_data (rd_w rd) bs rd)\<lparr>rd_src := (s, delivered rd @ new)\<rparr>"
  have d1: "data_of rd1 = copy_at (rd_w rd) bs (data_of rd)" using write_data_ok(1) [OF Suc.prems(1)] by (simp add: rd1_def)
  have k1: "keeps dbg base rd rd1" using write_data_keeps [OF Suc.prems(1)] by (simp add: rd1_def keeps_src)
  have sel: "rd_done rd1 = rd_done rd" "rd_r rd1 = rd_r rd" "rd_w rd1 = rd_w rd" "rd_err rd1 = rd_err rd" "rd_big rd1 = rd_big rd"
    "rd_data rd1 = rd_data rd" "length (data_of rd1) = length (data_of rd)" "take (rd_w rd) (data_of rd1) = take (rd_w rd) (data_of rd)"
    "delivered rd1 = delivered rd @ new"
    using d1 take_copy_at [of "rd_w rd" "rd_w rd" bs "data_of rd"] by (simp_all add: rd1_def)
  have run: "read_loop (logged src) (Suc k) rd = (if n \<noteq> 0 \<or> e \<noteq> None then (Some (n, e), rd1) else read_loop (logged src) k rd1)"
    by (simp add: logged_def src new_def rd1_def Let_def)
  show ?case
  proof (cases "n \<noteq> 0 \<or> e \<noteq> None")
    case True
    have "new = take (nat n) (drop (rd_w rd) (data_of rd1))" if "0 \<le> n" "n \<le> int ?room"
    proof -
      have "n \<le> int (length bs)" using assms(1) src that(2) unfolding honest_def by blast
      moreover have "rd_w rd \<le> length (data_of rd)" using Suc.prems(1) by (auto simp: reader_inv_def split: if_splits)
      moreover have "nat n \<le> length bs" "nat n \<le> ?room" using calculation(1) that by simp_all
      ultimately show ?thesis using that by (simp add: new_def d1 copy_at_def)
    qed
    then show ?thesis using True k1 sel run Suc.prems(2) by (auto simp: new_def)
  next
    case False
    then have "new = []" "read_loop (logged src) k rd1 = (x, rd')" using run Suc.prems(2) by (simp_all add: new_def)
    moreover have "reader_inv dbg base rd1" using k1 by (simp add: keeps_def)
    ultimately show ?thesis using Suc.IH [of rd1] sel keeps_trans [OF k1]
      by (simp split: option.splits prod.splits)
  qed
qed

lemma readOnce_ok:
  assumes h: "honest src" and inv: "reader_inv dbg base rd" and nd: "\<not> rd_done rd"
    and ro: "readOnce (logged src) rd = (err, rd')"
  obtains new where "advances dbg base rd rd' new" "new = [] \<longleftrightarrow> err \<noteq> None"
    "rd_r rd' = rd_r rd" "length (data_of rd') = length (data_of rd)" "\<And>e. err = Some e \<Longrightarrow> from_source e"
proof (cases "rd_err rd")
  case (Some e)
  then have r: "err = Some e" "rd' = rd" using ro by (simp_all add: readOnce_def)
  have "from_source e" using inv Some by (simp add: reader_inv_def)
  then show thesis using that [of "[]"] r advances_refl [OF inv] by simp
next
  case None
  obtain x rd1 where loop: "read_loop (logged src) maxEmptyReads rd = (x, rd1)" by (cases "read_loop (logged src) maxEmptyReads rd")
  note l = read_loop_ok [OF h inv loop]
  have inv1: "reader_inv dbg base rd1" using l by (simp add: keeps_def)
  have B1: "Buffered rd1 = Buffered rd" using l by (simp add: Buffered_def)
  have w: "rd_r rd \<le> rd_w rd" "rd_w rd \<le> length (data_of rd)" using inv nd by (simp_all add: reader_inv_def)
  show thesis
  proof (cases x)
    case x: None
    then have r: "rd' = rd1" "err = Some ErrNoProgress" using ro None loop by (simp_all add: readOnce_def)
    show thesis using that [of "[]"] l B1 r x by (simp add: advances_def)
  next
    case x: (Some ne)
    obtain n e where ne: "ne = (n, e)" by force
    let ?bad = "n < 0 \<or> n > int (length (data_of rd1)) - int (rd_w rd1)"
    show thesis
    proof (cases ?bad)
      case True
      then have r: "rd' = rd1\<lparr>rd_err := Some ErrInvalidCount\<rparr>" "err = Some ErrInvalidCount"
        using ro None loop x ne by (auto simp: readOnce_def)
      have "keeps dbg base rd rd'" using l by (simp add: r keeps_err)
      moreover have "delivered rd1 = delivered rd" using l x ne True w by (auto simp: of_nat_diff)
      moreover have "Buffered rd' = Buffered rd" using B1 by (simp add: r Buffered_def)
      ultimately show thesis using that [of "[]"] l r by (simp add: advances_def)
    next
      case False
      define new where "new = take (nat n) (drop (rd_w rd) (data_of rd1))"
      have n: "0 \<le> n" "nat n \<le> length (data_of rd) - rd_w rd" using False l by auto
      have sel1: "rd_w rd1 = rd_w rd" "rd_r rd1 = rd_r rd" "rd_big rd1 = rd_big rd" "rd_data rd1 = rd_data rd"
        "rd_done rd1 = rd_done rd" "rd_err rd1 = None" "length (data_of rd1) = length (data_of rd)"
        and ne0: "n \<noteq> 0 \<or> e \<noteq> None" using l None x ne by simp_all
      have "readOnce (logged src) rd = (if n > 0 then None else map_option ErrSource e,
          rd1\<lparr>rd_w := rd_w rd1 + nat n, rd_last := nat n, rd_err := map_option ErrSource e\<rparr>)"
        using False loop None x ne sel1(6) ne0 n(1) by (cases rd1; cases e) (auto simp: readOnce_def Let_def)
      then have fields: "rd_w rd' = rd_w rd + nat n" "rd_pool rd' = rd_pool rd1" "rd_big rd' = rd_big rd" "rd_data rd' = rd_data rd"
        "rd_r rd' = rd_r rd" "rd_idle rd' = rd_idle rd1" "rd_max rd' = rd_max rd1" "rd_done rd' = rd_done rd" "rd_src rd' = rd_src rd1"
        "rd_err rd' = map_option ErrSource e" and err: "err = (if n > 0 then None else map_option ErrSource e)"
        using ro sel1 by auto
      have d: "data_of rd' = data_of rd1" by (simp add: data_of_def fields(2,4,6) sel1(4) split: dataref.splits)
      have "Buffered rd' = Buffered rd @ new"
        using w l by (simp add: Buffered_def fields d new_def take_add)
      moreover have "delivered rd' = delivered rd @ new" using l x ne n by (simp add: new_def fields)
      moreover have "rd_w rd' \<le> length (data_of rd')" "rd_r rd' = rd_w rd' \<longrightarrow> rd_w rd' = 0"
        using n w d fields(1,5) sel1(7) inv nd by (auto simp: reader_inv_def)
      then have "reader_inv dbg base rd'"
        using inv1 nd fields sel1 d w(1) by (auto simp: reader_inv_def split: option.splits)
      moreover have "others rd' = others rd1" using fields sel1 by (simp add: others_def)
      ultimately have "advances dbg base rd rd' new" using l fields by (simp add: advances_def keeps_def)
      moreover have "length new = nat n" using n l by (simp add: new_def)
      then have "new = [] \<longleftrightarrow> err \<noteq> None" using n(1) l x ne err by auto
      moreover have "from_source y" if "err = Some y" for y using that err by (auto split: if_splits)
      ultimately show thesis using that [of new] fields(5) d sel1(7) by simp
    qed
  qed
qed

section \<open>The operations\<close>

lemma Reader_Len_Buffered: "advances dbg base rd rd' new \<Longrightarrow> reader_inv dbg base rd \<Longrightarrow>
    Reader_Len rd' = Reader_Len rd + length new"
  using length_Buffered [of dbg base rd] length_Buffered [of dbg base rd'] by (simp add: advances_def keeps_def)

lemma peeked:
  assumes "reader_inv dbg base rd" and "n \<le> Reader_Len rd"
  shows "take n (drop (rd_r rd) (data_of rd)) = take n (Buffered rd)"
  using assms by (simp add: Buffered_def Reader_Len_def drop_take min_def)

text \<open>\<open>Peek\<close> returns: every pass of its loop that continues has buffered at least one more byte.\<close>

lemma Peek_loop_ok:
  assumes "honest src" and "reader_inv dbg base rd" and "\<not> rd_done rd" and "0 \<le> n" and "n \<le> rd_max rd"
  shows "\<exists>ys err rd' new. Peek_loop dbg (logged src) n rd = Some (Ret (ys, err) rd') \<and> advances dbg base rd rd' new \<and>
    (case err of None \<Rightarrow> ys = take (nat n) (Buffered rd') \<and> length ys = nat n
     | Some e \<Rightarrow> ys = Buffered rd' \<and> int (length ys) < n \<and> (e = ErrNoBuffer \<or> from_source e))"
  using assms(2,3,5)
proof (induction "nat n - Reader_Len rd" arbitrary: rd rule: less_induct)
  case less
  note inv = less.prems(1) and nd = less.prems(2) and mx = less.prems(3)
  note code = Peek_loop.simps [of dbg "logged src" n rd]
  show ?case
  proof (cases "int (Reader_Len rd) < n")
    case False
    then have "nat n \<le> Reader_Len rd" using assms(4) by simp
    then show ?thesis using code False peeked [OF inv] advances_refl [OF inv] length_Buffered [OF inv]
      by (intro exI [of _ "take (nat n) (Buffered rd)"] exI [of _ None] exI [of _ rd] exI [of _ "[]"]) simp
  next
    case True
    from inv nd True show ?thesis
    proof (cases rule: ensure_ok)
      case too_large
      then show ?thesis using mx by simp
    next
      case no_buffer
      then show ?thesis using code True advances_refl [OF inv] length_Buffered [OF inv]
        by (intro exI [of _ "Buffered rd"] exI [of _ "Some ErrNoBuffer"] exI [of _ rd] exI [of _ "[]"]) simp
    next
      case (room rd1)
      obtain err rd2 where ro: "readOnce (logged src) rd1 = (err, rd2)" by (cases "readOnce (logged src) rd1")
      note inv1 = advances_inv [OF room(3)]
      have nd1: "\<not> rd_done rd1" using room(3) nd by (simp add: advances_def)
      from assms(1) inv1 nd1 ro show ?thesis
      proof (cases rule: readOnce_ok)
        case (1 new)
        note adv = advances_trans [OF room(3) 1(1)] and inv2 = advances_inv [OF 1(1)]
        note len = Reader_Len_Buffered [OF adv inv]
        show ?thesis
        proof (cases err)
          case None
          then have "new \<noteq> []" using 1(2) by simp
          then have "nat n - Reader_Len rd2 < nat n - Reader_Len rd" using len True by (cases new) auto
          moreover have "\<not> rd_done rd2" "n \<le> rd_max rd2" using adv nd mx by (simp_all add: advances_def keeps_def)
          ultimately obtain ys e rd' new' where "Peek_loop dbg (logged src) n rd2 = Some (Ret (ys, e) rd')"
            "advances dbg base rd2 rd' new'"
            "case e of None \<Rightarrow> ys = take (nat n) (Buffered rd') \<and> length ys = nat n
             | Some e \<Rightarrow> ys = Buffered rd' \<and> int (length ys) < n \<and> (e = ErrNoBuffer \<or> from_source e)"
            using less.hyps inv2 by blast
          moreover have "Peek_loop dbg (logged src) n rd = Peek_loop dbg (logged src) n rd2"
            using code True room(2) ro None by simp
          ultimately show ?thesis using advances_trans [OF adv] by fastforce
        next
          case (Some e)
          then have new: "new = []" using 1(2) by simp
          then have "Peek_loop dbg (logged src) n rd = Some (Ret (Buffered rd2, Some e) rd2)"
            using code True room(2) ro Some len by simp
          then show ?thesis using adv len True new 1(5) [OF Some] length_Buffered [OF inv2] by fastforce
        qed
      qed
    qed
  qed
qed

lemma Fill_ok:
  assumes "honest src" and inv: "reader_inv dbg base rd" and nd: "\<not> rd_done rd"
  obtains err rd' new where "Fill dbg (logged src) rd = Ret err rd'" "advances dbg base rd rd' new"
    "new = [] \<longleftrightarrow> err \<noteq> None" "err = Some ErrTooLarge \<longleftrightarrow> rd_max rd = int (Reader_Len rd)"
    "\<And>e. err = Some e \<Longrightarrow> e = ErrTooLarge \<or> e = ErrNoBuffer \<or> from_source e"
proof -
  have le: "int (Reader_Len rd) \<le> rd_max rd" using inv nd by (auto simp: reader_inv_def Reader_Len_def)
  have n: "int (Reader_Len rd) < int (Reader_Len rd) + 1" by simp
  from inv nd n show thesis
  proof (cases rule: ensure_ok)
    case too_large
    then show thesis using that [of "Some ErrTooLarge" rd "[]"] nd le advances_refl [OF inv] by (simp add: Fill_def)
  next
    case no_buffer
    then show thesis using that [of "Some ErrNoBuffer" rd "[]"] nd advances_refl [OF inv] by (simp add: Fill_def)
  next
    case (room rd1)
    obtain err rd2 where ro: "readOnce (logged src) rd1 = (err, rd2)" by (cases "readOnce (logged src) rd1")
    have nd1: "\<not> rd_done rd1" using room(3) nd by (simp add: advances_def)
    from assms(1) advances_inv [OF room(3)] nd1 ro show thesis
    proof (cases rule: readOnce_ok)
      case (1 new)
      have "err \<noteq> Some ErrTooLarge" using 1(5) by (metis from_source_simps(4))
      then show thesis
        using that [of err rd2 new] advances_trans [OF room(3) 1(1)] nd room(1,2) ro 1(2,5) by (simp add: Fill_def)
    qed
  qed
qed

text \<open>Dropping the first \<open>k\<close> buffered bytes.\<close>

definition consumes :: "bool \<Rightarrow> int \<Rightarrow> ('s \<times> byte list) reader \<Rightarrow> ('s \<times> byte list) reader \<Rightarrow> nat \<Rightarrow> bool" where
  "consumes dbg base rd rd' k \<longleftrightarrow> keeps dbg base rd rd' \<and> rd_done rd' = rd_done rd \<and>
     Buffered rd' = drop k (Buffered rd) \<and> delivered rd' = delivered rd"

lemma shrink_ok:
  assumes inv: "reader_inv dbg base rd" and nd: "\<not> rd_done rd" and big: "rd_big rd \<noteq> None" and w: "rd_w rd = 0"
  obtains rd' where "shrink dbg rd = Ret () rd'" "consumes dbg base rd rd' 0" "rd_big rd' = None"
proof -
  obtain a where a: "rd_big rd = Some a" using big by blast
  have p: "pool_inv dbg base (rd_pool rd)" "a \<in> live_addrs (rd_pool rd)" using inv nd a by (simp_all add: reader_inv_def)
  from p show thesis
  proof (cases rule: Buf_Release_live)
    case (1 p')
    let ?rd = "rd\<lparr>rd_pool := p', rd_big := None, rd_data := DIdle\<rparr>"
    have "reader_inv dbg base ?rd" using inv nd 1(2) w by (simp add: reader_inv_def data_of_def)
    moreover have "others ?rd = others rd" using 1(3) a by (auto simp: others_def)
    moreover have "Buffered ?rd = Buffered rd" using w by (simp add: Buffered_def)
    ultimately have "consumes dbg base rd ?rd 0" using 1(3,4) a by (auto simp: consumes_def keeps_def others_def)
    then show thesis using that [of ?rd] 1(1) a by (simp add: shrink_def)
  qed
qed

lemma Discard_ok:
  assumes inv: "reader_inv dbg base rd"
  obtains rd' where "Discard dbg n rd = Ret (min (nat n) (Reader_Len rd)) rd'"
    "consumes dbg base rd rd' (min (nat n) (Reader_Len rd))"
proof (cases "n \<le> 0")
  case True
  then show thesis using that [of rd] keeps_refl [OF inv] by (simp add: Discard_def consumes_def)
next
  case False
  define k where "k = min (nat n) (Reader_Len rd)"
  have code: "(if n > int (Reader_Len rd) then Reader_Len rd else nat n) = k" using False by (auto simp: k_def)
  have kl: "k \<le> Reader_Len rd" by (simp add: k_def)
  have rw: "rd_r rd \<le> rd_w rd" using inv by (auto simp: reader_inv_def split: if_splits)
  show thesis
  proof (cases "rd_r rd + k = rd_w rd")
    case False
    let ?rd = "rd\<lparr>rd_r := rd_r rd + k\<rparr>"
    have lt: "rd_r rd + k < rd_w rd" using False kl rw by (simp add: Reader_Len_def)
    then have "reader_inv dbg base ?rd" using inv by (auto simp: reader_inv_def split: if_splits option.splits)
    then have "consumes dbg base rd ?rd k" by (simp add: consumes_def keeps_def others_def Buffered_def add.commute)
    then show thesis using that [of ?rd] False code \<open>\<not> n \<le> 0\<close> by (simp add: Discard_def Let_def k_def)
  next
    case True
    let ?rd = "rd\<lparr>rd_r := 0, rd_w := 0\<rparr>"
    have all: "k = Reader_Len rd" using True rw by (simp add: Reader_Len_def)
    have inv2: "reader_inv dbg base ?rd" using inv by (auto simp: reader_inv_def split: if_splits option.splits)
    have c2: "consumes dbg base rd ?rd k"
      using inv2 length_Buffered [OF inv] all by (simp add: consumes_def keeps_def others_def Buffered_def)
    show thesis
    proof (cases "rd_big rd \<noteq> None \<and> rd_last rd \<le> length (rd_idle rd)")
      case True
      have "\<not> rd_done ?rd" "rd_big ?rd \<noteq> None" "rd_w ?rd = 0" using inv True by (auto simp: reader_inv_def)
      with inv2 obtain rd' where s: "shrink dbg ?rd = Ret () rd'" "consumes dbg base ?rd rd' 0" by (rule shrink_ok)
      have "consumes dbg base rd rd' k" using c2 s(2) keeps_trans by (auto simp: consumes_def)
      then show thesis using that [of rd'] True s(1) code \<open>rd_r rd + k = rd_w rd\<close> \<open>\<not> n \<le> 0\<close> by (simp add: Discard_def Let_def k_def)
    next
      case False
      then show thesis using that [of ?rd] c2 code \<open>rd_r rd + k = rd_w rd\<close> \<open>\<not> n \<le> 0\<close> by (auto simp: Discard_def Let_def k_def)
    qed
  qed
qed

text \<open>\<open>Read\<close> returns buffered bytes, or an error once there are none.\<close>

lemma Read_ok:
  assumes "honest src" and inv: "reader_inv dbg base rd" and nd: "\<not> rd_done rd"
  obtains ys err rd' new where "Reader_Read dbg (logged src) k rd = Ret (ys, err) rd'"
    "keeps dbg base rd rd'" "rd_done rd' = rd_done rd" "Buffered rd @ new = ys @ Buffered rd'" "delivered rd' = delivered rd @ new"
    "\<And>e. err = Some e \<Longrightarrow> ys = [] \<and> Buffered rd' = [] \<and> from_source e" "length ys \<le> k"
    "err = None \<Longrightarrow> 0 < k \<Longrightarrow> ys \<noteq> []"
proof (cases "k = 0")
  case True
  then show thesis using that [of "[]" None rd "[]"] nd keeps_refl [OF inv] by (simp add: Reader_Read_def)
next
  case k: False
  obtain e rd1 where first: "(if Reader_Len rd = 0 then readOnce (logged src) rd else (None, rd)) = (e, rd1)"
    by (cases "if Reader_Len rd = 0 then readOnce (logged src) rd else (None, rd)")
  obtain new where adv: "advances dbg base rd rd1 new" and er: "e \<noteq> None \<longrightarrow> new = [] \<and> Reader_Len rd = 0"
    and en: "e = None \<longrightarrow> Reader_Len rd = 0 \<longrightarrow> new \<noteq> []" and fs: "\<And>x. e = Some x \<Longrightarrow> from_source x"
  proof (cases "Reader_Len rd = 0")
    case True
    then have ro: "readOnce (logged src) rd = (e, rd1)" using first by simp
    from assms(1) inv nd ro show thesis by (cases rule: readOnce_ok) (use True that in auto)
  next
    case False
    then show thesis using that [of "[]"] first advances_refl [OF inv] by auto
  qed
  note inv1 = advances_inv [OF adv] and len = Reader_Len_Buffered [OF adv inv]
  obtain rd2 where d: "Discard dbg (int (min k (Reader_Len rd1))) rd1 = Ret (min k (Reader_Len rd1)) rd2"
    "consumes dbg base rd1 rd2 (min k (Reader_Len rd1))"
    using Discard_ok [OF inv1, of "int (min k (Reader_Len rd1))"] by (metis min.right_idem nat_int)
  show thesis
  proof (cases e)
    case (Some x)
    then have z: "new = []" "Reader_Len rd1 = 0" using er len by simp_all
    then have "Reader_Read dbg (logged src) k rd = Ret ([], Some x) rd1"
      using Some first nd k by (simp add: Reader_Read_def Let_def)
    moreover have "Buffered rd1 = []" using z length_Buffered [OF inv1] by simp
    ultimately show thesis using that [of "[]" "Some x" rd1 "[]"] adv z fs Some by (simp add: advances_def)
  next
    case None
    then have "Reader_Read dbg (logged src) k rd = Ret (take k (Buffered rd1), None) rd2"
      using first nd k d(1) by (simp add: Reader_Read_def Let_def)
    moreover have "take k (Buffered rd1) @ Buffered rd2 = Buffered rd1"
      using d(2) length_Buffered [OF inv1] by (simp add: consumes_def min_def)
    moreover have "Buffered rd1 \<noteq> []" using None en len length_Buffered [OF inv1] by (cases "Reader_Len rd = 0") auto
    moreover have "keeps dbg base rd rd2" using adv d(2) by (auto simp: advances_def consumes_def intro: keeps_trans)
    ultimately show thesis
      using that [of "take k (Buffered rd1)" None rd2 new] adv d(2) k by (simp add: advances_def consumes_def)
  qed
qed

lemma Release_ok:
  assumes inv: "reader_inv dbg base rd"
  obtains rd' where "Reader_Release dbg rd = Ret () rd'" "keeps dbg base rd rd'" "rd_done rd'" "delivered rd' = delivered rd"
    "Buffered rd' = []" "rd_big rd' = None"
proof (cases "rd_done rd")
  case True
  then have "Buffered rd = []" "rd_big rd = None" using inv by (simp_all add: reader_inv_def Buffered_def)
  then show thesis using that [of rd] True keeps_refl [OF inv] by (simp add: Reader_Release_def)
next
  case False
  have p: "pool_inv dbg base (rd_pool rd)" and live: "set_option (rd_big rd) \<subseteq> live_addrs (rd_pool rd)"
    using inv False by (auto simp: reader_inv_def split: option.splits)
  obtain p' where p': "Buf_Release dbg (rd_big rd) (rd_pool rd) = Ret () p'" "pool_inv dbg base p'" "live_addrs p' = others rd"
    "\<forall>x \<in> others rd. p_heap p' ! x = p_heap (rd_pool rd) ! x"
  proof (cases "rd_big rd")
    case None
    then show thesis using that [of "rd_pool rd"] p by (simp add: others_def)
  next
    case (Some a)
    then have "a \<in> live_addrs (rd_pool rd)" using live by simp
    with p show thesis using that Some by (auto elim: Buf_Release_live simp: others_def)
  qed
  let ?rd = "rd\<lparr>rd_done := True, rd_pool := p', rd_big := None, rd_data := DNil, rd_r := 0, rd_w := 0\<rparr>"
  have "keeps dbg base rd ?rd" using p' inv by (simp add: keeps_def reader_inv_def others_def)
  then show thesis using that [of ?rd] p'(1) False by (simp add: Reader_Release_def Let_def Buffered_def)
qed

section \<open>Sequences of calls\<close>

datatype rop = RPeek int | RFill | RDiscard int | RRead nat | RRelease

text \<open>
  What a call shows its caller: the bytes it consumed (for \<open>Discard\<close>, the first bytes of
  \<open>Buffered\<close> before the call), the bytes it returned for inspection, and its error.
\<close>

datatype rout = Out (consumed: "byte list") (shown: "byte list") (failed: "rerr option") | Panicked | Diverged

fun reader_step :: "bool \<Rightarrow> 's source \<Rightarrow> rop \<Rightarrow> 's reader \<Rightarrow> rout \<times> 's reader" where
  "reader_step dbg src (RPeek n) rd =
     (case Peek dbg src n rd of
        None \<Rightarrow> (Diverged, rd)
      | Some (Panic m rd') \<Rightarrow> (Panicked, rd')
      | Some (Ret (ys, e) rd') \<Rightarrow> (Out [] ys e, rd'))"
| "reader_step dbg src RFill rd =
     (case Fill dbg src rd of Panic m rd' \<Rightarrow> (Panicked, rd') | Ret e rd' \<Rightarrow> (Out [] [] e, rd'))"
| "reader_step dbg src (RDiscard n) rd =
     (case Discard dbg n rd of Panic m rd' \<Rightarrow> (Panicked, rd') | Ret k rd' \<Rightarrow> (Out (take k (Buffered rd)) [] None, rd'))"
| "reader_step dbg src (RRead k) rd =
     (case Reader_Read dbg src k rd of Panic m rd' \<Rightarrow> (Panicked, rd') | Ret (ys, e) rd' \<Rightarrow> (Out ys [] e, rd'))"
| "reader_step dbg src RRelease rd =
     (case Reader_Release dbg rd of Panic m rd' \<Rightarrow> (Panicked, rd') | Ret u rd' \<Rightarrow> (Out [] [] None, rd'))"

definition reader_ok :: "bool \<Rightarrow> int \<Rightarrow> ('s \<times> byte list) reader \<Rightarrow> byte list \<Rightarrow> bool" where
  "reader_ok dbg base rd used \<longleftrightarrow> reader_inv dbg base rd \<and>
     (if rd_done rd then take (length used) (delivered rd) = used else delivered rd = used @ Buffered rd)"

definition returned :: "rout \<Rightarrow> bool" where
  "returned x = (case x of Out c s e \<Rightarrow> True | _ \<Rightarrow> False)"

lemma reader_step_ok:
  assumes "honest src" and ok: "reader_ok dbg base rd used"
  shows "returned (fst (reader_step dbg (logged src) e rd)) \<and> keeps dbg base rd (snd (reader_step dbg (logged src) e rd)) \<and>
    reader_ok dbg base (snd (reader_step dbg (logged src) e rd)) (used @ consumed (fst (reader_step dbg (logged src) e rd)))"
  (is "?P e")
proof -
  have inv: "reader_inv dbg base rd" using ok by (simp add: reader_ok_def)
  have discard: "?P (RDiscard n)" for n
  proof -
    from inv show ?thesis
    proof (cases rule: Discard_ok [where n = n])
      case (1 rd')
      let ?k = "min (nat n) (Reader_Len rd)"
      have "take ?k (Buffered rd) @ Buffered rd' = Buffered rd" using 1(2) by (simp add: consumes_def)
      moreover have "Buffered rd = []" if "rd_done rd" using that inv by (simp add: reader_inv_def Buffered_def)
      ultimately show ?thesis using ok 1 by (auto simp: returned_def consumes_def keeps_def reader_ok_def)
    qed
  qed
  have done_case: "?P e" if d: "rd_done rd"
  proof (cases e)
    case (RDiscard n)
    then show ?thesis using discard by (simp only:)
  qed (use ok keeps_refl [OF inv] d in \<open>auto simp: returned_def Peek_def Fill_def Reader_Read_def Reader_Release_def\<close>)
  have "?P e" if nd: "\<not> rd_done rd"
  proof -
    have del: "delivered rd = used @ Buffered rd" using ok nd by (simp add: reader_ok_def)
    show ?thesis
    proof (cases e)
      case (RPeek n)
      show ?thesis
      proof (cases "n < 0 \<or> n > rd_max rd")
        case True
        then show ?thesis using RPeek ok keeps_refl [OF inv] nd by (auto simp: Peek_def returned_def)
      next
        case False
        then obtain ys err rd' new where "Peek_loop dbg (logged src) n rd = Some (Ret (ys, err) rd')" "advances dbg base rd rd' new"
          using Peek_loop_ok [OF assms(1) inv nd, of n] by auto
        then show ?thesis using RPeek False nd del by (simp add: Peek_def returned_def advances_def keeps_def reader_ok_def)
      qed
    next
      case RFill
      from assms(1) inv nd show ?thesis
        by (cases rule: Fill_ok) (use RFill nd del in \<open>simp add: returned_def advances_def keeps_def reader_ok_def\<close>)
    next
      case (RDiscard n)
      then show ?thesis using discard by simp
    next
      case (RRead k)
      from assms(1) inv nd show ?thesis
        by (cases rule: Read_ok [where k = k]) (use RRead nd del in \<open>auto simp: returned_def keeps_def reader_ok_def\<close>)
    next
      case RRelease
      from inv show ?thesis
        by (cases rule: Release_ok) (use RRelease del in \<open>simp add: returned_def keeps_def reader_ok_def\<close>)
    qed
  qed
  then show "?P e" using done_case by blast
qed

lemma reader_run_ok:
  assumes "honest src" and "reader_ok dbg base rd used"
  shows "(\<forall>x \<in> set (fst (run_ops (reader_step dbg (logged src)) es rd)). returned x) \<and>
    keeps dbg base rd (snd (run_ops (reader_step dbg (logged src)) es rd)) \<and>
    reader_ok dbg base (snd (run_ops (reader_step dbg (logged src)) es rd))
      (used @ concat (map consumed (fst (run_ops (reader_step dbg (logged src)) es rd))))"
  using assms(2)
proof (induction es arbitrary: rd used)
  case Nil
  then show ?case by (simp add: keeps_refl reader_ok_def)
next
  case (Cons e es)
  note s = reader_step_ok [OF assms(1) Cons.prems, of e]
  then have "reader_ok dbg base (snd (reader_step dbg (logged src) e rd)) (used @ consumed (fst (reader_step dbg (logged src) e rd)))" by blast
  from Cons.IH [OF this] s show ?case by (auto intro: keeps_trans)
qed

lemma NewReader_ok:
  assumes "NewReader (s, []) (Some p) oIdleSize oMax = Ret rd ()" and "pool_inv dbg base p"
    and "oMax \<le> maxAlloc"
  shows "reader_ok dbg base rd [] \<and> rd_pool rd = p \<and> rd_big rd = None \<and> \<not> rd_done rd \<and>
    rd_max rd = (if oMax = 0 then Large else oMax)"
  using assms
  by (auto simp: NewReader_def Let_def reader_ok_def reader_inv_def data_of_def Buffered_def Large_def maxAlloc_def split: if_splits)

section \<open>Properties\<close>


text \<open>A source with the bytes 1, 2, 3: it delivers two bytes, then the last one with its error.\<close>

definition src123 :: "nat source" where
  "src123 k s = (if s = 0 then ((2, [1, 2], None), 1) else ((1, [3], Some ''EOF''), 2))"

lemma src123_honest: "honest src123"
  by (auto simp: honest_def src123_def split: if_splits)

definition rd4 :: "(nat \<times> byte list) reader" where
  "rd4 = \<lparr>rd_src = (0, []), rd_pool = NewPool (\<lambda>_. None) None, rd_idle = [0, 0, 0, 0], rd_big = None, rd_data = DIdle,
     rd_r = 0, rd_w = 0, rd_last = 0, rd_err = None, rd_max = 100, rd_done = False\<rparr>"

lemma NewReader_4: "NewReader (0, []) (Some (NewPool (\<lambda>_. None) None)) 4 100 = Ret rd4 ()"
  by (simp add: NewReader_def maxAlloc_def rd4_def numeral_eq_Suc)

lemma empty_pool_inv: "pool_inv dbg 0 (NewPool choice None)"
  by (rule NewPool_inv) simp_all

lemma rd4_inv: "reader_inv True 0 rd4" "\<not> rd_done rd4"
  using NewReader_ok [OF NewReader_4 empty_pool_inv, of True] by (simp_all add: reader_ok_def maxAlloc_def)


text \<open>
  C38: Memory. At every point the reader's buffer holds at most \<open>Max\<close> bytes; of the pool's live
  buffers it owns at most one, all others are those that were live before and keep their bytes;
  after \<open>Release\<close> it owns none.
\<close>

theorem reader_memory_is_bounded:
  assumes "honest src" and "NewReader (s, []) (Some p) oIdleSize oMax = Ret rd ()"
    and "pool_inv dbg base p" and "oMax \<le> maxAlloc"
    and "run_ops (reader_step dbg (logged src)) es rd = (outs, rd')"
  shows "int (Reader_Len rd') \<le> int (length (data_of rd')) \<and>
    int (length (data_of rd')) \<le> (if oMax = 0 then Large else oMax) \<and>
    live_addrs (rd_pool rd') = live_addrs p \<union> set_option (rd_big rd') \<and> set_option (rd_big rd') \<inter> live_addrs p = {} \<and>
    (\<forall>x \<in> live_addrs p. p_heap (rd_pool rd') ! x = p_heap p ! x) \<and>
    (rd_done rd' \<longrightarrow> rd_big rd' = None)"
proof -
  note new = NewReader_ok [OF assms(2-4)]
  then have ok: "reader_ok dbg base rd []" by simp
  have k: "keeps dbg base rd rd'" using reader_run_ok [OF assms(1) ok, of es] assms(5) by simp
  then have inv: "reader_inv dbg base rd'" and o: "others rd' = live_addrs p" using new by (simp_all add: keeps_def others_def)
  have big: "set_option (rd_big rd') \<subseteq> live_addrs (rd_pool rd')" using inv by (auto simp: reader_inv_def split: if_splits option.splits)
  have "0 \<le> rd_max rd'" using ok k by (simp add: reader_ok_def keeps_def reader_inv_def) (use new in \<open>auto\<close>)
  then have "int (length (data_of rd')) \<le> rd_max rd'" "Reader_Len rd' \<le> length (data_of rd')"
    using inv by (auto simp: reader_inv_def data_of_def Reader_Len_def split: if_splits)
  moreover have "rd_max rd' = (if oMax = 0 then Large else oMax)" using k new by (simp add: keeps_def)
  ultimately show ?thesis using o big k new inv by (auto simp: others_def keeps_def reader_inv_def split: if_splits)
qed

theorem reader_memory_is_bounded_witness:
  "int (length (data_of (snd (run_ops (reader_step True (logged src123)) [RPeek 3, RPeek 60, RDiscard 2] rd4)))) \<le> 100"
proof -
  have "(100 :: int) \<le> maxAlloc" by (simp add: maxAlloc_def)
  from reader_memory_is_bounded [OF src123_honest NewReader_4 empty_pool_inv this prod.collapse [symmetric],
      of True "[RPeek 3, RPeek 60, RDiscard 2]"]
  show ?thesis by (simp del: run_ops_Cons)
qed

text \<open>
  C39: \<open>Peek(n)\<close> on a reader that is not released returns. Without an error it returns exactly
  the next \<open>n\<close> bytes; with an error it returns all that is buffered, fewer than \<open>n\<close> bytes. A
  count up to \<open>Max\<close> never fails as too large: the error is the pool's or the source's.
\<close>

theorem Peek_returns_n_bytes_or_error:
  assumes "honest src" and "reader_inv dbg base rd" and "\<not> rd_done rd" and "0 \<le> n"
  shows "\<exists>ys err rd' new. Peek dbg (logged src) n rd = Some (Ret (ys, err) rd') \<and>
    Buffered rd' = Buffered rd @ new \<and> delivered rd' = delivered rd @ new \<and>
    (case err of None \<Rightarrow> ys = take (nat n) (Buffered rd') \<and> length ys = nat n
     | Some e \<Rightarrow> ys = Buffered rd' \<and> int (length ys) < n \<and>
         (if n > rd_max rd then e = ErrTooLarge else e = ErrNoBuffer \<or> from_source e))"
proof (cases "n > rd_max rd")
  case True
  have "int (length (Buffered rd)) < n"
    using assms(2,3) True length_Buffered [OF assms(2)] by (auto simp: reader_inv_def Reader_Len_def)
  then show ?thesis using True assms(3,4)
    by (intro exI [of _ "Buffered rd"] exI [of _ "Some ErrTooLarge"] exI [of _ rd] exI [of _ "[]"]) (simp add: Peek_def)
next
  case False
  then obtain ys err rd' new where r: "Peek_loop dbg (logged src) n rd = Some (Ret (ys, err) rd')" "advances dbg base rd rd' new"
    "case err of None \<Rightarrow> ys = take (nat n) (Buffered rd') \<and> length ys = nat n
     | Some e \<Rightarrow> ys = Buffered rd' \<and> int (length ys) < n \<and> (e = ErrNoBuffer \<or> from_source e)"
    using Peek_loop_ok [OF assms(1-4)] by auto
  have "Peek dbg (logged src) n rd = Some (Ret (ys, err) rd')" using r(1) False assms(3,4) by (simp add: Peek_def)
  moreover have "Buffered rd' = Buffered rd @ new" "delivered rd' = delivered rd @ new" using r(2) by (simp_all add: advances_def)
  moreover have "case err of None \<Rightarrow> ys = take (nat n) (Buffered rd') \<and> length ys = nat n
     | Some e \<Rightarrow> ys = Buffered rd' \<and> int (length ys) < n \<and>
         (if n > rd_max rd then e = ErrTooLarge else e = ErrNoBuffer \<or> from_source e)"
    unfolding if_not_P [OF False] by (rule r(3))
  ultimately show ?thesis by (intro exI conjI)
qed

theorem Peek_returns_n_bytes_or_error_witness:
  "\<exists>ys err rd'. Peek True (logged src123) 3 rd4 = Some (Ret (ys, err) rd') \<and> length ys \<le> 3"
proof -
  obtain ys err rd' where "Peek True (logged src123) 3 rd4 = Some (Ret (ys, err) rd')" "length ys \<le> 3"
    using Peek_returns_n_bytes_or_error [OF src123_honest rd4_inv, of 3] by (auto split: option.splits)
  then show ?thesis by blast
qed

text \<open>
  \<open>Read\<close> into a buffer of \<open>k > 0\<close> bytes returns between 1 and \<open>k\<close> bytes and no error, or an
  error of the source and no bytes; it returns the error only when everything the source
  delivered before has been handed out.
\<close>

theorem Read_hands_out_data_before_errors:
  assumes "honest src" and "reader_inv dbg base rd" and "\<not> rd_done rd" and "0 < k"
  shows "\<exists>ys err rd' new. Reader_Read dbg (logged src) k rd = Ret (ys, err) rd' \<and>
    delivered rd' = delivered rd @ new \<and> Buffered rd @ new = ys @ Buffered rd' \<and>
    (case err of None \<Rightarrow> 0 < length ys \<and> length ys \<le> k | Some e \<Rightarrow> ys = [] \<and> Buffered rd' = [] \<and> from_source e)"
  using assms(1-3)
proof (cases rule: Read_ok [where k = k])
  case (1 ys err rd' new)
  then show ?thesis using assms(4) by (intro exI [of _ ys] exI [of _ err] exI [of _ rd'] exI [of _ new]) (auto split: option.splits)
qed

theorem Read_hands_out_data_before_errors_witness:
  "\<exists>ys err rd'. Reader_Read True (logged src123) 7 rd4 = Ret (ys, err) rd' \<and> length ys \<le> 7"
  using Read_hands_out_data_before_errors [OF src123_honest rd4_inv, of 7] by (auto split: option.splits)

end
