(* ===== verification/Stream_Writer.thy ===== *)
theory Stream_Writer
  imports Buf
begin

text \<open>
  \<open>src/stream/writer.go\<close>: the \<open>Writer\<close>, which queues owned and shared buffers and sends them with one
  call. A slice of an owned buffer is its address and length, so its bytes are read from the pool's
  heap when it is sent. The connection is the parameter \<open>dst\<close>; its optional method
  \<open>WriteBuffers\<close> and the standard library's \<open>writeBuffers\<close> are fields that may be absent, and
  \<open>net.Buffers.WriteTo\<close> is written out.

  The lemmas show that \<open>Flush\<close> sends exactly what was queued, in order, as it was when it was
  added, and that every owned buffer is released once by \<open>Flush\<close> or \<open>Discard\<close>, also after a failed
  write. The writer is a client of the ownership contract of the pool.
\<close>

section \<open>Destination\<close>

type_synonym 'd send = "'d \<Rightarrow> (int \<times> string option, 'd) res"

record 'd dst =
  dst_Write :: "byte list \<Rightarrow> 'd send"
  dst_writev :: "(byte list list \<Rightarrow> 'd send) option"
  dst_WriteBuffers :: "(byte list list \<Rightarrow> 'd send) option"

text \<open>\<open>net.Buffers.WriteTo\<close>: the vectored write of the standard library's connections, else one \<open>Write\<close> each.\<close>

fun write_loop :: "(byte list \<Rightarrow> 'd send) \<Rightarrow> byte list list \<Rightarrow> int \<Rightarrow> 'd send" where
  "write_loop W [] n d = Ret (n, None) d"
| "write_loop W (b # bs) n d =
     (case W b d of
        Panic m d1 \<Rightarrow> Panic m d1
      | Ret (nb, err) d1 \<Rightarrow> (if err \<noteq> None then Ret (n + nb, err) d1 else write_loop W bs (n + nb) d1))"

definition Buffers_WriteTo :: "'d dst \<Rightarrow> byte list list \<Rightarrow> 'd send" where
  "Buffers_WriteTo dst v d =
     (case dst_writev dst of Some f \<Rightarrow> f v d | None \<Rightarrow> write_loop (dst_Write dst) v 0 d)"

section \<open>Writer\<close>

text \<open>An element of \<open>vec\<close>: a slice of an owned buffer, or bytes that were lent.\<close>

datatype slice = Owned nat nat | Shared "byte list"

record writer =
  wr_held :: "nat option list"
  wr_vec :: "slice list"
  wr_tmp :: "slice list"
  wr_size :: i64

definition NewWriter :: writer where
  "NewWriter = \<lparr>wr_held = [], wr_vec = [], wr_tmp = [], wr_size = 0\<rparr>"

definition Writer_Add :: "nat option \<Rightarrow> pool \<Rightarrow> writer \<Rightarrow> (unit, writer) res" where
  "Writer_Add b p w =
     (let w1 = w\<lparr>wr_held := wr_held w @ [b]\<rparr>
      in case b of
           None \<Rightarrow> Panic ''runtime error: invalid memory address or nil pointer dereference'' w1
         | Some a \<Rightarrow>
             (let n = length (Buf_B (p_heap p ! a))
              in Ret () (w1\<lparr>wr_vec := wr_vec w1 @ [Owned a n], wr_size := wr_size w1 + of_nat n\<rparr>)))"

definition Writer_AddShared :: "byte list \<Rightarrow> writer \<Rightarrow> writer" where
  "Writer_AddShared xs w =
     (if xs = [] then w else w\<lparr>wr_vec := wr_vec w @ [Shared xs], wr_size := wr_size w + of_nat (length xs)\<rparr>)"

definition Writer_Pending :: "writer \<Rightarrow> nat \<times> i64" where
  "Writer_Pending w = (length (wr_vec w), wr_size w)"

fun discard_loop :: "bool \<Rightarrow> nat option list \<Rightarrow> pool \<Rightarrow> (unit, nat option list \<times> pool) res" where
  "discard_loop dbg [] p = Ret () ([], p)"
| "discard_loop dbg (b # bs) p =
     (case Buf_Release dbg b p of
        Panic m p1 \<Rightarrow> Panic m (b # bs, p1)
      | Ret u p1 \<Rightarrow>
          (case discard_loop dbg bs p1 of
             Panic m (hs, p2) \<Rightarrow> Panic m (None # hs, p2)
           | Ret u (hs, p2) \<Rightarrow> Ret u (None # hs, p2)))"

definition Writer_Discard :: "bool \<Rightarrow> writer \<Rightarrow> pool \<Rightarrow> (unit, writer \<times> pool) res" where
  "Writer_Discard dbg w p =
     (case discard_loop dbg (wr_held w) p of
        Panic m (hs, p1) \<Rightarrow> Panic m (w\<lparr>wr_held := hs\<rparr>, p1)
      | Ret u (hs, p1) \<Rightarrow> Ret () (w\<lparr>wr_held := [], wr_vec := [], wr_tmp := [], wr_size := 0\<rparr>, p1))"

definition slice_bytes :: "pool \<Rightarrow> slice \<Rightarrow> byte list" where
  "slice_bytes p x = (case x of Owned a n \<Rightarrow> take n (bf_full (p_heap p ! a)) | Shared xs \<Rightarrow> xs)"

definition Flush_write :: "'d dst \<Rightarrow> writer \<Rightarrow> pool \<Rightarrow> 'd send" where
  "Flush_write dst w p d =
     (let v = map (slice_bytes p) (wr_vec w)
      in case v of
           [] \<Rightarrow> Ret (0, None) d
         | [x] \<Rightarrow> dst_Write dst x d
         | _ \<Rightarrow> (case dst_WriteBuffers dst of Some f \<Rightarrow> f v d | None \<Rightarrow> Buffers_WriteTo dst v d))"

definition Writer_Flush :: "bool \<Rightarrow> 'd dst \<Rightarrow> writer \<Rightarrow> pool \<Rightarrow> 'd \<Rightarrow> (int \<times> string option, writer \<times> pool \<times> 'd) res" where
  "Writer_Flush dbg dst w p d =
     (if wr_vec w = [] then Ret (0, None) (w, p, d)
      else (let w1 = (if 2 \<le> length (wr_vec w) then w\<lparr>wr_tmp := wr_vec w\<rparr> else w)
            in case Flush_write dst w1 p d of
                 Panic m d1 \<Rightarrow> Panic m (w1, p, d1)
               | Ret r d1 \<Rightarrow>
                   (case Writer_Discard dbg w1 p of
                      Panic m (w2, p2) \<Rightarrow> Panic m (w2, p2, d1)
                    | Ret u (w2, p2) \<Rightarrow> Ret r (w2, p2, d1))))"

section \<open>Sending\<close>

text \<open>
  The contract of \<open>io.Writer\<close>: it consumes a prefix, and all of it unless it returns an error.
  \<open>rcv\<close> is what the other end of the connection has received.
\<close>

definition sends :: "('d \<Rightarrow> byte list) \<Rightarrow> byte list \<Rightarrow> 'd \<Rightarrow> (int \<times> string option, 'd) res \<Rightarrow> bool" where
  "sends rcv xs d r \<longleftrightarrow> (\<exists>n e d'. r = Ret (int n, e) d' \<and> n \<le> length xs \<and> rcv d' = rcv d @ take n xs \<and>
     (e = None \<longrightarrow> n = length xs))"

definition honest_dst :: "('d \<Rightarrow> byte list) \<Rightarrow> 'd dst \<Rightarrow> bool" where
  "honest_dst rcv dst \<longleftrightarrow> (\<forall>xs d. sends rcv xs d (dst_Write dst xs d)) \<and>
     (\<forall>f v d. dst_writev dst = Some f \<longrightarrow> sends rcv (concat v) d (f v d)) \<and>
     (\<forall>f v d. dst_WriteBuffers dst = Some f \<longrightarrow> sends rcv (concat v) d (f v d))"

lemma write_loop_sends:
  assumes "\<And>xs d. sends rcv xs d (W xs d)"
  shows "\<exists>k e d'. write_loop W v (int n) d = Ret (int (n + k), e) d' \<and> k \<le> length (concat v) \<and>
    rcv d' = rcv d @ take k (concat v) \<and> (e = None \<longrightarrow> k = length (concat v))"
proof (induction v arbitrary: n d)
  case (Cons x v)
  obtain k e d1 where W: "W x d = Ret (int k, e) d1" "k \<le> length x" "rcv d1 = rcv d @ take k x" "e = None \<longrightarrow> k = length x"
    using assms [of x d] unfolding sends_def by blast
  show ?case
  proof (cases "e = None")
    case True
    obtain j e' d' where "write_loop W v (int (n + k)) d1 = Ret (int (n + k + j), e') d'" "j \<le> length (concat v)"
      "rcv d' = rcv d1 @ take j (concat v)" "e' = None \<longrightarrow> j = length (concat v)" using Cons.IH [of "n + k" d1] by blast
    then show ?thesis using W True by (intro exI [of _ "k + j"] exI [of _ e'] exI [of _ d']) (simp add: add.assoc)
  next
    case False
    then show ?thesis using W by (intro exI [of _ k] exI [of _ e] exI [of _ d1]) auto
  qed
qed simp

lemma Flush_write_sends:
  assumes "honest_dst rcv dst" and "map (slice_bytes p) (wr_vec w) = cs"
  shows "sends rcv (concat cs) d (Flush_write dst w p d)"
proof -
  note h = assms(1) [unfolded honest_dst_def]
  have one: "sends rcv xs d (dst_Write dst xs d)" for xs d using h by blast
  have "sends rcv (concat cs) d (write_loop (dst_Write dst) cs 0 d)"
    using write_loop_sends [of rcv "dst_Write dst", OF one, of cs 0 d] by (simp add: sends_def)
  then have to: "sends rcv (concat cs) d (Buffers_WriteTo dst cs d)"
    using h by (simp add: Buffers_WriteTo_def split: option.splits)
  consider "cs = []" | x where "cs = [x]" | x y v where "cs = x # y # v" by (metis list.exhaust)
  then show ?thesis
  proof cases
    case 1
    then show ?thesis using assms(2) by (simp add: Flush_write_def sends_def)
  next
    case 2
    then show ?thesis using assms(2) one by (simp add: Flush_write_def)
  next
    case (3 x y v)
    then have "Flush_write dst w p d = (case dst_WriteBuffers dst of Some f \<Rightarrow> f cs d | None \<Rightarrow> Buffers_WriteTo dst cs d)"
      using assms(2) unfolding Flush_write_def Let_def by (simp split: option.splits)
    then show ?thesis using h to by (simp split: option.splits)
  qed
qed

section \<open>Ownership\<close>

definition owned_by :: "writer \<Rightarrow> nat set" where
  "owned_by w = {a. Some a \<in> set (wr_held w)}"

text \<open>\<open>cs\<close> is what was queued since the last \<open>Flush\<close> or \<open>Discard\<close>, as it was when it was queued.\<close>

definition writer_inv :: "bool \<Rightarrow> int \<Rightarrow> writer \<Rightarrow> pool \<Rightarrow> byte list list \<Rightarrow> bool" where
  "writer_inv dbg base w p cs \<longleftrightarrow> pool_inv dbg base p \<and> None \<notin> set (wr_held w) \<and> distinct (wr_held w) \<and>
     owned_by w \<subseteq> live_addrs p \<and> (\<forall>a n. Owned a n \<in> set (wr_vec w) \<longrightarrow> a \<in> owned_by w) \<and>
     (wr_vec w = [] \<longrightarrow> wr_held w = []) \<and>
     map (slice_bytes p) (wr_vec w) = cs \<and> wr_size w = of_nat (length (concat cs))"

lemma discard_loop_release_all:
  assumes "release_all (Buf_Release dbg) as p = Ret () p'"
  shows "discard_loop dbg (map Some as) p = Ret () (replicate (length as) None, p')"
  using assms by (induction as arbitrary: p) (auto split: res.splits)

lemma Discard_releases:
  assumes "writer_inv dbg base w p cs"
  obtains p' where "Writer_Discard dbg w p = Ret () (w\<lparr>wr_held := [], wr_vec := [], wr_tmp := [], wr_size := 0\<rparr>, p')"
    and "pool_inv dbg base p'" and "live_addrs p' = live_addrs p - owned_by w"
    and "\<And>a. a \<in> live_addrs p' \<Longrightarrow> p_heap p' ! a = p_heap p ! a"
proof -
  have inv: "pool_inv dbg base p" and n: "None \<notin> set (wr_held w)" and d: "distinct (wr_held w)" and l: "owned_by w \<subseteq> live_addrs p"
    using assms by (simp_all add: writer_inv_def)
  have h: "wr_held w = map Some (map the (wr_held w))" using n by (simp add: comp_def) (metis (mono_tags) map_idI option.exhaust_sel)
  have s: "set (map the (wr_held w)) = owned_by w" unfolding owned_by_def by (subst (2) h) auto
  have dd: "distinct (map the (wr_held w))" using d h by (metis distinct_map)
  obtain p' where p': "release_all (Buf_Release dbg) (map the (wr_held w)) p = Ret () p'" "pool_inv dbg base p'"
    "live_addrs p' = live_addrs p - owned_by w" "\<forall>y \<in> live_addrs p - owned_by w. p_heap p' ! y = p_heap p ! y"
    using owned.release_all_live [OF inv dd] l s by auto
  have "Writer_Discard dbg w p = Ret () (w\<lparr>wr_held := [], wr_vec := [], wr_tmp := [], wr_size := 0\<rparr>, p')"
    using discard_loop_release_all [OF p'(1)] h by (simp add: Writer_Discard_def)
  then show thesis using p' that by simp
qed

lemma Flush_result:
  assumes inv: "writer_inv dbg base w p cs" and dst: "honest_dst rcv dst"
  obtains n e w' p' d' where "Writer_Flush dbg dst w p d = Ret (int n, e) (w', p', d')"
    and "wr_held w' = []" "wr_vec w' = []" "wr_size w' = 0" and "pool_inv dbg base p'" and "live_addrs p' = live_addrs p - owned_by w"
    and "\<And>a. a \<in> live_addrs p' \<Longrightarrow> p_heap p' ! a = p_heap p ! a"
    and "n \<le> length (concat cs)" and "rcv d' = rcv d @ take n (concat cs)" and "e = None \<longrightarrow> n = length (concat cs)"
proof (cases "wr_vec w = []")
  case True
  then have "wr_held w = []" "cs = []" "pool_inv dbg base p" "wr_size w = 0" using inv by (simp_all add: writer_inv_def)
  then show thesis using that [of 0 None w p d] True by (simp add: Writer_Flush_def owned_by_def)
next
  case False
  let ?w = "if 2 \<le> length (wr_vec w) then w\<lparr>wr_tmp := wr_vec w\<rparr> else w"
  have inv1: "writer_inv dbg base ?w p cs" and o: "owned_by ?w = owned_by w" using inv by (simp_all add: writer_inv_def owned_by_def)
  have "map (slice_bytes p) (wr_vec ?w) = cs" using inv1 by (simp add: writer_inv_def)
  from Flush_write_sends [OF dst this, of d] obtain n e d' where f: "Flush_write dst ?w p d = Ret (int n, e) d'"
    "n \<le> length (concat cs)" "rcv d' = rcv d @ take n (concat cs)" "e = None \<longrightarrow> n = length (concat cs)"
    unfolding sends_def by blast
  from inv1 show thesis
  proof (cases rule: Discard_releases)
    case (1 p')
    have "Writer_Flush dbg dst w p d = Ret (int n, e) (?w\<lparr>wr_held := [], wr_vec := [], wr_tmp := [], wr_size := 0\<rparr>, p', d')"
      using False f(1) 1(1) by (simp add: Writer_Flush_def Let_def)
    from that [OF this _ _ _ 1(2) 1(3) [unfolded o] 1(4) f(2-4)] show thesis by simp
  qed
qed

section \<open>A writer in use\<close>

text \<open>
  The calls of a connection's goroutine: on the writer, and on buffers of the same pool that the
  writer does not own. Other goroutines with their own buffers are calls of the same kind.
\<close>

inductive wreach :: "bool \<Rightarrow> 'd dst \<Rightarrow> pool \<Rightarrow> 'd \<Rightarrow> writer \<Rightarrow> pool \<Rightarrow> 'd \<Rightarrow> byte list list \<Rightarrow> bool"
  for dbg dst p0 d0 where
  start: "wreach dbg dst p0 d0 NewWriter p0 d0 []"
| add: "wreach dbg dst p0 d0 w p d cs \<Longrightarrow> a \<in> live_addrs p - owned_by w \<Longrightarrow> Writer_Add (Some a) p w = Ret () w' \<Longrightarrow>
    wreach dbg dst p0 d0 w' p d (cs @ [Buf_B (p_heap p ! a)])"
| shared: "wreach dbg dst p0 d0 w p d cs \<Longrightarrow>
    wreach dbg dst p0 d0 (Writer_AddShared xs w) p d (if xs = [] then cs else cs @ [xs])"
| flush: "wreach dbg dst p0 d0 w p d cs \<Longrightarrow> Writer_Flush dbg dst w p d = Ret r (w', p', d') \<Longrightarrow> wreach dbg dst p0 d0 w' p' d' []"
| discard: "wreach dbg dst p0 d0 w p d cs \<Longrightarrow> Writer_Discard dbg w p = Ret () (w', p') \<Longrightarrow> wreach dbg dst p0 d0 w' p' d []"
| get: "wreach dbg dst p0 d0 w p d cs \<Longrightarrow> 0 \<le> n \<Longrightarrow> n \<le> maxAlloc \<Longrightarrow> Pool_Get dbg n p = Ret x p' \<Longrightarrow> wreach dbg dst p0 d0 w p' d cs"
| fill: "wreach dbg dst p0 d0 w p d cs \<Longrightarrow> a \<in> live_addrs p - owned_by w \<Longrightarrow>
    wreach dbg dst p0 d0 w (upd_Buf a (Buf_write i xs) p) d cs"
| release: "wreach dbg dst p0 d0 w p d cs \<Longrightarrow> a \<in> live_addrs p - owned_by w \<Longrightarrow> Buf_Release dbg (Some a) p = Ret () p' \<Longrightarrow>
    wreach dbg dst p0 d0 w p' d cs"

lemma slice_bytes_cong:
  assumes "\<And>a. a \<in> owned_by w \<Longrightarrow> p_heap p' ! a = p_heap p ! a" and "\<And>a n. Owned a n \<in> set (wr_vec w) \<Longrightarrow> a \<in> owned_by w"
  shows "map (slice_bytes p') (wr_vec w) = map (slice_bytes p) (wr_vec w)"
  using assms by (auto simp: slice_bytes_def split: slice.splits)

lemma writer_inv_pool:
  assumes "writer_inv dbg base w p cs" and "pool_inv dbg base p'" and "owned_by w \<subseteq> live_addrs p'"
    and "\<And>a. a \<in> owned_by w \<Longrightarrow> p_heap p' ! a = p_heap p ! a"
  shows "writer_inv dbg base w p' cs"
  using assms slice_bytes_cong [of w p' p] unfolding writer_inv_def by blast

lemma writer_inv_empty:
  "pool_inv dbg base p \<Longrightarrow> wr_held w = [] \<Longrightarrow> wr_vec w = [] \<Longrightarrow> wr_size w = 0 \<Longrightarrow> writer_inv dbg base w p []"
  by (simp add: writer_inv_def owned_by_def)

lemma add_inv:
  assumes "writer_inv dbg base w p cs" and "a \<in> live_addrs p - owned_by w" and "Writer_Add (Some a) p w = Ret () w'"
  shows "writer_inv dbg base w' p (cs @ [Buf_B (p_heap p ! a)])"
proof -
  let ?b = "Buf_B (p_heap p ! a)"
  have w': "w' = w\<lparr>wr_held := wr_held w @ [Some a], wr_vec := wr_vec w @ [Owned a (length ?b)], wr_size := wr_size w + of_nat (length ?b)\<rparr>"
    using assms(3) by (simp add: Writer_Add_def Let_def)
  have "pool_wf p" using assms(1) by (simp add: writer_inv_def pool_inv_def)
  then obtain n where n: "bf_B (p_heap p ! a) = Some n" "n \<le> buf_cap p a" using assms(2) by (auto simp: pool_wf_def)
  then have "take (length ?b) (bf_full (p_heap p ! a)) = ?b" by (simp add: Buf_B_def buf_cap_def)
  moreover have "owned_by w' = insert a (owned_by w)" by (auto simp: owned_by_def w')
  ultimately show ?thesis using assms(1,2)
    by (auto simp: writer_inv_def w' slice_bytes_def owned_by_def)
qed

lemma shared_inv: "writer_inv dbg base w p cs \<Longrightarrow> writer_inv dbg base (Writer_AddShared xs w) p (if xs = [] then cs else cs @ [xs])"
  by (auto simp: writer_inv_def Writer_AddShared_def owned_by_def slice_bytes_def)

lemma wreach_inv:
  assumes "wreach dbg dst p0 d0 w p d cs" and "pool_inv dbg base p0" and dst: "honest_dst rcv dst"
  shows "writer_inv dbg base w p cs"
  using assms(1)
proof induction
  case start
  then show ?case using assms(2) by (simp add: writer_inv_def NewWriter_def owned_by_def)
next
  case (flush w p d cs r w' p' d')
  from flush.IH dst show ?case
  proof (cases rule: Flush_result [where d = d])
    case (1 n e w1 p1 d1)
    then show ?thesis using flush.hyps(2) by (simp add: writer_inv_empty)
  qed
next
  case (discard w p d cs w' p')
  from discard.IH show ?case
  proof (cases rule: Discard_releases)
    case (1 p1)
    then show ?thesis using discard.hyps(2) by (auto simp: writer_inv_empty)
  qed
next
  case (get w p d cs n x p')
  have inv: "pool_inv dbg base p" and l: "owned_by w \<subseteq> live_addrs p" using get.IH by (simp_all add: writer_inv_def)
  from owned.get_law [OF inv, of n] get.hyps(2-4)
  have "pool_inv dbg base p' \<and> live_addrs p \<subseteq> live_addrs p' \<and> (\<forall>y \<in> live_addrs p. p_heap p' ! y = p_heap p ! y)"
    by (auto split: option.splits)
  then show ?case using l by (intro writer_inv_pool [OF get.IH]) auto
next
  case (fill w p d cs a i xs)
  have inv: "pool_inv dbg base p" and l: "owned_by w \<subseteq> live_addrs p" using fill.IH by (simp_all add: writer_inv_def)
  have a: "a \<in> live_addrs p" "a \<notin> owned_by w" using fill.hyps(2) by simp_all
  show ?case using write_live [OF inv a(1)] l a(2)
    by (intro writer_inv_pool [OF fill.IH]) (auto intro!: nth_list_update_neq)
next
  case (release w p d cs a p')
  have inv: "pool_inv dbg base p" and l: "owned_by w \<subseteq> live_addrs p" using release.IH by (simp_all add: writer_inv_def)
  from owned.release_law [OF inv, of a] release.hyps(2,3)
  have "pool_inv dbg base p' \<and> live_addrs p' = live_addrs p - {a} \<and> (\<forall>y \<in> live_addrs p - {a}. p_heap p' ! y = p_heap p ! y)" by auto
  then show ?case using l release.hyps(2) by (intro writer_inv_pool [OF release.IH]) auto
next
  case (shared w p d cs xs)
  from shared.IH show ?case by (rule shared_inv)
qed (rule add_inv)

section \<open>Properties\<close>

text \<open>
  C16: In every state a connection's goroutine can bring a \<open>Writer\<close> into, on a connection that keeps
  the contract of \<open>io.Writer\<close>, \<open>Flush\<close> returns, the peer has received exactly the first \<open>n\<close> bytes
  of what was queued, in order and as it was when it was queued, with \<open>n\<close> the returned count and
  everything sent when there is no error. \<open>Pending\<close> reported the queue, nothing stays queued,
  and every owned buffer, and no other, was released exactly once, also after a failed write.
\<close>

theorem Flush_sends_the_queue:
  assumes "pool_inv dbg base p0" and "honest_dst rcv dst" and "wreach dbg dst p0 d0 w p d cs"
  shows "Writer_Pending w = (length cs, of_nat (length (concat cs))) \<and>
    (\<exists>n e w' p' d'. Writer_Flush dbg dst w p d = Ret (int n, e) (w', p', d') \<and>
      n \<le> length (concat cs) \<and> rcv d' = rcv d @ take n (concat cs) \<and> (e = None \<longrightarrow> n = length (concat cs)) \<and>
      Writer_Pending w' = (0, 0) \<and> owned_by w' = {} \<and>
      pool_inv dbg base p' \<and> live_addrs p' = live_addrs p - owned_by w)"
proof -
  have inv: "writer_inv dbg base w p cs" using wreach_inv [OF assms(3,1,2)] .
  then have "Writer_Pending w = (length cs, of_nat (length (concat cs)))" by (auto simp: writer_inv_def Writer_Pending_def)
  moreover from inv assms(2) have "\<exists>n e w' p' d'. Writer_Flush dbg dst w p d = Ret (int n, e) (w', p', d') \<and>
      n \<le> length (concat cs) \<and> rcv d' = rcv d @ take n (concat cs) \<and> (e = None \<longrightarrow> n = length (concat cs)) \<and>
      Writer_Pending w' = (0, 0) \<and> owned_by w' = {} \<and>
      pool_inv dbg base p' \<and> live_addrs p' = live_addrs p - owned_by w"
  proof (cases rule: Flush_result [where d = d])
    case (1 n e w' p' d')
    have "Writer_Pending w' = (0, 0)" "owned_by w' = {}" using 1(2-4) by (simp_all add: Writer_Pending_def owned_by_def)
    then show ?thesis using 1(1,5,6,8,9,10) by blast
  qed
  ultimately show ?thesis by blast
qed

text \<open>A connection that accepts at most four bytes of each write.\<close>

definition short_dst :: "byte list dst" where
  "short_dst = \<lparr>dst_Write = (\<lambda>xs d. Ret (int (min 4 (length xs)), if length xs \<le> 4 then None else Some ''short write'') (d @ take 4 xs)),
     dst_writev = None, dst_WriteBuffers = None\<rparr>"

lemma short_dst_honest: "honest_dst (\<lambda>d. d) short_dst"
proof -
  have "sends (\<lambda>d. d) xs d (dst_Write short_dst xs d)" for xs d
    unfolding sends_def short_dst_def
    by (intro exI [of _ "min 4 (length xs)"] exI [of _ "if length xs \<le> 4 then None else Some ''short write''"] exI [of _ "d @ take 4 xs"])
      (auto simp: min_def)
  then show ?thesis by (simp add: honest_dst_def) (simp add: short_dst_def)
qed

definition demo_writer :: writer where
  "demo_writer = Writer_AddShared [7, 8, 9, 10, 11] (Writer_AddShared [1, 2] NewWriter)"

theorem Flush_sends_the_queue_witness:
  "\<exists>e w' p' d'. Writer_Flush True short_dst demo_writer (NewPool (\<lambda>k. None) None) [] = Ret (6, e) (w', p', d') \<and>
     d' = [1, 2, 7, 8, 9, 10]"
proof -
  let ?p = "NewPool (\<lambda>k. None) None"
  have inv: "pool_inv True 0 ?p"
    by (simp add: pool_inv_def pool_wf_def charged_def NewPool_def live_addrs_def)
  have r: "wreach True short_dst ?p [] demo_writer ?p [] [[1, 2], [7, 8, 9, 10, 11]]"
    using wreach.shared [OF wreach.shared [OF wreach.start, of True short_dst ?p "[]" "[1, 2]"], of "[7, 8, 9, 10, 11]"]
    by (simp add: demo_writer_def)
  have "\<exists>e w' p' d'. Writer_Flush True short_dst demo_writer ?p [] = Ret (6, e) (w', p', d')"
    by (simp add: Writer_Flush_def Flush_write_def demo_writer_def Writer_AddShared_def NewWriter_def short_dst_def slice_bytes_def
        Buffers_WriteTo_def Writer_Discard_def)
  with Flush_sends_the_queue [OF inv short_dst_honest r] show ?thesis by auto
qed

end
