(* ===== verification/Flow.thy ===== *)
theory Flow
  imports Cas
begin

text \<open>
  \<open>src/flow/flow.go\<close>: the identity, the close state machine and the activity word of a flow.

  The first part has the operations as indivisible actions, which the flow table uses. The second
  part runs any number of goroutines in \<open>BeginClose\<close>, \<open>Close\<close>, \<open>Touch\<close>, \<open>expire\<close> and the
  freeze-then-close of \<open>Table.Remove\<close>, interleaved at every atomic instruction (\<open>fstep\<close>); the
  clock a \<open>Touch\<close> reads is arbitrary. The lemmas show that exactly one \<open>Close\<close> wins, that
  \<open>LastSeen\<close> never moves backwards and that a frozen flow is never touched again.
\<close>

section \<open>Flow\<close>

datatype State = Open | Closing | Closed

definition State_String :: "State \<Rightarrow> string" where
  "State_String s = (case s of Open \<Rightarrow> ''open'' | Closing \<Rightarrow> ''closing'' | Closed \<Rightarrow> ''closed'')"

text \<open>\<open>fl_clock\<close>: the flow reads the clock of its table instead of \<open>time.Now\<close>.\<close>

record 'v flow =
  fl_id :: u64
  fl_state :: State
  fl_seen :: i64
  fl_clock :: bool
  fl_value :: 'v

definition frozen :: i64 where "frozen = 1"

definition is_frozen :: "i64 \<Rightarrow> bool" where "is_frozen v \<longleftrightarrow> v AND frozen \<noteq> 0"
definition clear_frozen :: "i64 \<Rightarrow> i64" where "clear_frozen v = v AND NOT frozen"
definition set_frozen :: "i64 \<Rightarrow> i64" where "set_frozen v = v OR frozen"

definition NextID :: "u64 \<Rightarrow> u64 \<times> u64" where
  "NextID lastID = (lastID + 1, lastID + 1)"

definition Flow_New :: "'v \<Rightarrow> i64 \<Rightarrow> u64 \<Rightarrow> 'v flow \<times> u64" where
  "Flow_New v now lastID =
     (let (id, lastID') = NextID lastID
      in (\<lparr>fl_id = id, fl_state = Open, fl_seen = clear_frozen now, fl_clock = False, fl_value = v\<rparr>, lastID'))"

definition newInTable :: "'v \<Rightarrow> i64 \<Rightarrow> u64 \<Rightarrow> 'v flow \<times> u64" where
  "newInTable v clock lastID =
     (let (id, lastID') = NextID lastID
      in (\<lparr>fl_id = id, fl_state = Open, fl_seen = clear_frozen clock, fl_clock = True, fl_value = v\<rparr>, lastID'))"

definition freeze :: "'v flow \<Rightarrow> 'v flow" where
  "freeze f = f\<lparr>fl_seen := set_frozen (fl_seen f)\<rparr>"

definition BeginClose :: "'v flow \<Rightarrow> bool \<times> 'v flow" where
  "BeginClose f = (if fl_state f \<noteq> Open then (False, f) else (True, freeze (f\<lparr>fl_state := Closing\<rparr>)))"

definition Close_body :: "(State, bool) cas_body" where
  "Close_body s = (if s = Closed then Inl False else Inr (Closed, True))"

definition Flow_Close :: "'v flow \<Rightarrow> bool \<times> 'v flow" where
  "Flow_Close f =
     (let (ok, s) = cas_atomic Close_body (fl_state f); f1 = f\<lparr>fl_state := s\<rparr>
      in if ok then (True, freeze f1) else (False, f1))"

definition Touch_body :: "i64 \<Rightarrow> (i64, unit) cas_body" where
  "Touch_body now v = (if is_frozen v \<or> sint now \<le> sint v then Inl () else Inr (now, ()))"

text \<open>\<open>tnow\<close> is the table's clock, \<open>now\<close> a reading of \<open>time.Now\<close>.\<close>

definition Touch :: "i64 \<Rightarrow> i64 \<Rightarrow> 'v flow \<Rightarrow> 'v flow" where
  "Touch tnow now f =
     f\<lparr>fl_seen := snd (cas_atomic (Touch_body (clear_frozen (if fl_clock f then tnow else now))) (fl_seen f))\<rparr>"

definition LastSeen :: "'v flow \<Rightarrow> i64" where
  "LastSeen f = clear_frozen (fl_seen f)"

definition expire :: "i64 \<Rightarrow> 'v flow \<Rightarrow> bool \<times> 'v flow" where
  "expire cutoff f =
     (if sint (clear_frozen (fl_seen f)) \<ge> sint cutoff then (False, f)
      else if is_frozen (fl_seen f) then (True, f)
      else (True, freeze f))"

section \<open>The frozen bit\<close>

lemma frozen_bit [simp]:
  "is_frozen (set_frozen v)" "\<not> is_frozen (clear_frozen v)"
  "clear_frozen (set_frozen v) = clear_frozen v" "clear_frozen (clear_frozen v) = clear_frozen v"
  "set_frozen (set_frozen v) = set_frozen v"
proof -
  show "is_frozen (set_frozen v)"
    by (auto simp: is_frozen_def set_frozen_def frozen_def bit_eq_iff [where ?'a = "64 word"] bit_simps intro!: exI [of _ 0])
  show "\<not> is_frozen (clear_frozen v)" "clear_frozen (set_frozen v) = clear_frozen v"
    "clear_frozen (clear_frozen v) = clear_frozen v" "set_frozen (set_frozen v) = set_frozen v"
    by (auto simp: is_frozen_def set_frozen_def clear_frozen_def frozen_def bit_eq_iff [where ?'a = "64 word"] bit_simps)
qed

lemma clear_frozen_id: "\<not> is_frozen v \<Longrightarrow> clear_frozen v = v"
  by (auto simp: is_frozen_def clear_frozen_def frozen_def bit_eq_iff [where ?'a = "64 word"] bit_simps intro: Nat.gr0I)

lemma set_frozen_id: "is_frozen v \<Longrightarrow> set_frozen v = v"
  by (auto simp: is_frozen_def set_frozen_def frozen_def bit_eq_iff [where ?'a = "64 word"] bit_simps)

lemma LastSeen_freeze [simp]: "LastSeen (freeze f) = LastSeen f"
  by (simp add: LastSeen_def freeze_def)

lemma Flow_Close_eq:
  "Flow_Close f = (if fl_state f = Closed then (False, f) else (True, freeze (f\<lparr>fl_state := Closed\<rparr>)))"
  by (cases f) (simp add: Flow_Close_def Close_body_def cas_atomic_def)

lemma Touch_eq:
  "Touch tnow now f = (let c = clear_frozen (if fl_clock f then tnow else now)
     in if is_frozen (fl_seen f) \<or> sint c \<le> sint (fl_seen f) then f else f\<lparr>fl_seen := c\<rparr>)"
  by (cases f) (simp add: Touch_def Touch_body_def cas_atomic_def Let_def)

section \<open>Goroutines on one flow\<close>

datatype fpc =
    Begin_CAS | Begin_Freeze | Begin_Done bool
  | Remove_Freeze | Close_Load | Close_CAS State | Close_Freeze | Close_Done bool
  | Touch_Clock | Touch_Load i64 | Touch_CAS i64 i64 | Touch_Done
  | Expire_Load i64 | Expire_CAS i64 i64 | Expire_Done i64 bool

record fsys =
  fs_state :: State
  fs_seen :: i64
  fs_pc :: "nat \<Rightarrow> fpc"

definition fgo :: "fsys \<Rightarrow> nat \<Rightarrow> fpc \<Rightarrow> fsys" where
  "fgo s i p = s\<lparr>fs_pc := (fs_pc s)(i := p)\<rparr>"

lemma fgo_simps [simp]:
  "fs_state (fgo s i p) = fs_state s" "fs_seen (fgo s i p) = fs_seen s" "fs_pc (fgo s i p) = (fs_pc s)(i := p)"
  by (simp_all add: fgo_def)

inductive fstep :: "fsys \<Rightarrow> fsys \<Rightarrow> bool" where
  begin_cas: "fs_pc s i = Begin_CAS \<Longrightarrow>
    fstep s (if fs_state s = Open then fgo (s\<lparr>fs_state := Closing\<rparr>) i Begin_Freeze else fgo s i (Begin_Done False))"
| begin_freeze: "fs_pc s i = Begin_Freeze \<Longrightarrow>
    fstep s (fgo (s\<lparr>fs_seen := set_frozen (fs_seen s)\<rparr>) i (Begin_Done True))"
| remove_freeze: "fs_pc s i = Remove_Freeze \<Longrightarrow>
    fstep s (fgo (s\<lparr>fs_seen := set_frozen (fs_seen s)\<rparr>) i Close_Load)"
| close_load: "fs_pc s i = Close_Load \<Longrightarrow>
    fstep s (fgo s i (if fs_state s = Closed then Close_Done False else Close_CAS (fs_state s)))"
| close_cas: "fs_pc s i = Close_CAS x \<Longrightarrow>
    fstep s (if fs_state s = x then fgo (s\<lparr>fs_state := Closed\<rparr>) i Close_Freeze else fgo s i Close_Load)"
| close_freeze: "fs_pc s i = Close_Freeze \<Longrightarrow>
    fstep s (fgo (s\<lparr>fs_seen := set_frozen (fs_seen s)\<rparr>) i (Close_Done True))"
| touch_clock: "fs_pc s i = Touch_Clock \<Longrightarrow> fstep s (fgo s i (Touch_Load (clear_frozen now)))"
| touch_load: "fs_pc s i = Touch_Load now \<Longrightarrow>
    fstep s (fgo s i (if is_frozen (fs_seen s) \<or> sint now \<le> sint (fs_seen s) then Touch_Done
                      else Touch_CAS now (fs_seen s)))"
| touch_cas: "fs_pc s i = Touch_CAS now v \<Longrightarrow>
    fstep s (if fs_seen s = v then fgo (s\<lparr>fs_seen := now\<rparr>) i Touch_Done else fgo s i (Touch_Load now))"
| expire_load: "fs_pc s i = Expire_Load cutoff \<Longrightarrow>
    fstep s (fgo s i (if sint (clear_frozen (fs_seen s)) \<ge> sint cutoff then Expire_Done cutoff False
                      else if is_frozen (fs_seen s) then Expire_Done cutoff True
                      else Expire_CAS cutoff (fs_seen s)))"
| expire_cas: "fs_pc s i = Expire_CAS cutoff v \<Longrightarrow>
    fstep s (if fs_seen s = v then fgo (s\<lparr>fs_seen := set_frozen v\<rparr>) i (Expire_Done cutoff True)
             else fgo s i (Expire_Done cutoff False))"

text \<open>A new flow with every goroutine at the start of a call.\<close>

definition finit :: "fsys \<Rightarrow> bool" where
  "finit s \<longleftrightarrow> fs_state s = Open \<and> \<not> is_frozen (fs_seen s) \<and>
     (\<forall>i. case fs_pc s i of Begin_CAS \<Rightarrow> True | Remove_Freeze \<Rightarrow> True | Close_Load \<Rightarrow> True | Touch_Clock \<Rightarrow> True
            | Expire_Load c \<Rightarrow> True | _ \<Rightarrow> False)"

section \<open>Invariants\<close>

definition won :: "fpc \<Rightarrow> bool" where
  "won p \<longleftrightarrow> p = Close_Freeze \<or> p = Close_Done True"

definition begun :: "fpc \<Rightarrow> bool" where
  "begun p \<longleftrightarrow> p = Begin_Freeze \<or> p = Begin_Done True"

text \<open>What a goroutine knows of the flow at its position; none of it can be undone by another.\<close>

fun knows :: "State \<Rightarrow> i64 \<Rightarrow> fpc \<Rightarrow> bool" where
  "knows st v Begin_Freeze = (st \<noteq> Open)"
| "knows st v (Begin_Done b) = (st \<noteq> Open \<and> (b \<longrightarrow> is_frozen v))"
| "knows st v (Close_CAS x) = (x \<noteq> Closed)"
| "knows st v (Close_Done b) = (st = Closed \<and> (b \<longrightarrow> is_frozen v))"
| "knows st v (Touch_Load now) = (\<not> is_frozen now)"
| "knows st v (Touch_CAS now w) = (\<not> is_frozen now \<and> \<not> is_frozen w \<and> sint w < sint now)"
| "knows st v (Expire_CAS c w) = (\<not> is_frozen w \<and> sint w < sint c)"
| "knows st v (Expire_Done c b) = (b \<longrightarrow> is_frozen v \<and> sint (clear_frozen v) < sint c)"
| "knows st v p = True"

definition flow_inv :: "fsys \<Rightarrow> bool" where
  "flow_inv s \<longleftrightarrow> (\<forall>i. knows (fs_state s) (fs_seen s) (fs_pc s i)) \<and>
     (fs_state s = Closed \<longleftrightarrow> (\<exists>i. won (fs_pc s i))) \<and>
     (\<forall>i j. won (fs_pc s i) \<longrightarrow> won (fs_pc s j) \<longrightarrow> i = j) \<and>
     (\<forall>i j. begun (fs_pc s i) \<longrightarrow> begun (fs_pc s j) \<longrightarrow> i = j)"

text \<open>One instruction moves the activity word forward and never changes a frozen one.\<close>

definition forward :: "i64 \<Rightarrow> i64 \<Rightarrow> bool" where
  "forward v w \<longleftrightarrow> sint (clear_frozen v) \<le> sint (clear_frozen w) \<and> (is_frozen v \<longrightarrow> w = v)"

lemma forward_refl [simp]: "forward v v"
  by (simp add: forward_def)

lemma forward_freeze [simp]: "forward v (set_frozen v)"
  by (simp add: forward_def set_frozen_id)

lemma forward_trans: "forward u v \<Longrightarrow> forward v w \<Longrightarrow> forward u w"
  by (auto simp: forward_def)

lemma fstep_forward:
  assumes "fstep s t" and "flow_inv s"
  shows "forward (fs_seen s) (fs_seen t)"
  using assms
proof cases
  case (touch_cas i now v)
  then have "knows (fs_state s) (fs_seen s) (Touch_CAS now v)" using assms(2) unfolding flow_inv_def by metis
  then show ?thesis using touch_cas by (auto simp: forward_def clear_frozen_id)
next
  case (expire_cas i c v)
  then show ?thesis by auto
qed auto

definition later_state :: "State \<Rightarrow> State \<Rightarrow> bool" where
  "later_state x y \<longleftrightarrow> (x \<noteq> Open \<longrightarrow> y \<noteq> Open) \<and> (x = Closed \<longrightarrow> y = Closed)"

lemma later_state_refl [simp]: "later_state x x" "later_state x Closed" "later_state Open x"
  by (simp_all add: later_state_def)

lemma later_state_trans: "later_state x y \<Longrightarrow> later_state y z \<Longrightarrow> later_state x z"
  by (auto simp: later_state_def)

lemma fstep_state: "fstep s t \<Longrightarrow> flow_inv s \<Longrightarrow> later_state (fs_state s) (fs_state t)"
  by (erule fstep.cases) (auto simp: later_state_def)

text \<open>What a goroutine knows stays true while the flow moves on.\<close>

lemma knows_stable: "knows x v p \<Longrightarrow> later_state x y \<Longrightarrow> forward v w \<Longrightarrow> knows y w p"
  by (cases p) (auto simp: later_state_def forward_def)

text \<open>The goroutine that moves knows what its new position claims.\<close>

lemma fstep_mover:
  assumes "fstep s t" and "flow_inv s"
  obtains i p where "fs_pc t = (fs_pc s)(i := p)" "knows (fs_state t) (fs_seen t) p"
    "won p \<longleftrightarrow> won (fs_pc s i) \<or> (fs_state s \<noteq> Closed \<and> fs_state t = Closed)"
    "fs_state t = Closed \<and> fs_state s \<noteq> Closed \<longrightarrow> \<not> won (fs_pc s i)"
    "begun p \<longleftrightarrow> begun (fs_pc s i) \<or> (fs_state s = Open \<and> fs_state t = Closing)"
proof -
  have k: "knows (fs_state s) (fs_seen s) (fs_pc s i)" for i using assms(2) by (simp add: flow_inv_def)
  from assms(1) have "\<exists>i p. fs_pc t = (fs_pc s)(i := p) \<and> knows (fs_state t) (fs_seen t) p \<and>
    (won p \<longleftrightarrow> won (fs_pc s i) \<or> (fs_state s \<noteq> Closed \<and> fs_state t = Closed)) \<and>
    (fs_state t = Closed \<and> fs_state s \<noteq> Closed \<longrightarrow> \<not> won (fs_pc s i)) \<and>
    (begun p \<longleftrightarrow> begun (fs_pc s i) \<or> (fs_state s = Open \<and> fs_state t = Closing))"
  proof cases
    case (begin_cas i)
    then show ?thesis by (intro exI [of _ i] exI [of _ "if fs_state s = Open then Begin_Freeze else Begin_Done False"])
        (auto simp: won_def begun_def)
  next
    case (close_load i)
    then show ?thesis by (intro exI [of _ i] exI [of _ "if fs_state s = Closed then Close_Done False else Close_CAS (fs_state s)"])
        (auto simp: won_def begun_def)
  next
    case (close_cas i x)
    then show ?thesis using k [of i] by (intro exI [of _ i] exI [of _ "if fs_state s = x then Close_Freeze else Close_Load"])
        (auto simp: won_def begun_def)
  next
    case (touch_cas i now v)
    then show ?thesis using k [of i] by (intro exI [of _ i] exI [of _ "if fs_seen s = v then Touch_Done else Touch_Load now"])
        (auto simp: won_def begun_def)
  next
    case (expire_cas i c v)
    then show ?thesis using k [of i] by (intro exI [of _ i] exI [of _ "Expire_Done c (fs_seen s = v)"])
        (auto simp: won_def begun_def clear_frozen_id)
  next
    case (close_freeze i)
    moreover have "fs_state s = Closed" using assms(2) close_freeze by (auto simp: flow_inv_def won_def)
    ultimately show ?thesis by (intro exI [of _ i] exI [of _ "Close_Done True"]) (auto simp: won_def begun_def)
  next
    case (begin_freeze i)
    then show ?thesis using k [of i] by (intro exI [of _ i] exI [of _ "Begin_Done True"]) (auto simp: won_def begun_def)
  next
    case (remove_freeze i)
    then show ?thesis by (intro exI [of _ i] exI [of _ Close_Load]) (auto simp: won_def begun_def)
  next
    case (touch_clock i now)
    then show ?thesis by (intro exI [of _ i] exI [of _ "Touch_Load (clear_frozen now)"]) (auto simp: won_def begun_def)
  next
    case (touch_load i now)
    then show ?thesis using k [of i]
      by (intro exI [of _ i] exI [of _ "if is_frozen (fs_seen s) \<or> sint now \<le> sint (fs_seen s) then Touch_Done else Touch_CAS now (fs_seen s)"])
        (auto simp: won_def begun_def)
  next
    case (expire_load i c)
    then show ?thesis
      by (intro exI [of _ i] exI [of _ "if sint (clear_frozen (fs_seen s)) \<ge> sint c then Expire_Done c False
            else if is_frozen (fs_seen s) then Expire_Done c True else Expire_CAS c (fs_seen s)"])
        (auto simp: won_def begun_def clear_frozen_id)
  qed
  then show thesis using that by blast
qed

lemma fstep_inv:
  assumes "fstep s t" and "flow_inv s"
  shows "flow_inv t"
  using assms
proof (cases rule: fstep_mover)
  case (1 i p)
  have know: "knows (fs_state t) (fs_seen t) (fs_pc t j)" for j
    using 1(1,2) assms(2) knows_stable [OF _ fstep_state [OF assms] fstep_forward [OF assms]]
    by (cases "j = i") (simp_all add: flow_inv_def)
  have mono: "fs_state s = Closed \<longrightarrow> fs_state t = Closed" "fs_state s \<noteq> Open \<longrightarrow> fs_state t \<noteq> Open"
    using fstep_state [OF assms] by (simp_all add: later_state_def)
  have nb: "\<not> begun (fs_pc s j)" if "fs_state s = Open" for j
    using assms(2) that unfolding flow_inv_def begun_def by (metis knows.simps(1,2))
  have si: "fs_state s = Closed \<longleftrightarrow> (\<exists>i. won (fs_pc s i))" "won (fs_pc s j) \<Longrightarrow> won (fs_pc s k) \<Longrightarrow> j = k"
    "begun (fs_pc s j) \<Longrightarrow> begun (fs_pc s k) \<Longrightarrow> j = k" for j k
    using assms(2) by (simp_all add: flow_inv_def)
  have w: "won (fs_pc t j) \<longleftrightarrow> won (fs_pc s j) \<or> (j = i \<and> fs_state s \<noteq> Closed \<and> fs_state t = Closed)" for j
    using 1(1,3) by simp
  have b: "begun (fs_pc t j) \<longleftrightarrow> begun (fs_pc s j) \<or> (j = i \<and> fs_state s = Open \<and> fs_state t = Closing)" for j
    using 1(1,5) by simp
  have "fs_state t = Closed \<longleftrightarrow> (\<exists>i. won (fs_pc t i))" unfolding w using si(1) mono(1) by blast
  moreover have "j = k" if "won (fs_pc t j)" "won (fs_pc t k)" for j k using that si(1,2) unfolding w by blast
  moreover have "j = k" if "begun (fs_pc t j)" "begun (fs_pc t k)" for j k using that si(3) nb unfolding b by blast
  ultimately show ?thesis using know unfolding flow_inv_def by blast
qed

interpretation flows: step_invariant fstep flow_inv
  by unfold_locales (rule fstep_inv)

lemma finit_inv: "finit s \<Longrightarrow> flow_inv s"
  unfolding finit_def flow_inv_def won_def begun_def
  by (auto split: fpc.splits) (metis knows.simps fpc.exhaust)+

lemma reachable_forward:
  assumes "fstep\<^sup>*\<^sup>* s t" and "flow_inv s"
  shows "forward (fs_seen s) (fs_seen t) \<and> later_state (fs_state s) (fs_state t)"
  using assms
proof (induction rule: rtranclp_induct)
  case (step t u)
  then have "flow_inv t" using flows.reachable_keeps by blast
  then show ?case using step fstep_forward fstep_state forward_trans later_state_trans by blast
qed simp

section \<open>Properties\<close>


definition two_closers :: fsys where
  "two_closers = \<lparr>fs_state = Open, fs_seen = 8, fs_pc = (\<lambda>i. Close_Load)\<rparr>"

lemma two_closers_init: "finit two_closers"
  by (simp add: finit_def two_closers_def is_frozen_def frozen_def)

lemma two_closers_run: "\<exists>s. fstep\<^sup>*\<^sup>* two_closers s \<and> fs_pc s 0 = Close_Done True \<and> fs_pc s 1 = Close_Done False"
proof -
  let ?s1 = "fgo two_closers 0 (Close_CAS Open)" and ?s2 = "fgo (fgo two_closers 0 (Close_CAS Open)\<lparr>fs_state := Closed\<rparr>) 0 Close_Freeze"
  let ?s3 = "fgo ?s2 1 (Close_Done False)"
  let ?s4 = "fgo (?s3\<lparr>fs_seen := set_frozen (fs_seen ?s3)\<rparr>) 0 (Close_Done True)"
  have "fstep two_closers ?s1" using fstep.close_load [of two_closers 0] by (simp add: two_closers_def)
  moreover have "fstep ?s1 ?s2" using fstep.close_cas [of ?s1 0 Open] by (simp add: two_closers_def)
  moreover have "fstep ?s2 ?s3" using fstep.close_load [of ?s2 1] by (simp add: two_closers_def fgo_def)
  moreover have "fstep ?s3 ?s4" using fstep.close_freeze [of ?s3 0] by simp
  ultimately have "fstep\<^sup>*\<^sup>* two_closers ?s4" by (meson r_into_rtranclp rtranclp_trans)
  then show ?thesis by (intro exI [of _ ?s4]) simp
qed




end
