(* ===== verification/Flow_Table.thy ===== *)
theory Flow_Table
  imports Flow
begin

text \<open>
  \<open>src/flow/table.go\<close>: the sharded table of flows. Flows are addresses in the heap \<open>tb_heap\<close>, so
  a flow that was removed or closed by its user is still observable. \<open>maphash.Comparable\<close> under the
  table's seed is the parameter \<open>tb_hash\<close>; the order in which \<open>range\<close> visits the keys of a map is
  \<open>tb_order k\<close> at the \<open>k\<close>-th loop, an arbitrary enumeration. \<open>tb_closed\<close> lists the calls of
  \<open>OnClose\<close>.

  The lemmas relate the sharded table to one map: whatever the hash, the number of shards and the
  iteration order, every sequence of calls returns what a single unsharded map returns. On that
  specification the further properties are proved: \<open>OnClose\<close> runs exactly once for each flow that
  left, a stale ID removes nothing, and \<open>Sweep\<close> evicts exactly the idle flows.
\<close>

section \<open>Table\<close>

record ('k, 'v) table =
  tb_shards :: "('k, nat) fmap list"
  tb_mask :: u64
  tb_hash :: "'k \<Rightarrow> u64"
  tb_idle :: i64
  tb_onClose :: bool
  tb_now :: i64
  tb_heap :: "'v flow list"
  tb_lastID :: u64
  tb_closed :: "('k \<times> nat) list"
  tb_order :: "nat \<Rightarrow> ('k, nat) fmap \<Rightarrow> 'k list"
  tb_iters :: nat

definition NewTable ::
    "('k \<Rightarrow> u64) \<Rightarrow> (nat \<Rightarrow> ('k, nat) fmap \<Rightarrow> 'k list) \<Rightarrow> i64 \<Rightarrow> u64 \<Rightarrow> i64 \<Rightarrow> i64 \<Rightarrow> bool \<Rightarrow> ('k, 'v) table option" where
  "NewTable hash order now lastID Shards IdleTimeout OnClose =
     (let n = (if sint Shards \<le> 0 then 64 else Shards)
      in map_option (\<lambda>sz.
           \<lparr>tb_shards = replicate (unat sz) fmempty, tb_mask = sz - 1, tb_hash = hash, tb_idle = IdleTimeout,
            tb_onClose = OnClose, tb_now = now, tb_heap = [], tb_lastID = lastID, tb_closed = [],
            tb_order = order, tb_iters = 0\<rparr>) (pow2_loop n 1))"

definition shard :: "('k, 'v) table \<Rightarrow> 'k \<Rightarrow> nat" where
  "shard t k = unat (tb_hash t k AND tb_mask t)"

definition Table_Get :: "'k \<Rightarrow> ('k, 'v) table \<Rightarrow> nat option" where
  "Table_Get k t = fmlookup (tb_shards t ! shard t k) k"

definition set_flow :: "nat \<Rightarrow> 'v flow \<Rightarrow> ('k, 'v) table \<Rightarrow> ('k, 'v) table" where
  "set_flow a f t = t\<lparr>tb_heap := (tb_heap t)[a := f]\<rparr>"

definition Table_GetAndTouch :: "i64 \<Rightarrow> 'k \<Rightarrow> ('k, 'v) table \<Rightarrow> nat option \<times> ('k, 'v) table" where
  "Table_GetAndTouch now k t =
     (case Table_Get k t of
        None \<Rightarrow> (None, t)
      | Some a \<Rightarrow> (Some a, set_flow a (Touch (tb_now t) now (tb_heap t ! a)) t))"

text \<open>The argument \<open>newValue\<close>: \<open>nil\<close>, a function that returns, or one that panics.\<close>

datatype 'v new_value = NilFn | Returns 'v | Panics string

definition Table_GetOrOpen :: "'k \<Rightarrow> 'v :: zero new_value \<Rightarrow> ('k, 'v) table \<Rightarrow> (nat \<times> bool, ('k, 'v) table) res" where
  "Table_GetOrOpen k newValue t =
     (let i = shard t k
      in case fmlookup (tb_shards t ! i) k of
           Some a \<Rightarrow> Ret (a, False) t
         | None \<Rightarrow>
             (let insert = (\<lambda>v.
                 (let (f, lastID') = newInTable v (tb_now t) (tb_lastID t); a = length (tb_heap t)
                  in Ret (a, True) (t\<lparr>tb_heap := tb_heap t @ [f], tb_lastID := lastID',
                                      tb_shards := (tb_shards t)[i := fmupd k a (tb_shards t ! i)]\<rparr>)))
              in case newValue of NilFn \<Rightarrow> insert 0 | Returns v \<Rightarrow> insert v | Panics m \<Rightarrow> Panic m t))"

definition Table_closed :: "'k \<Rightarrow> nat \<Rightarrow> ('k, 'v) table \<Rightarrow> ('k, 'v) table" where
  "Table_closed k a t =
     (let t1 = set_flow a (snd (Flow_Close (tb_heap t ! a))) t
      in if tb_onClose t1 then t1\<lparr>tb_closed := tb_closed t1 @ [(k, a)]\<rparr> else t1)"

definition Table_Remove :: "'k \<Rightarrow> u64 \<Rightarrow> ('k, 'v) table \<Rightarrow> bool \<times> ('k, 'v) table" where
  "Table_Remove k fid t =
     (let i = shard t k
      in case fmlookup (tb_shards t ! i) k of
           None \<Rightarrow> (False, t)
         | Some a \<Rightarrow>
             (if fl_id (tb_heap t ! a) \<noteq> fid then (False, t)
              else (let t1 = set_flow a (freeze (tb_heap t ! a)) t;
                        t2 = t1\<lparr>tb_shards := (tb_shards t1)[i := fmdrop k (tb_shards t1 ! i)]\<rparr>
                    in (True, Table_closed k a t2))))"

definition Table_Len :: "('k, 'v) table \<Rightarrow> nat" where
  "Table_Len t = (\<Sum>m \<leftarrow> tb_shards t. fcard (fmdom m))"

definition advance :: "i64 \<Rightarrow> ('k, 'v) table \<Rightarrow> ('k, 'v) table" where
  "advance ns t = t\<lparr>tb_now := (if sint ns \<le> sint (tb_now t) then tb_now t else ns)\<rparr>"

text \<open>The keys of a map in the order in which the next \<open>range\<close> loop visits them.\<close>

definition range_keys :: "('k, nat) fmap \<Rightarrow> ('k, 'v) table \<Rightarrow> 'k list \<times> ('k, 'v) table" where
  "range_keys m t = (tb_order t (tb_iters t) m, t\<lparr>tb_iters := tb_iters t + 1\<rparr>)"

text \<open>\<open>Range\<close>: \<open>fn\<close> is a function on the caller's state \<open>'s\<close>, which returns whether to go on or panics.\<close>

fun range_loop :: "('k \<Rightarrow> nat \<Rightarrow> 's \<Rightarrow> (bool, 's) res) \<Rightarrow> ('k \<times> nat) list \<Rightarrow> 's \<Rightarrow> (bool, 's) res" where
  "range_loop fn [] s = Ret True s"
| "range_loop fn ((k, a) # ks) s =
     (case fn k a s of
        Panic m s1 \<Rightarrow> Panic m s1
      | Ret go s1 \<Rightarrow> (if go then range_loop fn ks s1 else Ret False s1))"

definition rangeLocked :: "('k \<Rightarrow> nat \<Rightarrow> 's \<Rightarrow> (bool, 's) res) \<Rightarrow> ('k, nat) fmap \<Rightarrow> 's \<Rightarrow> ('k, 'v) table \<Rightarrow> (bool, 's) res \<times> ('k, 'v) table" where
  "rangeLocked fn m s t =
     (let (ks, t1) = range_keys m t in (range_loop fn (map (\<lambda>k. (k, the (fmlookup m k))) ks) s, t1))"

fun Range_shards :: "('k \<Rightarrow> nat \<Rightarrow> 's \<Rightarrow> (bool, 's) res) \<Rightarrow> ('k, nat) fmap list \<Rightarrow> 's \<Rightarrow> ('k, 'v) table \<Rightarrow> (unit, 's) res \<times> ('k, 'v) table" where
  "Range_shards fn [] s t = (Ret () s, t)"
| "Range_shards fn (m # ms) s t =
     (case rangeLocked fn m s t of
        (Panic msg s1, t1) \<Rightarrow> (Panic msg s1, t1)
      | (Ret go s1, t1) \<Rightarrow> (if go then Range_shards fn ms s1 t1 else (Ret () s1, t1)))"

definition Table_Range :: "('k \<Rightarrow> nat \<Rightarrow> 's \<Rightarrow> (bool, 's) res) \<Rightarrow> 's \<Rightarrow> ('k, 'v) table \<Rightarrow> (unit, 's) res \<times> ('k, 'v) table" where
  "Table_Range fn s t = Range_shards fn (tb_shards t) s t"

fun sweep_keys :: "i64 \<Rightarrow> nat \<Rightarrow> 'k list \<Rightarrow> ('k, 'v) table \<Rightarrow> ('k \<times> nat) list \<times> ('k, 'v) table" where
  "sweep_keys cutoff i [] t = ([], t)"
| "sweep_keys cutoff i (k # ks) t =
     (case fmlookup (tb_shards t ! i) k of
        None \<Rightarrow> sweep_keys cutoff i ks t
      | Some a \<Rightarrow>
          (let (ex, f) = expire cutoff (tb_heap t ! a); t1 = set_flow a f t
           in if ex then
                (let (vs, t2) = sweep_keys cutoff i ks (t1\<lparr>tb_shards := (tb_shards t1)[i := fmdrop k (tb_shards t1 ! i)]\<rparr>)
                 in ((k, a) # vs, t2))
              else sweep_keys cutoff i ks t1))"

fun sweep_shards :: "i64 \<Rightarrow> nat list \<Rightarrow> ('k, 'v) table \<Rightarrow> ('k \<times> nat) list \<times> ('k, 'v) table" where
  "sweep_shards cutoff [] t = ([], t)"
| "sweep_shards cutoff (i # is) t =
     (let (ks, t1) = range_keys (tb_shards t ! i) t; (vs, t2) = sweep_keys cutoff i ks t1;
          (ws, t3) = sweep_shards cutoff is t2
      in (vs @ ws, t3))"

fun close_all :: "('k \<times> nat) list \<Rightarrow> ('k, 'v) table \<Rightarrow> ('k, 'v) table" where
  "close_all [] t = t"
| "close_all ((k, a) # vs) t = close_all vs (Table_closed k a t)"

definition Table_Sweep :: "i64 \<Rightarrow> ('k, 'v) table \<Rightarrow> nat \<times> ('k, 'v) table" where
  "Table_Sweep now t =
     (let t1 = advance now t
      in if sint (tb_idle t1) \<le> 0 then (0, t1)
         else (let cutoff = now - tb_idle t1; (vs, t2) = sweep_shards cutoff [0..<length (tb_shards t1)] t1
               in (length vs, close_all vs t2)))"

fun close_shards :: "nat list \<Rightarrow> ('k, 'v) table \<Rightarrow> ('k, 'v) table" where
  "close_shards [] t = t"
| "close_shards (i # is) t =
     (let m = tb_shards t ! i; t1 = t\<lparr>tb_shards := (tb_shards t)[i := fmempty]\<rparr>; (ks, t2) = range_keys m t1
      in close_shards is (close_all (map (\<lambda>k. (k, the (fmlookup m k))) ks) t2))"

definition Table_Close :: "('k, 'v) table \<Rightarrow> ('k, 'v) table" where
  "Table_Close t = close_shards [0..<length (tb_shards t)] t"

text \<open>\<open>Run\<close>: the period of its ticker, and the loop as the ticks it received before \<open>ctx\<close> was done.\<close>

definition Run_tick :: "i64 \<Rightarrow> int" where
  "Run_tick idle =
     (if sint idle > 0 then min (max (sint idle div 4) 10000000) 1000000000 else 1000000000)"

definition Table_Run :: "i64 list \<Rightarrow> ('k, 'v) table \<Rightarrow> ('k, 'v) table" where
  "Table_Run ticks t = Table_Close (fold (\<lambda>now t. snd (Table_Sweep now t)) ticks t)"

section \<open>Updating flows\<close>

text \<open>Apply \<open>g\<close> to the flows at the addresses \<open>A\<close>.\<close>

definition upd_at :: "nat set \<Rightarrow> ('a \<Rightarrow> 'a) \<Rightarrow> 'a list \<Rightarrow> 'a list" where
  "upd_at A g h = map (\<lambda>a. if a \<in> A then g (h ! a) else h ! a) [0..<length h]"

lemma length_upd_at [simp]: "length (upd_at A g h) = length h"
  by (simp add: upd_at_def)

lemma nth_upd_at: "a < length h \<Longrightarrow> upd_at A g h ! a = (if a \<in> A then g (h ! a) else h ! a)"
  by (simp add: upd_at_def)

lemma upd_at_empty [simp]: "upd_at {} g h = h"
  by (simp add: upd_at_def map_nth)

lemma upd_at_single: "h[a := g (h ! a)] = upd_at {a} g h"
  by (rule nth_equalityI) (auto simp: nth_upd_at nth_list_update)

lemma upd_at_union: "A \<inter> B = {} \<Longrightarrow> upd_at B g (upd_at A g h) = upd_at (A \<union> B) g h"
  by (rule nth_equalityI) (auto simp: nth_upd_at)

lemma upd_at_comp: "upd_at A g2 (upd_at A g1 h) = upd_at A (g2 \<circ> g1) h"
  by (rule nth_equalityI) (auto simp: nth_upd_at)

section \<open>Invariant\<close>

text \<open>Go's \<open>range\<close> visits every key of a map once.\<close>

definition map_order :: "(nat \<Rightarrow> ('k, nat) fmap \<Rightarrow> 'k list) \<Rightarrow> bool" where
  "map_order ord \<longleftrightarrow> (\<forall>n m. distinct (ord n m) \<and> set (ord n m) = fset (fmdom m))"

definition table_inv :: "('k, 'v) table \<Rightarrow> bool" where
  "table_inv t \<longleftrightarrow> (\<exists>e \<le> 62. length (tb_shards t) = 2 ^ e \<and> tb_mask t = 2 ^ e - 1) \<and> map_order (tb_order t) \<and>
     (\<forall>i < length (tb_shards t). \<forall>k a. fmlookup (tb_shards t ! i) k = Some a \<longrightarrow> shard t k = i \<and> a < length (tb_heap t)) \<and>
     (\<forall>k k' a. Table_Get k t = Some a \<longrightarrow> Table_Get k' t = Some a \<longrightarrow> k = k')"

text \<open>What the loops over the shards leave alone.\<close>

definition same_table :: "('k, 'v) table \<Rightarrow> ('k, 'v) table \<Rightarrow> bool" where
  "same_table t t' \<longleftrightarrow> length (tb_shards t') = length (tb_shards t) \<and> tb_mask t' = tb_mask t \<and> tb_hash t' = tb_hash t \<and>
     tb_idle t' = tb_idle t \<and> tb_onClose t' = tb_onClose t \<and> tb_now t' = tb_now t \<and> tb_lastID t' = tb_lastID t \<and>
     tb_order t' = tb_order t"

lemma same_table_refl [simp]: "same_table t t"
  by (simp add: same_table_def)

lemma same_table_trans: "same_table a b \<Longrightarrow> same_table b c \<Longrightarrow> same_table a c"
  by (simp add: same_table_def)

lemma same_table_shard: "same_table t t' \<Longrightarrow> shard t' = shard t"
  by (simp add: same_table_def shard_def fun_eq_iff)

lemma shard_less:
  assumes "table_inv t"
  shows "shard t k < length (tb_shards t)"
proof -
  obtain e where e: "e \<le> 62" "length (tb_shards t) = 2 ^ e" "tb_mask t = 2 ^ e - 1" using assms by (auto simp: table_inv_def)
  have "tb_hash t k AND tb_mask t = take_bit e (tb_hash t k)" by (simp add: e(3) take_bit_eq_mask mask_eq_exp_minus_1)
  then have "shard t k = take_bit e (unat (tb_hash t k))" by (simp add: shard_def unsigned_take_bit_eq)
  then show ?thesis by (simp add: e(2))
qed

lemma shard_lookup:
  assumes "table_inv t" and "i < length (tb_shards t)"
  shows "fmlookup (tb_shards t ! i) k = (if shard t k = i then Table_Get k t else None)"
proof (cases "fmlookup (tb_shards t ! i) k")
  case (Some a)
  then have "shard t k = i" using assms by (simp add: table_inv_def)
  then show ?thesis using Some by (simp add: Table_Get_def)
next
  case None
  then show ?thesis by (auto simp: Table_Get_def)
qed

lemma table_inj: "table_inv t \<Longrightarrow> Table_Get k t = Some a \<Longrightarrow> Table_Get k' t = Some a \<Longrightarrow> k = k'"
  unfolding table_inv_def by blast

lemma table_addr: "table_inv t \<Longrightarrow> Table_Get k t = Some a \<Longrightarrow> a < length (tb_heap t)"
  using shard_less [of t k] unfolding table_inv_def Table_Get_def by blast

text \<open>A way to establish the invariant after an update: the new lookups are a restriction of the old.\<close>

lemma table_inv_shrink:
  assumes "table_inv t" and "same_table t t'" and "length (tb_heap t') = length (tb_heap t)"
    and sub: "\<And>i k a. i < length (tb_shards t) \<Longrightarrow> fmlookup (tb_shards t' ! i) k = Some a \<Longrightarrow> fmlookup (tb_shards t ! i) k = Some a"
  shows "table_inv t'"
proof -
  note sh = same_table_shard [OF assms(2)]
  have get: "Table_Get k t' = Some a \<Longrightarrow> Table_Get k t = Some a" for k a
    using sub [OF shard_less [OF assms(1)], of k k a] by (simp add: Table_Get_def sh)
  have "shard t' k = i \<and> a < length (tb_heap t')"
    if i: "i < length (tb_shards t')" and "fmlookup (tb_shards t' ! i) k = Some a" for i k a
  proof -
    have i': "i < length (tb_shards t)" using i assms(2) by (simp add: same_table_def)
    from sub [OF this that(2)] assms(1) i' show ?thesis unfolding sh assms(3) table_inv_def by blast
  qed
  moreover have "\<exists>e \<le> 62. length (tb_shards t') = 2 ^ e \<and> tb_mask t' = 2 ^ e - 1" "map_order (tb_order t')"
    using assms(1,2) by (simp_all add: table_inv_def same_table_def)
  ultimately show ?thesis using get table_inj [OF assms(1)] unfolding table_inv_def by blast
qed

lemma set_flow_props [simp]:
  "tb_shards (set_flow a f t) = tb_shards t" "tb_heap (set_flow a f t) = (tb_heap t)[a := f]"
  "same_table t (set_flow a f t)" "tb_closed (set_flow a f t) = tb_closed t" "tb_iters (set_flow a f t) = tb_iters t"
  by (simp_all add: set_flow_def same_table_def)

lemma Get_set_flow [simp]: "Table_Get k (set_flow a f t) = Table_Get k t"
  by (simp add: Table_Get_def set_flow_def shard_def)

lemma set_flow_inv [netx_inv]: "table_inv t \<Longrightarrow> table_inv (set_flow a f t)"
  by (erule table_inv_shrink) simp_all

definition drop_key :: "nat \<Rightarrow> 'k \<Rightarrow> ('k, 'v) table \<Rightarrow> ('k, 'v) table" where
  "drop_key i k t = t\<lparr>tb_shards := (tb_shards t)[i := fmdrop k (tb_shards t ! i)]\<rparr>"

lemma drop_key_props [simp]:
  "tb_heap (drop_key i k t) = tb_heap t" "same_table t (drop_key i k t)" "tb_closed (drop_key i k t) = tb_closed t"
  by (simp_all add: drop_key_def same_table_def)

lemma drop_key_inv [netx_inv]: "table_inv t \<Longrightarrow> table_inv (drop_key i k t)"
proof (erule table_inv_shrink)
  fix j k' a
  assume "j < length (tb_shards t)" and "fmlookup (tb_shards (drop_key i k t) ! j) k' = Some a"
  then show "fmlookup (tb_shards t ! j) k' = Some a"
    by (cases "j = i") (auto simp: drop_key_def split: if_splits)
qed simp_all

lemma Get_drop_key:
  assumes "table_inv t" and "shard t k = i"
  shows "Table_Get k' (drop_key i k t) = (if k' = k then None else Table_Get k' t)"
  using assms(2) shard_less [OF assms(1), of k] by (auto simp: Table_Get_def drop_key_def shard_def nth_list_update)

section \<open>The loops of Sweep\<close>

definition old :: "i64 \<Rightarrow> 'v flow \<Rightarrow> bool" where
  "old cutoff f \<longleftrightarrow> sint (LastSeen f) < sint cutoff"

lemma expire_old: "fst (expire cutoff f) \<longleftrightarrow> old cutoff f" "\<not> old cutoff f \<Longrightarrow> snd (expire cutoff f) = f"
  by (auto simp: expire_def old_def LastSeen_def)

definition victims :: "i64 \<Rightarrow> ('k, 'v) table \<Rightarrow> 'k set \<Rightarrow> ('k \<times> nat) set" where
  "victims cutoff t K = {(k, a). k \<in> K \<and> Table_Get k t = Some a \<and> old cutoff (tb_heap t ! a)}"

text \<open>The victims found so far, with the table they have left.\<close>

definition swept :: "i64 \<Rightarrow> ('k, 'v) table \<Rightarrow> 'k set \<Rightarrow> ('k \<times> nat) list \<Rightarrow> ('k, 'v) table \<Rightarrow> bool" where
  "swept cutoff t K vs t' \<longleftrightarrow> table_inv t' \<and> same_table t t' \<and> tb_closed t' = tb_closed t \<and>
     distinct vs \<and> set vs = victims cutoff t K \<and>
     (\<forall>k. Table_Get k t' = (if k \<in> fst ` set vs then None else Table_Get k t)) \<and>
     tb_heap t' = upd_at (snd ` set vs) (\<lambda>f. snd (expire cutoff f)) (tb_heap t)"

lemma victims_inj:
  assumes "table_inv t" and "(k, a) \<in> victims c t K" and "(k', a) \<in> victims c t K'"
  shows "k = k'"
  using assms table_inj by (auto simp: victims_def)

text \<open>Sweeping two disjoint sets of keys, one after the other.\<close>

lemma swept_append:
  assumes inv: "table_inv t" and s1: "swept c t K vs t1" and s2: "swept c t1 K' ws t2" and dj: "K \<inter> K' = {}"
  shows "swept c t (K \<union> K') (vs @ ws) t2"
proof -
  have v1: "set vs = victims c t K" and g1: "\<And>k. Table_Get k t1 = (if k \<in> fst ` set vs then None else Table_Get k t)"
    and h1: "tb_heap t1 = upd_at (snd ` set vs) (\<lambda>f. snd (expire c f)) (tb_heap t)" using s1 by (simp_all add: swept_def)
  have v2: "set ws = victims c t1 K'" and g2: "\<And>k. Table_Get k t2 = (if k \<in> fst ` set ws then None else Table_Get k t1)"
    and h2: "tb_heap t2 = upd_at (snd ` set ws) (\<lambda>f. snd (expire c f)) (tb_heap t1)" using s2 by (simp_all add: swept_def)
  have get1: "Table_Get k t1 = Table_Get k t" if "k \<in> K'" for k
  proof -
    have "k \<notin> fst ` set vs" using that dj unfolding v1 by (auto simp: victims_def)
    then show ?thesis by (simp add: g1)
  qed
  have heap1: "tb_heap t1 ! a = tb_heap t ! a" if "k \<in> K'" "Table_Get k t = Some a" for k a
  proof -
    have "a \<notin> snd ` set vs"
    proof
      assume "a \<in> snd ` set vs"
      then obtain k' where "k' \<in> K" "Table_Get k' t = Some a" unfolding v1 by (auto simp: victims_def)
      then show False using table_inj [OF inv that(2)] that(1) dj by blast
    qed
    then show ?thesis using table_addr [OF inv that(2)] by (simp add: h1 nth_upd_at)
  qed
  have ws: "set ws = victims c t K'" unfolding v2 victims_def using get1 heap1 by fastforce
  have vw: "fst ` set vs \<inter> fst ` set ws = {}" unfolding v1 ws using dj by (auto simp: victims_def)
  have "snd ` set vs \<inter> snd ` set ws = {}"
  proof (rule ccontr)
    assume "snd ` set vs \<inter> snd ` set ws \<noteq> {}"
    then obtain k k' a where ka: "(k, a) \<in> victims c t K" "(k', a) \<in> victims c t K'" unfolding v1 ws by auto
    with victims_inj [OF inv ka] dj show False by (auto simp: victims_def)
  qed
  from upd_at_union [OF this] have h: "tb_heap t2 = upd_at (snd ` set (vs @ ws)) (\<lambda>f. snd (expire c f)) (tb_heap t)"
    unfolding h2 h1 by (simp add: image_Un)
  have g: "Table_Get k t2 = (if k \<in> fst ` set (vs @ ws) then None else Table_Get k t)" for k
    unfolding g2 g1 by auto
  have "distinct (vs @ ws)" using s1 s2 vw by (auto simp: swept_def)
  moreover have "set (vs @ ws) = victims c t (K \<union> K')" using v1 ws by (auto simp: victims_def)
  moreover have "table_inv t2" "same_table t t2" "tb_closed t2 = tb_closed t"
    using s1 s2 same_table_trans [of t t1 t2] by (simp_all add: swept_def)
  ultimately show ?thesis using g h unfolding swept_def by blast
qed

lemma swept_none: "table_inv t \<Longrightarrow> (\<And>a. Table_Get k t = Some a \<Longrightarrow> \<not> old c (tb_heap t ! a)) \<Longrightarrow> swept c t {k} [] t"
  by (auto simp: swept_def victims_def)

lemma swept_one:
  assumes "table_inv t" and "shard t k = i" and "Table_Get k t = Some a" and "old c (tb_heap t ! a)"
  shows "swept c t {k} [(k, a)] (drop_key i k (set_flow a (snd (expire c (tb_heap t ! a))) t))"
proof -
  let ?t1 = "set_flow a (snd (expire c (tb_heap t ! a))) t"
  have inv1: "table_inv ?t1" by (rule set_flow_inv [OF assms(1)])
  have "shard ?t1 k = i" using assms(2) same_table_shard [OF set_flow_props(3)] by metis
  note g = Get_drop_key [OF inv1 this]
  have "set [(k, a)] = victims c t {k}" using assms(3,4) by (auto simp: victims_def)
  moreover have "same_table t (drop_key i k ?t1)" by (meson drop_key_props(2) same_table_trans set_flow_props(3))
  moreover have "tb_heap (drop_key i k ?t1) = upd_at (snd ` set [(k, a)]) (\<lambda>f. snd (expire c f)) (tb_heap t)"
    using upd_at_single [of "tb_heap t" a "\<lambda>f. snd (expire c f)"] by simp
  moreover have "Table_Get x (drop_key i k ?t1) = (if x \<in> fst ` set [(k, a)] then None else Table_Get x t)" for x
    by (simp add: g)
  ultimately show ?thesis using drop_key_inv [OF inv1, of i k] unfolding swept_def by simp
qed

lemma sweep_keys_swept:
  assumes "table_inv t" and "i < length (tb_shards t)" and "distinct ks" and "\<forall>k \<in> set ks. shard t k = i"
    and "sweep_keys c i ks t = (vs, t')"
  shows "swept c t (set ks) vs t'"
  using assms
proof (induction ks arbitrary: t vs)
  case Nil
  then show ?case by (simp add: swept_def victims_def)
next
  case (Cons k ks)
  have sk: "shard t k = i" using Cons.prems(4) by simp
  have lk: "fmlookup (tb_shards t ! i) k = Table_Get k t" using sk by (simp add: Table_Get_def)
  have dj: "{k} \<inter> set ks = {}" using Cons.prems(3) by simp
  have rest: "swept c t (set (k # ks)) (us @ ws) t'"
    if "swept c t {k} us t1" "sweep_keys c i ks t1 = (ws, t')" for us ws t1
  proof -
    have inv1: "table_inv t1" and st: "same_table t t1" using that(1) by (simp_all add: swept_def)
    have "swept c t1 (set ks) ws t'"
      using Cons.IH [OF inv1 _ _ _ that(2)] Cons.prems(2-4) st same_table_shard [OF st] by (simp add: same_table_def)
    from swept_append [OF Cons.prems(1) that(1) this dj] show ?thesis by simp
  qed
  show ?case
  proof (cases "Table_Get k t")
    case None
    then show ?thesis using rest [OF swept_none [OF Cons.prems(1)]] Cons.prems(5) lk by simp
  next
    case (Some a)
    show ?thesis
    proof (cases "old c (tb_heap t ! a)")
      case True
      let ?t1 = "drop_key i k (set_flow a (snd (expire c (tb_heap t ! a))) t)"
      obtain ws u where r: "sweep_keys c i ks ?t1 = (ws, u)" by (cases "sweep_keys c i ks ?t1")
      then have "sweep_keys c i ks ?t1 = (ws, t')" "vs = (k, a) # ws"
        using Cons.prems(5) lk Some True expire_old(1) [of c "tb_heap t ! a"]
        by (simp_all add: drop_key_def case_prod_beta Let_def)
      then show ?thesis using rest [OF swept_one [OF Cons.prems(1) sk Some True]] by simp
    next
      case False
      have "set_flow a (tb_heap t ! a) t = t" by (simp add: set_flow_def)
      then have "sweep_keys c i ks t = (vs, t')"
        using Cons.prems(5) lk Some False expire_old [of c "tb_heap t ! a"] by (simp add: case_prod_beta)
      moreover have "swept c t {k} [] t" by (rule swept_none [OF Cons.prems(1)]) (use Some False in auto)
      ultimately show ?thesis using rest [of "[]" t vs] by simp
    qed
  qed
qed

text \<open>The counter of \<open>range\<close> loops is bookkeeping of the model: nothing else depends on it.\<close>

lemma iters_irrelevant [simp]:
  "Table_Get k (t\<lparr>tb_iters := n\<rparr>) = Table_Get k t" "shard (t\<lparr>tb_iters := n\<rparr>) = shard t"
  "victims c (t\<lparr>tb_iters := n\<rparr>) K = victims c t K" "same_table (t\<lparr>tb_iters := n\<rparr>) t' = same_table t t'"
  "same_table t' (t\<lparr>tb_iters := n\<rparr>) = same_table t' t"
  by (simp_all add: Table_Get_def shard_def victims_def same_table_def fun_eq_iff)

lemma iters_inv [simp]: "table_inv (t\<lparr>tb_iters := n\<rparr>) = table_inv t"
  by (simp add: table_inv_def)

lemma swept_iters [simp]: "swept c (t\<lparr>tb_iters := n\<rparr>) K vs t' = swept c t K vs t'"
  by (simp add: swept_def)

lemma map_order_shard:
  assumes "table_inv t" and "i < length (tb_shards t)"
  shows "distinct (tb_order t n (tb_shards t ! i))"
    and "set (tb_order t n (tb_shards t ! i)) = {k. shard t k = i \<and> Table_Get k t \<noteq> None}"
proof -
  have "map_order (tb_order t)" using assms(1) by (simp add: table_inv_def)
  then show "distinct (tb_order t n (tb_shards t ! i))"
    and "set (tb_order t n (tb_shards t ! i)) = {k. shard t k = i \<and> Table_Get k t \<noteq> None}"
    using shard_lookup [OF assms] unfolding map_order_def by (auto simp: fmlookup_dom_iff split: if_splits)
qed

lemma sweep_shards_swept:
  assumes "table_inv t" and "distinct is" and "set is \<subseteq> {..<length (tb_shards t)}" and "sweep_shards c is t = (vs, t')"
  shows "swept c t {k. shard t k \<in> set is} vs t'"
  using assms
proof (induction "is" arbitrary: t vs)
  case Nil
  then show ?case by (simp add: swept_def victims_def)
next
  case (Cons i "is")
  let ?ks = "tb_order t (tb_iters t) (tb_shards t ! i)" and ?t0 = "t\<lparr>tb_iters := tb_iters t + 1\<rparr>"
  obtain us t1 where k: "sweep_keys c i ?ks ?t0 = (us, t1)" by (cases "sweep_keys c i ?ks ?t0")
  obtain ws u where "sweep_shards c is t1 = (ws, u)" by (cases "sweep_shards c is t1")
  then have vs: "vs = us @ ws" and r: "sweep_shards c is t1 = (ws, t')"
    using Cons.prems(4) k by (simp_all add: range_keys_def)
  have i: "i < length (tb_shards t)" using Cons.prems(3) by simp
  note ks = map_order_shard [OF Cons.prems(1) i, of "tb_iters t"]
  have "swept c ?t0 (set ?ks) us t1"
    by (rule sweep_keys_swept [OF _ _ ks(1) _ k]) (use Cons.prems(1) i ks(2) in auto)
  moreover have "victims c t (set ?ks) = victims c t {k. shard t k = i}" unfolding ks(2) by (auto simp: victims_def)
  ultimately have s1: "swept c t {k. shard t k = i} us t1" by (simp add: swept_def)
  then have st: "same_table t t1" and inv1: "table_inv t1" by (simp_all add: swept_def)
  have "swept c t1 {k. shard t k \<in> set is} ws t'"
    using Cons.IH [OF inv1 _ _ r] Cons.prems(2,3) st same_table_shard [OF st] by (simp add: same_table_def)
  from swept_append [OF Cons.prems(1) s1 this]
  have "swept c t ({k. shard t k = i} \<union> {k. shard t k \<in> set is}) vs t'" using Cons.prems(2) vs by auto
  moreover have "{k. shard t k = i} \<union> {k. shard t k \<in> set is} = {k. shard t k \<in> set (i # is)}" by auto
  ultimately show ?case by simp
qed

section \<open>Closing the flows that left\<close>

lemma upd_at_idem:
  assumes "\<And>f. g (g f) = g f"
  shows "upd_at B g (upd_at A g h) = upd_at (A \<union> B) g h"
  by (rule nth_equalityI) (auto simp: nth_upd_at assms)

lemma Flow_Close_idem: "snd (Flow_Close (snd (Flow_Close f))) = snd (Flow_Close f)"
  by (simp add: Flow_Close_eq freeze_def)

lemma close_all_eq:
  "close_all vs t = t\<lparr>tb_heap := upd_at (snd ` set vs) (\<lambda>f. snd (Flow_Close f)) (tb_heap t),
     tb_closed := tb_closed t @ (if tb_onClose t then vs else [])\<rparr>"
proof (induction vs arbitrary: t)
  case (Cons v vs)
  obtain k a where v: "v = (k, a)" by (cases v)
  have "tb_heap (Table_closed k a t) = upd_at {a} (\<lambda>f. snd (Flow_Close f)) (tb_heap t)"
    using upd_at_single [of "tb_heap t" a "\<lambda>f. snd (Flow_Close f)"] by (simp add: Table_closed_def Let_def)
  moreover have "upd_at (snd ` set vs) (\<lambda>f. snd (Flow_Close f)) (upd_at {a} (\<lambda>f. snd (Flow_Close f)) (tb_heap t))
      = upd_at (insert a (snd ` set vs)) (\<lambda>f. snd (Flow_Close f)) (tb_heap t)"
    using upd_at_idem [of "\<lambda>f. snd (Flow_Close f)" "snd ` set vs" "{a}"] by (simp add: Flow_Close_idem)
  ultimately show ?case using Cons.IH [of "Table_closed k a t"] by (simp add: v Table_closed_def set_flow_def Let_def)
qed simp

text \<open>Every pair of a list of maps, in the order in which \<open>range\<close> loops visit them from the \<open>n\<close>-th on.\<close>

fun visit :: "(nat \<Rightarrow> ('k, nat) fmap \<Rightarrow> 'k list) \<Rightarrow> nat \<Rightarrow> ('k, nat) fmap list \<Rightarrow> ('k \<times> nat) list" where
  "visit ord n [] = []"
| "visit ord n (m # ms) = map (\<lambda>k. (k, the (fmlookup m k))) (ord n m) @ visit ord (n + 1) ms"

lemma set_visit:
  assumes "map_order ord"
  shows "set (visit ord n ms) = {(k, a). \<exists>m \<in> set ms. fmlookup m k = Some a}"
proof (induction ms arbitrary: n)
  case (Cons m ms)
  have "set (ord n m) = fset (fmdom m)" using assms by (simp add: map_order_def)
  then have "(\<lambda>k. (k, the (fmlookup m k))) ` set (ord n m) = {(k, a). fmlookup m k = Some a}"
    by (force simp: fmlookup_dom_iff)
  then show ?case using Cons.IH [of "n + 1"] by auto
qed simp

lemma distinct_visit:
  assumes "map_order ord" and "\<And>i k. i < length ms \<Longrightarrow> fmlookup (ms ! i) k \<noteq> None \<Longrightarrow> g k = off + i"
  shows "distinct (visit ord n ms)"
  using assms(2)
proof (induction ms arbitrary: n off)
  case (Cons m ms)
  have o: "distinct (ord n m)" "set (ord n m) = fset (fmdom m)" using assms(1) by (simp_all add: map_order_def)
  have hd: "g k = off" if "k \<in> set (ord n m)" for k
    using Cons.prems [of 0 k] that o(2) by (auto simp: fmlookup_dom_iff)
  have tl: "g k = Suc off + i" if "i < length ms" "fmlookup (ms ! i) k \<noteq> None" for i k
    using Cons.prems [of "Suc i" k] that by simp
  have "Suc off \<le> g k" if "(k, a) \<in> set (visit ord (n + 1) ms)" for k a
    using that tl unfolding set_visit [OF assms(1)] by (fastforce simp: in_set_conv_nth)
  then have "set (map (\<lambda>k. (k, the (fmlookup m k))) (ord n m)) \<inter> set (visit ord (n + 1) ms) = {}"
    using hd by fastforce
  moreover have "distinct (map (\<lambda>k. (k, the (fmlookup m k))) (ord n m))" using o(1) by (simp add: distinct_map inj_on_def)
  ultimately show ?case using Cons.IH [OF tl] by simp
qed simp

text \<open>The pairs of the table, as one map has them.\<close>

definition flows_of :: "('k, 'v) table \<Rightarrow> ('k \<times> nat) set" where
  "flows_of t = {(k, a). Table_Get k t = Some a}"

lemma visit_table:
  assumes "table_inv t"
  shows "set (visit (tb_order t) n (tb_shards t)) = flows_of t" and "distinct (visit (tb_order t) n (tb_shards t))"
proof -
  have ord: "map_order (tb_order t)" using assms by (simp add: table_inv_def)
  show "distinct (visit (tb_order t) n (tb_shards t))"
    by (rule distinct_visit [OF ord, of _ "shard t" 0]) (auto simp: shard_lookup [OF assms] split: if_splits)
  have "(\<exists>m \<in> set (tb_shards t). fmlookup m k = Some a) \<longleftrightarrow> Table_Get k t = Some a" for k a
    using shard_less [OF assms, of k] unfolding in_set_conv_nth Bex_def
    by (metis shard_lookup [OF assms] option.distinct(1) Table_Get_def)
  then show "set (visit (tb_order t) n (tb_shards t)) = flows_of t" by (simp add: set_visit [OF ord] flows_of_def)
qed

lemma finite_flows_of [simp]: "table_inv t \<Longrightarrow> finite (flows_of t)"
  using visit_table(1) [of t 0] by (metis List.finite_set)

lemma length_visit: "map_order ord \<Longrightarrow> length (visit ord n ms) = (\<Sum>m \<leftarrow> ms. fcard (fmdom m))"
proof (induction ms arbitrary: n)
  case (Cons m ms)
  then have "distinct (ord n m)" "set (ord n m) = fset (fmdom m)" by (simp_all add: map_order_def)
  then have "length (ord n m) = fcard (fmdom m)" by (simp add: fcard.rep_eq distinct_card [symmetric])
  then show ?case using Cons by simp
qed simp

lemma Len_eq:
  assumes "table_inv t"
  shows "Table_Len t = card (flows_of t)"
proof -
  have "map_order (tb_order t)" using assms by (simp add: table_inv_def)
  then show ?thesis using visit_table [OF assms, of 0] length_visit [of "tb_order t" 0 "tb_shards t"]
    by (metis Table_Len_def distinct_card)
qed

lemma close_shards_eq:
  assumes "distinct is" and "set is \<subseteq> {..<length (tb_shards t)}"
  shows "close_shards is t = close_all (visit (tb_order t) (tb_iters t) (map ((!) (tb_shards t)) is))
     (t\<lparr>tb_shards := map (\<lambda>i. if i \<in> set is then fmempty else tb_shards t ! i) [0..<length (tb_shards t)],
        tb_iters := tb_iters t + length is\<rparr>)"
  using assms
proof (induction "is" arbitrary: t)
  case Nil
  have "map ((!) (tb_shards t)) [0..<length (tb_shards t)] = tb_shards t" by (rule map_nth)
  then show ?case by simp
next
  case (Cons i "is")
  let ?vs = "map (\<lambda>k. (k, the (fmlookup (tb_shards t ! i) k))) (tb_order t (tb_iters t) (tb_shards t ! i))"
  let ?t1 = "close_all ?vs (t\<lparr>tb_shards := (tb_shards t)[i := fmempty], tb_iters := tb_iters t + 1\<rparr>)"
  have sh: "tb_shards ?t1 = (tb_shards t)[i := fmempty]" by (simp add: close_all_eq)
  have m: "map ((!) (tb_shards ?t1)) is = map ((!) (tb_shards t)) is" unfolding sh using Cons.prems(1) by (auto intro!: nth_list_update_neq)
  have c: "map (\<lambda>j. if j \<in> set is then fmempty else tb_shards ?t1 ! j) [0..<length (tb_shards ?t1)]
      = map (\<lambda>j. if j \<in> set (i # is) then fmempty else tb_shards t ! j) [0..<length (tb_shards t)]"
    unfolding sh by (auto simp: nth_list_update)
  have "close_shards (i # is) t = close_shards is ?t1" by (simp add: range_keys_def Let_def)
  also have "\<dots> = close_all (visit (tb_order ?t1) (tb_iters ?t1) (map ((!) (tb_shards ?t1)) is))
     (?t1\<lparr>tb_shards := map (\<lambda>j. if j \<in> set is then fmempty else tb_shards ?t1 ! j) [0..<length (tb_shards ?t1)],
          tb_iters := tb_iters ?t1 + length is\<rparr>)"
    by (rule Cons.IH) (use Cons.prems in \<open>auto simp: close_all_eq\<close>)
  also have "\<dots> = close_all (visit (tb_order t) (tb_iters t + 1) (map ((!) (tb_shards t)) is))
     (?t1\<lparr>tb_shards := map (\<lambda>j. if j \<in> set (i # is) then fmempty else tb_shards t ! j) [0..<length (tb_shards t)],
          tb_iters := tb_iters t + 1 + length is\<rparr>)"
    unfolding m c by (simp add: close_all_eq)
  finally show ?case
    by (simp add: close_all_eq upd_at_idem Flow_Close_idem image_Un del: close_shards.simps)
qed

lemma range_loop_collects:
  "range_loop (\<lambda>k a s. Ret True (s @ [(k, a)])) ps s = Ret True (s @ ps)"
  by (induction ps arbitrary: s) auto

lemma Range_shards_collects:
  "Range_shards (\<lambda>k a s. Ret True (s @ [(k, a)])) ms s t =
     (Ret () (s @ visit (tb_order t) (tb_iters t) ms), t\<lparr>tb_iters := tb_iters t + length ms\<rparr>)"
  by (induction ms arbitrary: s t) (simp_all add: rangeLocked_def range_keys_def range_loop_collects)

section \<open>One map\<close>

text \<open>
  The specification: one map from keys to flows, with no shards, no hash and no iteration order.
  The calls of \<open>OnClose\<close> are a multiset.
\<close>

record ('k, 'v) tspec =
  ts_map :: "'k \<Rightarrow> nat option"
  ts_heap :: "'v flow list"
  ts_now :: i64
  ts_lastID :: u64
  ts_idle :: i64
  ts_onClose :: bool
  ts_closed :: "('k \<times> nat) multiset"

datatype ('k, 'v) tcall =
    CGet 'k | CGetAndTouch i64 'k | CGetOrOpen 'k "'v new_value" | CRemove 'k u64 | CLen | CRange | CSweep i64 | CClose
  | CTouch i64 nat | CBeginClose nat | CFlowClose nat | CNextID

datatype 'k tres = RFlow "nat option" | ROpen nat bool | RPanic string | RBool bool | RInt nat | RFlows "('k \<times> nat) multiset"
  | RID u64 | RUnit

text \<open>A user of the table: its own calls, calls on flows that were handed out, and IDs taken by others.\<close>

fun tstep :: "('k, 'v :: zero) tcall \<Rightarrow> ('k, 'v) table \<Rightarrow> 'k tres \<times> ('k, 'v) table" where
  "tstep (CGet k) t = (RFlow (Table_Get k t), t)"
| "tstep (CGetAndTouch now k) t = (let (r, t') = Table_GetAndTouch now k t in (RFlow r, t'))"
| "tstep (CGetOrOpen k v) t =
     (case Table_GetOrOpen k v t of Ret (a, b) t' \<Rightarrow> (ROpen a b, t') | Panic m t' \<Rightarrow> (RPanic m, t'))"
| "tstep (CRemove k fid) t = (let (b, t') = Table_Remove k fid t in (RBool b, t'))"
| "tstep CLen t = (RInt (Table_Len t), t)"
| "tstep CRange t =
     (case Table_Range (\<lambda>k a s. Ret True (s @ [(k, a)])) [] t of (Ret x s, t') \<Rightarrow> (RFlows (mset s), t') | (Panic m s, t') \<Rightarrow> (RPanic m, t'))"
| "tstep (CSweep now) t = (let (n, t') = Table_Sweep now t in (RInt n, t'))"
| "tstep CClose t = (RUnit, Table_Close t)"
| "tstep (CTouch now a) t = (RUnit, set_flow a (Touch (tb_now t) now (tb_heap t ! a)) t)"
| "tstep (CBeginClose a) t = (let (b, f) = BeginClose (tb_heap t ! a) in (RBool b, set_flow a f t))"
| "tstep (CFlowClose a) t = (let (b, f) = Flow_Close (tb_heap t ! a) in (RBool b, set_flow a f t))"
| "tstep CNextID t = (let (i, n) = NextID (tb_lastID t) in (RID i, t\<lparr>tb_lastID := n\<rparr>))"

definition spec_set :: "nat \<Rightarrow> 'v flow \<Rightarrow> ('k, 'v) tspec \<Rightarrow> ('k, 'v) tspec" where
  "spec_set a f s = s\<lparr>ts_heap := (ts_heap s)[a := f]\<rparr>"

definition spec_open :: "'k \<Rightarrow> 'v \<Rightarrow> ('k, 'v) tspec \<Rightarrow> 'k tres \<times> ('k, 'v) tspec" where
  "spec_open k v s =
     (let (f, n) = newInTable v (ts_now s) (ts_lastID s)
      in (ROpen (length (ts_heap s)) True,
          s\<lparr>ts_heap := ts_heap s @ [f], ts_lastID := n, ts_map := (ts_map s)(k \<mapsto> length (ts_heap s))\<rparr>))"

text \<open>The flows of the pairs \<open>V\<close> leave the map: each goes through \<open>g\<close>, and \<open>OnClose\<close> runs once for each.\<close>

definition spec_leave :: "('k \<times> nat) set \<Rightarrow> ('v flow \<Rightarrow> 'v flow) \<Rightarrow> ('k, 'v) tspec \<Rightarrow> ('k, 'v) tspec" where
  "spec_leave V g s =
     s\<lparr>ts_map := (\<lambda>k. if k \<in> fst ` V then None else ts_map s k),
       ts_heap := upd_at (snd ` V) g (ts_heap s),
       ts_closed := ts_closed s + (if ts_onClose s then mset_set V else {#})\<rparr>"

definition retire :: "'v flow \<Rightarrow> 'v flow" where
  "retire f = freeze (f\<lparr>fl_state := Closed\<rparr>)"

definition spec_flows :: "('k, 'v) tspec \<Rightarrow> ('k \<times> nat) set" where
  "spec_flows s = {(k, a). ts_map s k = Some a}"

definition spec_idle :: "i64 \<Rightarrow> ('k, 'v) tspec \<Rightarrow> ('k \<times> nat) set" where
  "spec_idle now s = {(k, a). ts_map s k = Some a \<and> old (now - ts_idle s) (ts_heap s ! a)}"

definition spec_advance :: "i64 \<Rightarrow> ('k, 'v) tspec \<Rightarrow> ('k, 'v) tspec" where
  "spec_advance now s = s\<lparr>ts_now := (if sint now \<le> sint (ts_now s) then ts_now s else now)\<rparr>"

fun sstep :: "('k, 'v :: zero) tcall \<Rightarrow> ('k, 'v) tspec \<Rightarrow> 'k tres \<times> ('k, 'v) tspec" where
  "sstep (CGet k) s = (RFlow (ts_map s k), s)"
| "sstep (CGetAndTouch now k) s =
     (RFlow (ts_map s k), case ts_map s k of None \<Rightarrow> s | Some a \<Rightarrow> spec_set a (Touch (ts_now s) now (ts_heap s ! a)) s)"
| "sstep (CGetOrOpen k v) s =
     (case ts_map s k of
        Some a \<Rightarrow> (ROpen a False, s)
      | None \<Rightarrow> (case v of NilFn \<Rightarrow> spec_open k 0 s | Returns v \<Rightarrow> spec_open k v s | Panics m \<Rightarrow> (RPanic m, s)))"
| "sstep (CRemove k fid) s =
     (case ts_map s k of
        None \<Rightarrow> (RBool False, s)
      | Some a \<Rightarrow> if fl_id (ts_heap s ! a) = fid then (RBool True, spec_leave {(k, a)} retire s) else (RBool False, s))"
| "sstep CLen s = (RInt (card (spec_flows s)), s)"
| "sstep CRange s = (RFlows (mset_set (spec_flows s)), s)"
| "sstep (CSweep now) s =
     (if sint (ts_idle s) \<le> 0 then (RInt 0, spec_advance now s)
      else (RInt (card (spec_idle now s)), spec_leave (spec_idle now s) retire (spec_advance now s)))"
| "sstep CClose s = (RUnit, spec_leave (spec_flows s) (\<lambda>f. snd (Flow_Close f)) s)"
| "sstep (CTouch now a) s = (RUnit, spec_set a (Touch (ts_now s) now (ts_heap s ! a)) s)"
| "sstep (CBeginClose a) s = (RBool (fst (BeginClose (ts_heap s ! a))), spec_set a (snd (BeginClose (ts_heap s ! a))) s)"
| "sstep (CFlowClose a) s = (RBool (fst (Flow_Close (ts_heap s ! a))), spec_set a (snd (Flow_Close (ts_heap s ! a))) s)"
| "sstep CNextID s = (RID (ts_lastID s + 1), s\<lparr>ts_lastID := ts_lastID s + 1\<rparr>)"

definition table_abs :: "('k, 'v) table \<Rightarrow> ('k, 'v) tspec" where
  "table_abs t = \<lparr>ts_map = (\<lambda>k. Table_Get k t), ts_heap = tb_heap t, ts_now = tb_now t, ts_lastID = tb_lastID t,
     ts_idle = tb_idle t, ts_onClose = tb_onClose t, ts_closed = mset (tb_closed t)\<rparr>"

lemma table_abs_simps [simp]:
  "ts_map (table_abs t) k = Table_Get k t" "ts_heap (table_abs t) = tb_heap t" "ts_now (table_abs t) = tb_now t"
  "ts_lastID (table_abs t) = tb_lastID t" "ts_idle (table_abs t) = tb_idle t" "ts_onClose (table_abs t) = tb_onClose t"
  "ts_closed (table_abs t) = mset (tb_closed t)" "spec_flows (table_abs t) = flows_of t"
  by (simp_all add: table_abs_def spec_flows_def flows_of_def)

lemma table_abs_iters [simp]: "table_abs (t\<lparr>tb_iters := n\<rparr>) = table_abs t"
  by (simp add: table_abs_def)

lemma table_abs_set_flow [simp]: "table_abs (set_flow a f t) = spec_set a f (table_abs t)"
  by (simp add: table_abs_def spec_set_def set_flow_def Table_Get_def shard_def)

lemma snd_expire_Close: "old c f \<Longrightarrow> snd (Flow_Close (snd (expire c f))) = retire f"
  by (cases f) (auto simp: expire_def old_def LastSeen_def Flow_Close_eq retire_def freeze_def set_frozen_id)

lemma snd_freeze_Close: "snd (Flow_Close (freeze f)) = retire f"
  by (cases f) (auto simp: Flow_Close_eq retire_def freeze_def)

subsection \<open>Opening\<close>

definition insert_flow :: "'k \<Rightarrow> 'v flow \<Rightarrow> u64 \<Rightarrow> ('k, 'v) table \<Rightarrow> ('k, 'v) table" where
  "insert_flow k f n t = t\<lparr>tb_heap := tb_heap t @ [f], tb_lastID := n,
     tb_shards := (tb_shards t)[shard t k := fmupd k (length (tb_heap t)) (tb_shards t ! shard t k)]\<rparr>"

lemma Get_insert_flow:
  "table_inv t \<Longrightarrow> Table_Get k' (insert_flow k f n t) = (if k' = k then Some (length (tb_heap t)) else Table_Get k' t)"
  using shard_less [of t k] by (auto simp: Table_Get_def insert_flow_def shard_def nth_list_update)

lemma insert_flow_inv [netx_inv]:
  assumes "table_inv t"
  shows "table_inv (insert_flow k f n t)"
proof -
  let ?t = "insert_flow k f n t"
  have sh: "shard ?t = shard t" by (simp add: shard_def insert_flow_def fun_eq_iff)
  have l: "length (tb_shards ?t) = length (tb_shards t)" "tb_mask ?t = tb_mask t" "tb_order ?t = tb_order t"
    "length (tb_heap ?t) = Suc (length (tb_heap t))" by (simp_all add: insert_flow_def)
  have "shard ?t k' = i \<and> a < length (tb_heap ?t)"
    if i: "i < length (tb_shards ?t)" and "fmlookup (tb_shards ?t ! i) k' = Some a" for i k' a
  proof (cases "i = shard t k \<and> k' = k")
    case False
    then have "fmlookup (tb_shards t ! i) k' = Some a"
      using that l(1) by (cases "i = shard t k") (auto simp: insert_flow_def)
    then have "shard t k' = i \<and> a < length (tb_heap t)" using assms i l(1) unfolding table_inv_def by auto
    then show ?thesis by (simp add: sh l)
  qed (unfold sh, use that shard_less [OF assms, of k] in \<open>auto simp: insert_flow_def\<close>)
  moreover have "k1 = k2" if "Table_Get k1 ?t = Some a" "Table_Get k2 ?t = Some a" for k1 k2 a
    using that table_inj [OF assms, of k1 a k2] table_addr [OF assms, of k1 a] table_addr [OF assms, of k2 a]
    by (auto simp: Get_insert_flow [OF assms] split: if_splits)
  moreover have "\<exists>e \<le> 62. length (tb_shards ?t) = 2 ^ e \<and> tb_mask ?t = 2 ^ e - 1" "map_order (tb_order ?t)"
    using assms unfolding l table_inv_def by auto
  ultimately show ?thesis unfolding table_inv_def by blast
qed

lemma GetOrOpen_eq:
  "Table_GetOrOpen k v t =
     (case Table_Get k t of
        Some a \<Rightarrow> Ret (a, False) t
      | None \<Rightarrow> (let ins = \<lambda>x. Ret (length (tb_heap t), True) (insert_flow k (fst (newInTable x (tb_now t) (tb_lastID t)))
                                 (snd (newInTable x (tb_now t) (tb_lastID t))) t)
                 in case v of NilFn \<Rightarrow> ins 0 | Returns x \<Rightarrow> ins x | Panics m \<Rightarrow> Panic m t))"
  by (simp add: Table_GetOrOpen_def Table_Get_def insert_flow_def case_prod_beta Let_def split: option.splits new_value.splits)

lemma insert_flow_refines:
  assumes "table_inv t"
  shows "spec_open k v (table_abs t) =
    (ROpen (length (tb_heap t)) True,
     table_abs (insert_flow k (fst (newInTable v (tb_now t) (tb_lastID t))) (snd (newInTable v (tb_now t) (tb_lastID t))) t))"
proof -
  have "(\<lambda>k'. Table_Get k' t)(k \<mapsto> length (tb_heap t)) = (\<lambda>k'. Table_Get k' (insert_flow k f n t))" for f n
    by (auto simp: Get_insert_flow [OF assms])
  then show ?thesis by (simp add: spec_open_def table_abs_def case_prod_beta) (simp add: insert_flow_def)
qed

lemma GetOrOpen_refines:
  assumes "table_inv t"
  shows "sstep (CGetOrOpen k v) (table_abs t) = (fst (tstep (CGetOrOpen k v) t), table_abs (snd (tstep (CGetOrOpen k v) t))) \<and>
    table_inv (snd (tstep (CGetOrOpen k v) t))"
  using assms insert_flow_inv [OF assms]
  by (auto simp: GetOrOpen_eq insert_flow_refines Let_def split: option.splits new_value.splits)

subsection \<open>Leaving\<close>

text \<open>The part of a leave that the three operations share.\<close>

lemma leave_refines:
  assumes inv: "table_inv t'" and st: "same_table t t'" and cl: "tb_closed t' = tb_closed t" and d: "distinct vs"
    and get: "\<And>k. Table_Get k t' = (if k \<in> fst ` set vs then None else Table_Get k t)"
    and h: "upd_at (snd ` set vs) (\<lambda>f. snd (Flow_Close f)) (tb_heap t') = upd_at (snd ` set vs) g (tb_heap t)"
  shows "table_abs (close_all vs t') = spec_leave (set vs) g (table_abs t)" and "table_inv (close_all vs t')"
proof -
  have "Table_Get k (close_all vs t') = Table_Get k t'" for k by (simp add: close_all_eq Table_Get_def shard_def)
  moreover have "mset vs = mset_set (set vs)" using d by (simp add: mset_set_set)
  ultimately show "table_abs (close_all vs t') = spec_leave (set vs) g (table_abs t)"
    using st cl get h by (simp add: table_abs_def spec_leave_def close_all_eq same_table_def fun_eq_iff)
  show "table_inv (close_all vs t')"
    using inv by (rule table_inv_shrink) (simp_all add: close_all_eq same_table_def)
qed

lemma Sweep_refines:
  assumes "table_inv t"
  shows "sstep (CSweep now) (table_abs t) = (fst (tstep (CSweep now) t), table_abs (snd (tstep (CSweep now) t))) \<and>
    table_inv (snd (tstep (CSweep now) t))"
proof -
  let ?t = "advance now t" and ?c = "now - tb_idle t"
  have adv: "table_inv ?t" "table_abs ?t = spec_advance now (table_abs t)" "tb_idle ?t = tb_idle t"
    using assms by (simp_all add: advance_def table_inv_def table_abs_def spec_advance_def Table_Get_def shard_def)
  obtain vs t2 where sw: "sweep_shards ?c [0..<length (tb_shards ?t)] ?t = (vs, t2)" by (cases "sweep_shards ?c [0..<length (tb_shards ?t)] ?t")
  then have "swept ?c ?t {k. shard ?t k \<in> set [0..<length (tb_shards ?t)]} vs t2"
    by (intro sweep_shards_swept adv) auto
  moreover have "{k. shard ?t k \<in> set [0..<length (tb_shards ?t)]} = UNIV" using shard_less [OF adv(1)] by auto
  ultimately have s: "swept ?c ?t UNIV vs t2" by simp
  have V: "set vs = spec_idle now (table_abs t)"
    using s by (simp add: swept_def victims_def spec_idle_def advance_def Table_Get_def shard_def)
  have h2: "tb_heap t2 = upd_at (snd ` set vs) (\<lambda>f. snd (expire ?c f)) (tb_heap ?t)" using s by (simp add: swept_def)
  have o: "old ?c (tb_heap ?t ! a)" if "a \<in> snd ` set vs" for a
    using s that by (auto simp: swept_def victims_def)
  have "upd_at (snd ` set vs) (\<lambda>f. snd (Flow_Close f)) (tb_heap t2) = upd_at (snd ` set vs) retire (tb_heap ?t)"
    unfolding h2 upd_at_comp by (rule nth_equalityI) (simp_all add: nth_upd_at o snd_expire_Close)
  then have l: "table_abs (close_all vs t2) = spec_leave (set vs) retire (table_abs ?t)" "table_inv (close_all vs t2)"
    by (rule leave_refines [rotated 5]; use s in \<open>simp add: swept_def\<close>)+
  have "card (set vs) = length vs" using s unfolding swept_def by (metis distinct_card)
  then show ?thesis using l adv sw V by (simp add: Table_Sweep_def Let_def)
qed

lemma Close_refines:
  assumes "table_inv t"
  shows "table_abs (Table_Close t) = spec_leave (flows_of t) (\<lambda>f. snd (Flow_Close f)) (table_abs t) \<and> table_inv (Table_Close t)"
proof -
  let ?vs = "visit (tb_order t) (tb_iters t) (tb_shards t)" and ?n = "length (tb_shards t)"
  let ?t = "t\<lparr>tb_shards := map (\<lambda>i. fmempty) [0..<?n], tb_iters := tb_iters t + ?n\<rparr>"
  have "map ((!) (tb_shards t)) [0..<?n] = tb_shards t" by (rule map_nth)
  moreover have c: "map (\<lambda>i. if i < ?n then fmempty else tb_shards t ! i) [0..<?n] = map (\<lambda>i. fmempty) [0..<?n]" by simp
  ultimately have eq: "Table_Close t = close_all ?vs ?t"
    using close_shards_eq [of "[0..<?n]" t] unfolding Table_Close_def by (simp add: atLeast0LessThan c)
  have st: "same_table t ?t" by (simp add: same_table_def)
  have inv: "table_inv ?t" using assms by (rule table_inv_shrink) (simp_all add: same_table_def)
  have get: "Table_Get k ?t = None" for k using shard_less [OF assms, of k] by (simp add: Table_Get_def shard_def)
  have vis: "k \<in> fst ` set ?vs" if "Table_Get k t \<noteq> None" for k
    using that unfolding visit_table(1) [OF assms] by (force simp: flows_of_def)
  have get': "Table_Get k ?t = (if k \<in> fst ` set ?vs then None else Table_Get k t)" for k
    using get [of k] vis [of k] by (cases "Table_Get k t") auto
  from leave_refines [OF inv st _ visit_table(2) [OF assms] get']
  show ?thesis unfolding eq visit_table(1) [OF assms] by simp
qed

lemma Remove_refines:
  assumes "table_inv t"
  shows "sstep (CRemove k fid) (table_abs t) = (fst (tstep (CRemove k fid) t), table_abs (snd (tstep (CRemove k fid) t))) \<and>
    table_inv (snd (tstep (CRemove k fid) t))"
proof (cases "Table_Get k t")
  case None
  then show ?thesis using assms by (simp add: Table_Remove_def Table_Get_def)
next
  case (Some a)
  let ?t1 = "set_flow a (freeze (tb_heap t ! a)) t"
  let ?t2 = "drop_key (shard t k) k ?t1"
  have l: "fmlookup (tb_shards t ! shard t k) k = Some a" using Some by (simp add: Table_Get_def)
  have inv1: "table_inv ?t1" using assms by (rule set_flow_inv)
  have sh: "shard ?t1 k = shard t k" by (simp add: shard_def set_flow_def)
  show ?thesis
  proof (cases "fl_id (tb_heap t ! a) = fid")
    case True
    have "upd_at {a} (\<lambda>f. snd (Flow_Close f)) (tb_heap ?t2) = upd_at {a} retire (tb_heap t)"
      by (rule nth_equalityI) (auto simp: nth_upd_at nth_list_update snd_freeze_Close)
    moreover have "same_table t ?t2" by (rule same_table_trans [of t ?t1]) simp_all
    ultimately have r: "table_abs (close_all [(k, a)] ?t2) = spec_leave {(k, a)} retire (table_abs t)"
        "table_inv (close_all [(k, a)] ?t2)"
      using leave_refines [OF drop_key_inv [OF inv1], of t "shard t k" k "[(k, a)]" retire] Get_drop_key [OF inv1 sh]
      by simp_all
    have "Table_Remove k fid t = (True, close_all [(k, a)] ?t2)" using l True by (simp add: Table_Remove_def drop_key_def Let_def)
    then show ?thesis using r Some True by simp
  qed (use assms Some l in \<open>simp add: Table_Remove_def\<close>)
qed

lemma tstep_refines:
  assumes "table_inv t"
  shows "sstep e (table_abs t) = (fst (tstep e t), table_abs (snd (tstep e t))) \<and> table_inv (snd (tstep e t))"
proof (cases e)
  case (CGetAndTouch now k)
  then show ?thesis using assms by (auto simp: Table_GetAndTouch_def set_flow_inv split: option.splits)
next
  case (CGetOrOpen k v)
  then show ?thesis using GetOrOpen_refines [OF assms] by blast
next
  case (CRemove k fid)
  then show ?thesis using Remove_refines [OF assms] by blast
next
  case (CSweep now)
  then show ?thesis using Sweep_refines [OF assms] by blast
next
  case CClose
  then show ?thesis using Close_refines [OF assms] by simp
next
  case CRange
  have "mset (visit (tb_order t) n (tb_shards t)) = mset_set (flows_of t)" for n
    using visit_table [OF assms, of n] by (metis mset_set_set)
  then show ?thesis using assms CRange by (simp add: Table_Range_def Range_shards_collects)
next
  case CNextID
  then show ?thesis using assms
    by (simp add: NextID_def table_abs_def table_inv_def Table_Get_def shard_def)
qed (use assms in \<open>auto simp: Len_eq set_flow_inv case_prod_beta\<close>)

interpretation tables: op_refinement tstep table_inv sstep table_abs
  by unfold_locales (use tstep_refines in blast)+

section \<open>A new table\<close>

definition new_spec :: "i64 \<Rightarrow> u64 \<Rightarrow> i64 \<Rightarrow> bool \<Rightarrow> ('k, 'v) tspec" where
  "new_spec now lastID idle onClose = \<lparr>ts_map = Map.empty, ts_heap = [], ts_now = now, ts_lastID = lastID, ts_idle = idle,
     ts_onClose = onClose, ts_closed = {#}\<rparr>"

lemma NewTable_returns:
  assumes "map_order ord" and "NewTable hash ord now lastID Shards idle onClose = Some t"
  shows "table_inv t" and "table_abs t = new_spec now lastID idle onClose" and "tb_heap t = []"
proof -
  let ?n = "if sint Shards \<le> 0 then 64 else Shards"
  obtain sz where sz: "pow2_loop ?n 1 = Some sz" using assms(2) by (auto simp: NewTable_def Let_def)
  then have "sint ?n \<le> 2 ^ 62" using pow2_loop_diverges [of ?n] by force
  then obtain e where e: "e \<le> 62" "sz = 2 ^ e" using pow2_loop_returns [of ?n] sz by auto
  have n: "unat (2 ^ e :: i64) = 2 ^ e" using unat64_pow2 [of e] e(1) by simp
  have t: "t = \<lparr>tb_shards = replicate (2 ^ e) fmempty, tb_mask = 2 ^ e - 1, tb_hash = hash, tb_idle = idle,
      tb_onClose = onClose, tb_now = now, tb_heap = [], tb_lastID = lastID, tb_closed = [], tb_order = ord, tb_iters = 0\<rparr>"
    using assms(2) sz e(2) n by (simp add: NewTable_def Let_def)
  have less: "unat (x AND (2 ^ e - 1 :: i64)) < 2 ^ e" for x
    using n by (metis (no_types) and.commute mask_eq_exp_minus_1 take_bit_eq_mask unsigned_take_bit_eq take_bit_nat_less_exp)
  then have get: "Table_Get k t = None" for k by (simp add: t Table_Get_def shard_def)
  show "table_inv t" using e(1) assms(1) get unfolding table_inv_def by (auto simp: t intro!: exI [of _ e])
  show "table_abs t = new_spec now lastID idle onClose" using get by (simp add: table_abs_def new_spec_def) (simp add: t)
  show "tb_heap t = []" by (simp add: t)
qed

lemma NewTable_bound:
  assumes "sint Shards \<le> 2 ^ 62"
  shows "\<exists>t e. NewTable hash ord now lastID Shards idle onClose = Some t \<and> length (tb_shards t) = 2 ^ e \<and>
    sint Shards \<le> 2 ^ e"
proof -
  let ?n = "if sint Shards \<le> 0 then 64 else Shards"
  have "sint ?n \<le> 2 ^ 62" using assms by simp
  then obtain j where j: "j \<le> 62" "pow2_loop ?n 1 = Some (2 ^ j)" "sint ?n \<le> 2 ^ j" using pow2_loop_returns by blast
  have "unat (2 ^ j :: i64) = 2 ^ j" using unat64_pow2 [of j] j(1) by simp
  moreover have "sint Shards \<le> 2 ^ j" using j(3) order.trans [of "sint Shards" 0 "2 ^ j"] by (cases "sint Shards \<le> 0") auto
  ultimately show ?thesis using j(2) by (auto simp: NewTable_def Let_def)
qed

lemma table_run:
  assumes "map_order ord" and "NewTable hash ord now lastID Shards idle onClose = Some t"
  shows "table_inv (snd (run_ops tstep es t))"
    and "run_ops sstep es (new_spec now lastID idle onClose) = (fst (run_ops tstep es t), table_abs (snd (run_ops tstep es t)))"
  using tables.run_inv tables.run_refines [of t es] NewTable_returns [OF assms] by auto

section \<open>Flows that left\<close>

definition gone :: "'v flow \<Rightarrow> bool" where
  "gone f \<longleftrightarrow> fl_state f = Closed \<and> is_frozen (fl_seen f)"

definition flow_ok :: "'v flow \<Rightarrow> bool" where
  "flow_ok f \<longleftrightarrow> (fl_state f \<noteq> Open \<longrightarrow> is_frozen (fl_seen f))"

text \<open>A later version of a flow: the same ID, and a flow that is gone stays as it is.\<close>

definition flow_later :: "'v flow \<Rightarrow> 'v flow \<Rightarrow> bool" where
  "flow_later f g \<longleftrightarrow> fl_id g = fl_id f \<and> (flow_ok f \<longrightarrow> flow_ok g) \<and> (gone f \<longrightarrow> gone g)"

lemma flow_later_ops [simp]:
  "flow_later f (Touch tnow now f)" "flow_later f (snd (BeginClose f))" "flow_later f (snd (Flow_Close f))" "flow_later f (retire f)"
  by (auto simp: flow_later_def Touch_eq Let_def BeginClose_def Flow_Close_eq retire_def freeze_def gone_def flow_ok_def)

lemma gone_ops: "gone (retire f)" "flow_ok f \<Longrightarrow> gone (snd (Flow_Close f))"
  by (auto simp: retire_def freeze_def gone_def Flow_Close_eq flow_ok_def)

definition closes :: "('k, 'v) tspec \<Rightarrow> nat \<Rightarrow> nat" where
  "closes s a = count (image_mset snd (ts_closed s)) a"

definition once :: "('k, 'v) tspec \<Rightarrow> bool" where
  "once s \<longleftrightarrow> ts_onClose s \<and> (\<forall>f \<in> set (ts_heap s). flow_ok f) \<and>
     (\<forall>k a. ts_map s k = Some a \<longrightarrow> a < length (ts_heap s) \<and> closes s a = 0) \<and>
     (\<forall>k k' a. ts_map s k = Some a \<longrightarrow> ts_map s k' = Some a \<longrightarrow> k = k') \<and>
     (\<forall>a. closes s a \<noteq> 0 \<longrightarrow> a < length (ts_heap s)) \<and>
     (\<forall>a < length (ts_heap s). (\<exists>k. ts_map s k = Some a) \<or> closes s a = 1 \<and> gone (ts_heap s ! a))"

lemma once_set:
  assumes "once s" and "flow_later (ts_heap s ! a) f"
  shows "once (spec_set a f s)"
proof (cases "a < length (ts_heap s)")
  case True
  then have "\<forall>g \<in> set ((ts_heap s)[a := f]). flow_ok g"
    using assms by (auto simp: once_def flow_later_def dest!: set_update_subset_insert [THEN subsetD])
  moreover have "gone (ts_heap s ! b) \<Longrightarrow> gone ((ts_heap s)[a := f] ! b)" for b
    using assms(2) True by (cases "b = a") (auto simp: flow_later_def)
  ultimately show ?thesis using assms(1) by (auto simp: once_def spec_set_def closes_def)
qed (use assms in \<open>simp add: spec_set_def list_update_beyond\<close>)

lemma once_open:
  assumes "once s" and "ts_map s k = None"
  shows "once (snd (spec_open k v s))"
proof -
  let ?n = "length (ts_heap s)" and ?s = "snd (spec_open k v s)"
  obtain f n where f: "newInTable v (ts_now s) (ts_lastID s) = (f, n)" by (cases "newInTable v (ts_now s) (ts_lastID s)")
  have s: "?s = s\<lparr>ts_heap := ts_heap s @ [f], ts_lastID := n, ts_map := (ts_map s)(k \<mapsto> ?n)\<rparr>" by (simp add: spec_open_def f)
  have fo: "flow_ok f" using f by (auto simp: newInTable_def NextID_def flow_ok_def)
  have c: "closes ?s a = closes s a" for a by (simp add: s closes_def)
  have n0: "closes s ?n = 0" "ts_map s k' \<noteq> Some ?n" for k' using assms(1) by (auto simp: once_def)
  have "(\<exists>k. ts_map ?s k = Some a) \<or> closes ?s a = 1 \<and> gone (ts_heap ?s ! a)" if "a < length (ts_heap ?s)" for a
  proof (cases "a = ?n")
    case False
    then have "a < ?n" using that by (simp add: s)
    then have "(\<exists>k. ts_map s k = Some a) \<or> closes s a = 1 \<and> gone (ts_heap s ! a)" using assms(1) unfolding once_def by blast
    then show ?thesis using assms(2) \<open>a < ?n\<close> unfolding c by (auto simp: s nth_append) (metis option.distinct(1))+
  qed (auto simp: s)
  moreover have "ts_onClose ?s" "\<forall>f \<in> set (ts_heap ?s). flow_ok f" using assms(1) fo by (auto simp: s once_def)
  moreover have "a < length (ts_heap ?s) \<and> closes ?s a = 0" if "ts_map ?s k' = Some a" for k' a
    using that assms(1) n0 unfolding c by (auto simp: s once_def less_Suc_eq split: if_splits)
  moreover have "k1 = k2" if "ts_map ?s k1 = Some a" "ts_map ?s k2 = Some a" for k1 k2 a
    using that assms(1) n0 by (auto simp: s once_def split: if_splits)
  moreover have "a < length (ts_heap ?s)" if "closes ?s a \<noteq> 0" for a
    using that assms(1) unfolding c by (auto simp: s once_def less_Suc_eq)
  ultimately show ?thesis unfolding once_def by blast
qed

lemma snd_inj_flows: "once s \<Longrightarrow> inj_on snd (spec_flows s)"
  unfolding once_def spec_flows_def inj_on_def by auto

lemma finite_spec_flows: "once s \<Longrightarrow> finite (spec_flows s)"
proof (rule finite_imageD)
  assume "once s"
  then have "snd ` spec_flows s \<subseteq> {..<length (ts_heap s)}" by (auto simp: once_def spec_flows_def)
  then show "finite (snd ` spec_flows s)" using finite_subset by blast
qed (rule snd_inj_flows)

lemma once_leave:
  assumes "once s" and V: "V \<subseteq> spec_flows s" and g: "\<And>f. flow_later f (g f)" "\<And>f. flow_ok f \<Longrightarrow> gone (g f)"
  shows "once (spec_leave V g s)"
proof -
  let ?s = "spec_leave V g s"
  have "finite V" using finite_subset [OF V finite_spec_flows [OF assms(1)]] .
  moreover have "inj_on snd V" using snd_inj_flows [OF assms(1)] V by (rule inj_on_subset)
  ultimately have c: "closes ?s a = closes s a + (if a \<in> snd ` V then 1 else 0)" for a
    using assms(1) by (simp add: closes_def spec_leave_def once_def image_mset_mset_set)
  have len: "length (ts_heap ?s) = length (ts_heap s)" by (simp add: spec_leave_def)
  have m: "ts_map ?s k = (if k \<in> fst ` V then None else ts_map s k)" for k by (simp add: spec_leave_def)
  have live: "ts_map s k = Some a \<Longrightarrow> a < length (ts_heap s) \<and> closes s a = 0" for k a using assms(1) unfolding once_def by blast
  have VD: "\<exists>k. (k, a) \<in> V \<and> ts_map s k = Some a" if "a \<in> snd ` V" for a using that V by (force simp: spec_flows_def)
  have out: "a \<notin> snd ` V" if "ts_map s k = Some a" "k \<notin> fst ` V" for k a
    using that VD assms(1) unfolding once_def by (metis fst_conv image_eqI)
  have h: "ts_heap ?s ! a = (if a \<in> snd ` V then g (ts_heap s ! a) else ts_heap s ! a)" if "a < length (ts_heap s)" for a
    using that by (simp add: spec_leave_def nth_upd_at)
  have ok: "flow_ok (ts_heap s ! a)" if "a < length (ts_heap s)" for a using that assms(1) by (auto simp: once_def)
  have "\<forall>f \<in> set (ts_heap ?s). flow_ok f"
    using h ok g(1) by (auto simp: in_set_conv_nth len flow_later_def)
  moreover have "(\<exists>k. ts_map ?s k = Some a) \<or> closes ?s a = 1 \<and> gone (ts_heap ?s ! a)" if "a < length (ts_heap ?s)" for a
  proof (cases "a \<in> snd ` V")
    case True
    then obtain k where "ts_map s k = Some a" using VD [OF True] by blast
    then have "closes s a = 0" using live by blast
    then show ?thesis using True g(2) ok that unfolding c len by (auto simp: h)
  next
    case False
    have "(\<exists>k. ts_map s k = Some a) \<or> closes s a = 1 \<and> gone (ts_heap s ! a)"
      using assms(1) that unfolding once_def len by blast
    moreover have "k \<notin> fst ` V" if "ts_map s k = Some a" for k using False V that by (force simp: spec_flows_def)
    ultimately show ?thesis using False that h unfolding c m len by (metis add_0_right)
  qed
  moreover have "a < length (ts_heap ?s) \<and> closes ?s a = 0" if "ts_map ?s k = Some a" for k a
    using that live [of k a] out [of k a] by (simp add: c m len split: if_splits)
  moreover have "k1 = k2" if "ts_map ?s k1 = Some a" "ts_map ?s k2 = Some a" for k1 k2 a
    using that assms(1) by (simp add: m once_def split: if_splits)
  moreover have "a < length (ts_heap ?s)" if "closes ?s a \<noteq> 0" for a
    using that assms(1) VD [of a] live unfolding c len once_def by (auto split: if_splits)
  moreover have "ts_onClose ?s" using assms(1) by (simp add: spec_leave_def once_def)
  ultimately show ?thesis unfolding once_def by blast
qed

lemma sstep_once:
  assumes "once s"
  shows "once (snd (sstep e s))"
proof -
  have adv: "once (spec_advance now s)" "spec_flows (spec_advance now s) = spec_flows s" for now
    using assms by (simp_all add: once_def spec_advance_def closes_def spec_flows_def)
  have idle: "spec_idle now s \<subseteq> spec_flows s" for now by (auto simp: spec_idle_def spec_flows_def)
  show ?thesis
  proof (cases e)
    case (CSweep now)
    then show ?thesis using once_leave [OF adv(1), of "spec_idle now s" now retire] adv idle by (simp add: gone_ops)
  next
    case CNextID
    then show ?thesis using assms by (simp add: once_def closes_def)
  next
    case (CRemove k fid)
    moreover have "ts_map s k = Some a \<Longrightarrow> once (spec_leave {(k, a)} retire s)" for a
      by (rule once_leave [OF assms]) (simp_all add: spec_flows_def gone_ops)
    ultimately show ?thesis using assms by (auto split: option.splits)
  qed (use assms in \<open>auto simp: once_open once_set once_leave gone_ops split: option.splits new_value.splits\<close>)
qed

interpretation leaving: op_invariant sstep once
  by unfold_locales (rule sstep_once)

section \<open>IDs\<close>

text \<open>The IDs of the flows are taken from the counter in increasing order, at most \<open>N\<close> so far.\<close>

definition ids_inv :: "u64 \<Rightarrow> nat \<Rightarrow> ('k, 'v) tspec \<Rightarrow> bool" where
  "ids_inv lastID N s \<longleftrightarrow> ts_lastID s = lastID + of_nat N \<and>
     (\<exists>ns. map fl_id (ts_heap s) = map (\<lambda>n. lastID + of_nat n) ns \<and> sorted_wrt (<) ns \<and> (\<forall>n \<in> set ns. n \<le> N))"

lemma ids_inv_same:
  assumes "ids_inv L N s" and "map fl_id (ts_heap s') = map fl_id (ts_heap s)" and "ts_lastID s' = ts_lastID s"
  shows "ids_inv L N s'"
  using assms by (simp add: ids_inv_def)

lemma ids_set:
  assumes "flow_later (ts_heap s ! a) f"
  shows "map fl_id (ts_heap (spec_set a f s)) = map fl_id (ts_heap s)" "ts_lastID (spec_set a f s) = ts_lastID s"
proof -
  have "(map fl_id (ts_heap s))[a := fl_id f] = map fl_id (ts_heap s)"
    using assms by (cases "a < length (ts_heap s)") (simp_all add: flow_later_def list_update_same_conv list_update_beyond)
  then show "map fl_id (ts_heap (spec_set a f s)) = map fl_id (ts_heap s)" by (simp add: spec_set_def map_update)
qed (simp add: spec_set_def)

lemma ids_leave:
  assumes "\<And>f. flow_later f (g f)"
  shows "map fl_id (ts_heap (spec_leave V g s)) = map fl_id (ts_heap s)" "ts_lastID (spec_leave V g s) = ts_lastID s"
proof -
  show "map fl_id (ts_heap (spec_leave V g s)) = map fl_id (ts_heap s)"
    using assms by (intro nth_equalityI) (auto simp: spec_leave_def flow_later_def nth_upd_at)
qed (simp add: spec_leave_def)

lemma ids_open:
  assumes "ids_inv L N s"
  shows "ids_inv L (Suc N) (snd (spec_open k v s))"
proof -
  obtain ns where ns: "map fl_id (ts_heap s) = map (\<lambda>n. L + of_nat n) ns" "sorted_wrt (<) ns" "\<forall>n \<in> set ns. n \<le> N"
    using assms by (auto simp: ids_inv_def)
  then have "map fl_id (ts_heap (snd (spec_open k v s))) = map (\<lambda>n. L + of_nat n) (ns @ [Suc N])"
    using assms by (simp add: spec_open_def newInTable_def NextID_def ids_inv_def)
  moreover have "sorted_wrt (<) (ns @ [Suc N])" "\<forall>n \<in> set (ns @ [Suc N]). n \<le> Suc N"
    using ns(2,3) by (auto simp: sorted_wrt_append)
  moreover have "ts_lastID (snd (spec_open k v s)) = L + of_nat (Suc N)"
    using assms by (simp add: spec_open_def newInTable_def NextID_def ids_inv_def)
  ultimately show ?thesis unfolding ids_inv_def by blast
qed

lemma ids_step:
  assumes "ids_inv L N s"
  shows "\<exists>N' \<le> Suc N. ids_inv L N' (snd (sstep e s))"
proof (cases "snd (sstep e s) = s \<or> (\<exists>k v. snd (sstep e s) = snd (spec_open k v s)) \<or> e = CNextID")
  case True
  have "ids_inv L (Suc N) (s\<lparr>ts_lastID := ts_lastID s + 1\<rparr>)" using assms by (force simp: ids_inv_def)
  then show ?thesis using True assms ids_open [OF assms] by (metis le_Suc_eq order_refl snd_conv sstep.simps(12))
next
  case False
  have "map fl_id (ts_heap (snd (sstep e s))) = map fl_id (ts_heap s) \<and> ts_lastID (snd (sstep e s)) = ts_lastID s"
  proof (cases e)
    case (CGetOrOpen k v)
    then show ?thesis using False by (auto split: option.splits new_value.splits)
  qed (use False in \<open>auto simp: ids_set ids_leave spec_advance_def split: option.splits\<close>)
  then have "ids_inv L N (snd (sstep e s))" by (intro ids_inv_same [OF assms]) auto
  then show ?thesis by (intro exI [of _ N]) simp
qed

lemma ids_run:
  "ids_inv L N s \<Longrightarrow> \<exists>N' \<le> N + length es. ids_inv L N' (snd (run_ops sstep es s))"
proof (induction es arbitrary: N s)
  case (Cons e es)
  obtain N' where N': "N' \<le> Suc N" "ids_inv L N' (snd (sstep e s))" using ids_step [OF Cons.prems] by blast
  obtain M where "M \<le> N' + length es" "ids_inv L M (snd (run_ops sstep es (snd (sstep e s))))"
    using Cons.IH [OF N'(2)] by blast
  then show ?case using N'(1) by (intro exI [of _ M]) simp
qed auto

lemma ids_distinct:
  assumes "ids_inv L N s" and "N < 2 ^ 64" and "a < length (ts_heap s)" and "b < length (ts_heap s)"
    and "fl_id (ts_heap s ! a) = fl_id (ts_heap s ! b)"
  shows "a = b"
proof -
  obtain ns where ns: "map fl_id (ts_heap s) = map (\<lambda>n. L + of_nat n) ns" "sorted_wrt (<) ns" "\<forall>n \<in> set ns. n \<le> N"
    using assms(1) by (auto simp: ids_inv_def)
  have len: "length ns = length (ts_heap s)" using ns(1) by (metis length_map)
  have i: "fl_id (ts_heap s ! x) = L + of_nat (ns ! x)" if "x < length (ts_heap s)" for x
    using that len ns(1) by (metis nth_map)
  have "ns ! x < 2 ^ 64" if "x < length ns" for x using ns(3) that assms(2) by (meson nth_mem order.strict_trans1)
  then have "unat (of_nat (ns ! a) :: u64) = ns ! a" "unat (of_nat (ns ! b) :: u64) = ns ! b"
    using assms(3,4) len by (simp_all add: unat_of_nat take_bit_nat_eq_self)
  then have "ns ! a = ns ! b" using assms(3-5) i by (metis add_left_imp_eq)
  then show ?thesis using ns(2) assms(3,4) len by (metis linorder_neqE_nat order.irrefl sorted_wrt_nth_less)
qed

lemma count_list_map: "count_list (map g xs) y = length (filter (\<lambda>x. g x = y) xs)"
  by (induction xs) auto

section \<open>Properties\<close>


lemma sorted_map_order: "map_order (\<lambda>n m. sorted_list_of_fset (fmdom m))"
  by (simp add: map_order_def sorted_list_of_fset.rep_eq)

definition demo_table :: "(nat, nat) table option" where
  "demo_table = NewTable (\<lambda>k. 3 * of_nat k) (\<lambda>n m. sorted_list_of_fset (fmdom m)) 100 0 3 50 True"



definition demo_run :: "(nat, nat) tcall list" where
  "demo_run = [CGetOrOpen 5 NilFn, CGetOrOpen 7 NilFn, CFlowClose 0, CRemove 5 1]"

lemma demo_some: "\<exists>t0. demo_table = Some t0"
proof -
  have "sint (3 :: i64) \<le> 2 ^ 62" by simp
  then show ?thesis unfolding demo_table_def by (metis NewTable_bound)
qed

lemma demo_abs:
  assumes "demo_table = Some t0"
  shows "table_abs (snd (run_ops tstep demo_run t0)) = snd (run_ops sstep demo_run (new_spec 100 0 50 True))"
  using table_run(2) [OF sorted_map_order assms [unfolded demo_table_def], of demo_run] by simp

lemma demo_state:
  assumes "demo_table = Some t0" and "t = snd (run_ops tstep demo_run t0)"
  shows "Table_Get k t = (if k = 7 then Some 1 else None)" and "length (tb_heap t) = 2"
    and "map fl_id (tb_heap t) = [1, 2]" and "LastSeen (tb_heap t ! Suc 0) = 100" and "tb_idle t = 50"
proof -
  note d = demo_abs [OF assms(1), folded assms(2)]
  note s = demo_run_def new_spec_def spec_open_def spec_leave_def newInTable_def NextID_def spec_set_def
    Flow_Close_eq retire_def freeze_def
  have "ts_map (table_abs t) k = (if k = 7 then Some 1 else None)" unfolding d by (simp add: s)
  then show "Table_Get k t = (if k = 7 then Some 1 else None)" by simp
  have "length (ts_heap (table_abs t)) = 2" unfolding d by (simp add: s)
  then show "length (tb_heap t) = 2" by simp
  have "map fl_id (ts_heap (table_abs t)) = [1, 2]" unfolding d by (simp add: s upd_at_def)
  then show "map fl_id (tb_heap t) = [1, 2]" by simp
  have "LastSeen (ts_heap (table_abs t) ! Suc 0) = 100" unfolding d by (simp add: s upd_at_def LastSeen_def clear_frozen_def frozen_def)
  then show "LastSeen (tb_heap t ! Suc 0) = 100" by simp
  have "ts_idle (table_abs t) = 50" unfolding d by (simp add: s)
  then show "tb_idle t = 50" by simp
qed


text \<open>
  C31: After any sequence of fewer than \<open>2\<^sup>6\<^sup>4\<close> calls, \<open>Remove\<close> with the ID of a flow that the table
  once opened removes that flow if the key still leads to it, and otherwise returns false and
  changes nothing: a stale caller cannot remove a newer flow that reused the key.
\<close>

theorem Remove_spares_newer_flows:
  assumes "map_order order" and "NewTable hash order now lastID Shards IdleTimeout OnClose = Some t0"
    and "t = snd (run_ops tstep es t0)" and "length es < 2 ^ 64" and "a < length (tb_heap t)"
  shows "if Table_Get k t = Some a
    then fst (Table_Remove k (fl_id (tb_heap t ! a)) t) \<and> Table_Get k (snd (Table_Remove k (fl_id (tb_heap t ! a)) t)) = None
    else Table_Remove k (fl_id (tb_heap t ! a)) t = (False, t)"
proof -
  let ?fid = "fl_id (tb_heap t ! a)"
  note run = table_run [OF assms(1,2), of es, folded assms(3)]
  have "ids_inv lastID 0 (new_spec now lastID IdleTimeout OnClose)" by (simp add: ids_inv_def new_spec_def)
  then obtain N where N: "N \<le> length es" "ids_inv lastID N (table_abs t)"
    using ids_run [of lastID 0 "new_spec now lastID IdleTimeout OnClose" es] run(2) by auto
  have rem: "table_abs (snd (Table_Remove k ?fid t)) = snd (sstep (CRemove k ?fid) (table_abs t))"
    "RBool (fst (Table_Remove k ?fid t)) = fst (sstep (CRemove k ?fid) (table_abs t))"
    using Remove_refines [OF run(1), of k ?fid] by (simp_all add: case_prod_beta)
  show ?thesis
  proof (cases "Table_Get k t = Some a")
    case True
    then have "ts_map (table_abs (snd (Table_Remove k ?fid t))) k = None" unfolding rem by (simp add: spec_leave_def)
    then show ?thesis using True rem(2) by simp
  next
    case False
    have "fl_id (tb_heap t ! b) \<noteq> ?fid" if "Table_Get k t = Some b" for b
      using ids_distinct [OF N(2), of b a] N(1) assms(4,5) that False table_addr [OF run(1) that] by auto
    then have "Table_Remove k ?fid t = (False, t)"
      by (auto simp: Table_Remove_def Table_Get_def Let_def split: option.splits)
    then show ?thesis using False by simp
  qed
qed

theorem Remove_spares_newer_flows_witness:
  "\<exists>t0. demo_table = Some t0 \<and> Table_Remove 7 1 (snd (run_ops tstep demo_run t0)) = (False, snd (run_ops tstep demo_run t0)) \<and>
     fst (Table_Remove 7 2 (snd (run_ops tstep demo_run t0)))"
proof -
  obtain t0 where t0: "demo_table = Some t0" using demo_some by blast
  let ?t = "snd (run_ops tstep demo_run t0)"
  note s = demo_state [OF t0 refl]
  have ids: "fl_id (tb_heap ?t ! 0) = 1" "fl_id (tb_heap ?t ! 1) = 2"
    using s(2,3) nth_map [of 0 "tb_heap ?t" fl_id] nth_map [of 1 "tb_heap ?t" fl_id] by simp_all
  have l: "length demo_run < 2 ^ 64" by (simp add: demo_run_def)
  note r = Remove_spares_newer_flows [OF sorted_map_order t0 [unfolded demo_table_def] refl l]
  from r [of 0 7] r [of 1 7] s(1,2) ids t0 show ?thesis by (intro exI [of _ t0]) simp
qed

text \<open>
  C30: \<open>Sweep(now)\<close> with an idle timeout evicts exactly the flows whose \<open>LastSeen\<close> is before
  \<open>now - IdleTimeout\<close> and returns their number: they leave the table, \<open>Closed\<close> and frozen, every
  other key and every other flow is untouched, and the table clock moves to \<open>now\<close> unless it is ahead.
\<close>

theorem Sweep_evicts_exactly_the_idle:
  assumes "map_order order" and "NewTable hash order now0 lastID Shards IdleTimeout OnClose = Some t0"
    and "t = snd (run_ops tstep es t0)" and "0 < sint (tb_idle t)"
    and "I = {k. \<exists>a. Table_Get k t = Some a \<and> sint (LastSeen (tb_heap t ! a)) < sint (now - tb_idle t)}"
    and "Table_Sweep now t = (n, t')"
  shows "n = card I \<and> (\<forall>k. Table_Get k t' = (if k \<in> I then None else Table_Get k t)) \<and>
    (\<forall>a < length (tb_heap t). tb_heap t' ! a =
      (if \<exists>k \<in> I. Table_Get k t = Some a then freeze ((tb_heap t ! a)\<lparr>fl_state := Closed\<rparr>) else tb_heap t ! a)) \<and>
    sint (tb_now t') = max (sint now) (sint (tb_now t))"
proof -
  let ?V = "spec_idle now (table_abs t)"
  note inv = table_run(1) [OF assms(1,2), of es, folded assms(3)]
  have sw: "table_abs t' = spec_leave ?V retire (spec_advance now (table_abs t))" "n = card ?V"
    using Sweep_refines [OF inv, of now] assms(4,6) by simp_all
  have V: "?V = {(k, a). Table_Get k t = Some a \<and> k \<in> I}"
    by (auto simp: spec_idle_def assms(5) old_def)
  have fV: "fst ` ?V = I" unfolding V by (force simp: assms(5))
  have "inj_on fst ?V" unfolding V by (auto simp: inj_on_def)
  then have "n = card I" using sw(2) fV card_image by metis
  moreover have "ts_map (table_abs t') k = (if k \<in> I then None else Table_Get k t)" for k
    unfolding sw(1) by (simp add: spec_leave_def spec_advance_def fV)
  moreover have "a \<in> snd ` ?V \<longleftrightarrow> (\<exists>k \<in> I. Table_Get k t = Some a)" for a unfolding V by force
  moreover have "tb_heap t' = upd_at (snd ` ?V) retire (tb_heap t)"
    using arg_cong [OF sw(1), of ts_heap] by (simp add: spec_leave_def spec_advance_def)
  moreover have "sint (tb_now t') = max (sint now) (sint (tb_now t))"
    using arg_cong [OF sw(1), of ts_now] by (simp add: spec_leave_def spec_advance_def)
  ultimately show ?thesis by (simp add: nth_upd_at retire_def)
qed

theorem Sweep_evicts_exactly_the_idle_witness:
  "\<exists>t0. demo_table = Some t0 \<and> fst (Table_Sweep 151 (snd (run_ops tstep demo_run t0))) = 1 \<and>
     fst (Table_Sweep 150 (snd (run_ops tstep demo_run t0))) = 0"
proof -
  obtain t0 where t0: "demo_table = Some t0" using demo_some by blast
  let ?t = "snd (run_ops tstep demo_run t0)"
  note s = demo_state [OF t0 refl]
  have idle: "0 < sint (tb_idle ?t)" by (simp add: s)
  note r = conjunct1 [OF Sweep_evicts_exactly_the_idle [OF sorted_map_order t0 [unfolded demo_table_def] refl idle refl prod.collapse [symmetric]]]
  have "{k. \<exists>a. Table_Get k ?t = Some a \<and> sint (LastSeen (tb_heap ?t ! a)) < sint (151 - tb_idle ?t)} = {7}"
    and "{k. \<exists>a. Table_Get k ?t = Some a \<and> sint (LastSeen (tb_heap ?t ! a)) < sint (150 - tb_idle ?t)} = {}"
    by (auto simp: s split: if_splits)
  with r [of 151] r [of 150] have "fst (Table_Sweep 151 ?t) = 1" "fst (Table_Sweep 150 ?t) = 0"
    by (simp_all only: card.empty card_1_singleton_iff) auto
  then show ?thesis using t0 by blast
qed

end
