(* ===== verification/Sys.thy ===== *)
theory Sys
  imports Cas
begin

text \<open>
  The internal packages that both transports use: \<open>src/internal/counter\<close>, \<open>src/internal/backoff\<close> and
  \<open>src/internal/sys\<close> (the control data parser, the \<open>recvmmsg\<close> reader, socket addresses and the
  classification of read errors, for every platform the package has a file for).

  The kernel and the interface table are parameters. An error is what \<open>errors.Is(err, net.ErrClosed)\<close>
  and \<open>errors.As(err, &errno)\<close> find in it.

  The lemmas show that \<open>DropCount\<close> reads back what the kernel wrote, on every sequence of control
  messages, and never reads outside the buffer; and that a batch reader hands out what the last
  call delivered, whatever earlier calls left in its slots and however often it was interrupted.
\<close>

section \<open>Counters\<close>

definition Counter_Add :: "u64 \<Rightarrow> u64 \<Rightarrow> u64" where "Counter_Add n c = c + n"
definition Counter_Inc :: "u64 \<Rightarrow> u64" where "Counter_Inc c = c + 1"
definition Counter_Load :: "u64 \<Rightarrow> u64" where "Counter_Load c = c"
definition Counter_Store :: "u64 \<Rightarrow> u64 \<Rightarrow> u64" where "Counter_Store n c = n"
definition Counter_Dec :: "u64 \<Rightarrow> u64" where "Counter_Dec c = c + NOT 0"

definition Counter_Max_body :: "u64 \<Rightarrow> (u64, unit) cas_body" where
  "Counter_Max_body n cur = (if n \<le> cur then Inl () else Inr (n, ()))"

definition Counter_Max :: "u64 \<Rightarrow> u64 \<Rightarrow> u64" where
  "Counter_Max n c = snd (cas_atomic (Counter_Max_body n) c)"

lemma Counter_Dec_eq: "Counter_Dec c = c - 1"
  by (simp add: Counter_Dec_def)

lemma Counter_Max_eq: "Counter_Max n c = max n c"
  by (simp add: Counter_Max_def Counter_Max_body_def cas_atomic_def max_def)

text \<open>A gauge: as many \<open>Inc\<close> as \<open>Dec\<close>, in any order, bring it back.\<close>

lemma Counter_Dec_Inc [simp]: "Counter_Dec (Counter_Inc c) = c" "Counter_Inc (Counter_Dec c) = c"
  by (simp_all add: Counter_Inc_def Counter_Dec_eq)

section \<open>Backoff\<close>

definition Backoff_Min :: i64 where "Backoff_Min = 5000000"
definition Backoff_Max :: i64 where "Backoff_Max = 1000000000"

definition smax :: "i64 \<Rightarrow> i64 \<Rightarrow> i64" where "smax a b = (if sint a < sint b then b else a)"
definition smin :: "i64 \<Rightarrow> i64 \<Rightarrow> i64" where "smin a b = (if sint b < sint a then b else a)"

definition Backoff_Next :: "i64 \<Rightarrow> i64" where
  "Backoff_Next d = smin (smax (d * 2) Backoff_Min) Backoff_Max"

text \<open>\<open>Wait\<close>: which of the two channels the \<open>select\<close> received from.\<close>

datatype wake = TimerFires | StopFires

definition Backoff_Wait :: "i64 \<Rightarrow> wake \<Rightarrow> bool" where
  "Backoff_Wait d w = (case w of TimerFires \<Rightarrow> True | StopFires \<Rightarrow> False)"

lemma Backoff_Next_bounds: "5000000 \<le> sint (Backoff_Next d)" "sint (Backoff_Next d) \<le> 1000000000"
  by (auto simp: Backoff_Next_def smin_def smax_def Backoff_Min_def Backoff_Max_def)

lemma Backoff_Next_doubles:
  assumes "0 \<le> sint d" and "sint d \<le> 1000000000"
  shows "sint (Backoff_Next d) = min (max (2 * sint d) 5000000) 1000000000"
proof -
  have "sint (d * 2) = 2 * sint d"
    using sint64_add [of d d] assms by (simp add: mult_2_right)
  then show ?thesis by (auto simp: Backoff_Next_def smin_def smax_def Backoff_Min_def Backoff_Max_def)
qed

text \<open>The delays of consecutive failures: the shortest first, then doubling up to the longest.\<close>

lemma Backoff_sequence: "sint ((Backoff_Next ^^ Suc n) 0) = min (5000000 * 2 ^ n) 1000000000"
proof (induction n)
  case 0
  show ?case using Backoff_Next_doubles [of 0] by simp
next
  case (Suc n)
  let ?d = "(Backoff_Next ^^ Suc n) 0"
  have "0 \<le> sint ?d" "sint ?d \<le> 1000000000" using Suc by (simp_all add: min_def)
  then have "sint (Backoff_Next ?d) = min (max (2 * sint ?d) 5000000) 1000000000" by (rule Backoff_Next_doubles)
  moreover have "min (max (2 * min (5000000 * x) 1000000000) 5000000) 1000000000 = min (5000000 * (2 * x)) 1000000000"
    if "1 \<le> x" for x :: int using that by (auto simp: min_def max_def)
  from this [of "2 ^ n"] have "min (max (2 * min (5000000 * 2 ^ n) 1000000000) 5000000) 1000000000
    = (min (5000000 * 2 ^ Suc n) 1000000000 :: int)" by simp
  ultimately show ?case unfolding Suc by simp
qed

section \<open>Platforms and read errors\<close>

datatype platform = LinuxOS | UnixOS | WindowsOS | OtherOS

definition BatchSupported :: "platform \<Rightarrow> bool" where "BatchSupported pl \<longleftrightarrow> pl = LinuxOS"
definition DefaultBatch :: "platform \<Rightarrow> int" where "DefaultBatch pl = (if pl = LinuxOS then 8 else 1)"
definition OOBSize :: "platform \<Rightarrow> nat" where "OOBSize pl = (if pl = LinuxOS then 64 else 0)"

definition MsgTrunc :: "platform \<Rightarrow> i32" where
  "MsgTrunc pl = (case pl of LinuxOS \<Rightarrow> 0x20 | UnixOS \<Rightarrow> 0x10 | _ \<Rightarrow> 0)"

text \<open>\<open>setopt\<close>: whether \<open>Control\<close> ran the function, and then whether \<open>setsockopt\<close> succeeded.\<close>

definition EnableDropCount :: "platform \<Rightarrow> bool option \<Rightarrow> bool" where
  "EnableDropCount pl setopt = (if pl = LinuxOS then (case setopt of None \<Rightarrow> False | Some ok \<Rightarrow> ok) else False)"

datatype errno = EINTR | EAGAIN | ENOBUFS | ENOMEM | ECONNREFUSED | EHOSTUNREACH | ENETUNREACH | Errno u32
datatype neterr = NetClosed | SysErr errno | OtherErr string
datatype ReadErr = Fatal | Transient | Truncated

definition classifyWinsock :: "u32 \<Rightarrow> ReadErr" where
  "classifyWinsock code =
     (if code = 10040 then Truncated else if code = 10054 \<or> code = 10052 then Transient else Fatal)"

definition ClassifyRead_unix :: "neterr \<Rightarrow> ReadErr" where
  "ClassifyRead_unix err =
     (case err of
        SysErr e \<Rightarrow>
          (if e \<in> {EINTR, EAGAIN, ENOBUFS, ENOMEM, ECONNREFUSED, EHOSTUNREACH, ENETUNREACH} then Transient else Fatal)
      | _ \<Rightarrow> Fatal)"

definition ClassifyRead_windows :: "neterr \<Rightarrow> ReadErr" where
  "ClassifyRead_windows err = (case err of SysErr (Errno c) \<Rightarrow> classifyWinsock c | _ \<Rightarrow> Fatal)"

definition ClassifyRead_other :: "neterr \<Rightarrow> ReadErr" where
  "ClassifyRead_other err = Fatal"

definition ClassifyRead :: "platform \<Rightarrow> neterr \<Rightarrow> ReadErr" where
  "ClassifyRead pl =
     (case pl of LinuxOS \<Rightarrow> ClassifyRead_unix | UnixOS \<Rightarrow> ClassifyRead_unix | WindowsOS \<Rightarrow> ClassifyRead_windows
      | OtherOS \<Rightarrow> ClassifyRead_other)"

section \<open>Control data\<close>

text \<open>Little-endian integers in memory; \<open>Cmsghdr\<close> has a 64-bit length, a level and a type.\<close>

fun le_val :: "byte list \<Rightarrow> nat" where
  "le_val [] = 0"
| "le_val (b # bs) = unat b + 256 * le_val bs"

definition cmsgAlign :: "int \<Rightarrow> int" where
  "cmsgAlign n = (let a = 8 in (n + a - 1) AND NOT (a - 1))"

definition cmsg_Len :: "byte list \<Rightarrow> int" where
  "cmsg_Len oob = sint (of_nat (le_val (take 8 oob)) :: i64)"
definition cmsg_Level :: "byte list \<Rightarrow> i32" where
  "cmsg_Level oob = of_nat (le_val (take 4 (drop 8 oob)))"
definition cmsg_Type :: "byte list \<Rightarrow> i32" where
  "cmsg_Type oob = of_nat (le_val (take 4 (drop 12 oob)))"

abbreviation cmsg_hdr :: nat where "cmsg_hdr \<equiv> 16"
definition SOL_SOCKET :: i32 where "SOL_SOCKET = 1"
definition soRxqOvfl :: i32 where "soRxqOvfl = 40"

lemma cmsgAlign_eq: "cmsgAlign n = 8 * ((n + 7) div 8)"
proof -
  have "(n + 7) AND NOT 7 = push_bit 3 (drop_bit 3 (n + 7))"
  proof (rule bit_eqI)
    fix k
    show "bit ((n + 7) AND NOT 7) k = bit (push_bit 3 (drop_bit 3 (n + 7))) k"
      using bit_mask_iff [where ?'a = int, of 3 k] by (auto simp: bit_simps mask_eq_exp_minus_1)
  qed
  then show ?thesis by (simp add: cmsgAlign_def push_bit_eq_mult drop_bit_eq_div algebra_simps)
qed

lemma cmsgAlign_bounds: "n \<le> cmsgAlign n" "cmsgAlign n < n + 8"
  by (simp_all add: cmsgAlign_eq)

function DropCount :: "byte list \<Rightarrow> u32 \<times> bool" where
  "DropCount oob =
     (if length oob \<ge> cmsg_hdr then
        (let l = cmsg_Len oob
         in if l < int cmsg_hdr \<or> l > int (length oob) then (0, False)
            else if cmsg_Level oob = SOL_SOCKET \<and> cmsg_Type oob = soRxqOvfl \<and> l \<ge> int cmsg_hdr + 4
              then (of_nat (le_val (take 4 (drop cmsg_hdr oob))), True)
            else (let next = cmsgAlign l
                  in if next > int (length oob) then (0, False) else DropCount (drop (nat next) oob)))
      else (0, False))"
  by pat_completeness auto
termination
proof (relation "measure length")
  fix oob :: "byte list" and l n
  assume "cmsg_hdr \<le> length oob" and "l = cmsg_Len oob" and "\<not> (l < int cmsg_hdr \<or> int (length oob) < l)"
    and "n = cmsgAlign l"
  then have "0 < nat n" using cmsgAlign_bounds(1) [of l] by simp
  then show "(drop (nat n) oob, oob) \<in> measure length" using \<open>cmsg_hdr \<le> length oob\<close> by simp
qed simp

declare DropCount.simps [simp del]

text \<open>What the kernel writes: messages with their header, padded to the alignment.\<close>

fun le_bytes :: "nat \<Rightarrow> nat \<Rightarrow> byte list" where
  "le_bytes 0 n = []"
| "le_bytes (Suc k) n = of_nat n # le_bytes k (n div 256)"

record cmsg =
  cm_level :: i32
  cm_type :: i32
  cm_data :: "byte list"
  cm_pad :: "byte list"

definition cmsg_bytes :: "cmsg \<Rightarrow> byte list" where
  "cmsg_bytes c = le_bytes 8 (cmsg_hdr + length (cm_data c)) @ le_bytes 4 (unat (cm_level c)) @
     le_bytes 4 (unat (cm_type c)) @ cm_data c @ cm_pad c"

text \<open>Every message is padded to the alignment; the last one may lack some of the padding.\<close>

definition pad_of :: "cmsg \<Rightarrow> nat" where
  "pad_of c = nat (cmsgAlign (int (cmsg_hdr + length (cm_data c)))) - (cmsg_hdr + length (cm_data c))"

fun well_padded :: "cmsg list \<Rightarrow> bool" where
  "well_padded [] = True"
| "well_padded [c] = (length (cm_pad c) \<le> pad_of c \<and> length (cm_data c) < 2 ^ 32)"
| "well_padded (c # cs) = (length (cm_pad c) = pad_of c \<and> length (cm_data c) < 2 ^ 32 \<and> well_padded cs)"

definition is_drop_report :: "cmsg \<Rightarrow> bool" where
  "is_drop_report c \<longleftrightarrow> cm_level c = SOL_SOCKET \<and> cm_type c = soRxqOvfl \<and> 4 \<le> length (cm_data c)"

lemma length_le_bytes [simp]: "length (le_bytes k n) = k"
  by (induction k arbitrary: n) auto

lemma le_val_le_bytes: "le_val (le_bytes k n) = n mod 256 ^ k"
proof (induction k arbitrary: n)
  case (Suc k)
  have "unat (of_nat n :: byte) = n mod 256" by (simp add: unat_of_nat take_bit_eq_mod)
  then show ?case using Suc mod_mult2_eq [of n 256 "256 ^ k"] by (simp add: add.commute)
qed simp

lemma cmsg_bytes_header:
  assumes "length (cm_data c) < 2 ^ 32"
  shows "cmsg_Len (cmsg_bytes c @ ys) = int (cmsg_hdr + length (cm_data c))"
    and "cmsg_Level (cmsg_bytes c @ ys) = cm_level c" and "cmsg_Type (cmsg_bytes c @ ys) = cm_type c"
    and "drop cmsg_hdr (cmsg_bytes c @ ys) = cm_data c @ cm_pad c @ ys"
proof -
  let ?n = "cmsg_hdr + length (cm_data c)"
  have t: "take 8 (cmsg_bytes c @ ys) = le_bytes 8 ?n" "take 4 (drop 8 (cmsg_bytes c @ ys)) = le_bytes 4 (unat (cm_level c))"
    "take 4 (drop 12 (cmsg_bytes c @ ys)) = le_bytes 4 (unat (cm_type c))"
    by (simp_all add: cmsg_bytes_def)
  have "?n mod 256 ^ 8 = ?n" using assms by simp
  then have "le_val (le_bytes 8 ?n) = ?n" by (simp only: le_val_le_bytes)
  then show "cmsg_Len (cmsg_bytes c @ ys) = int ?n"
    unfolding cmsg_Len_def t using assms sint64_of_nat [of ?n] by simp
  have "unat x < 4294967296" for x :: i32 by (rule order.strict_trans2 [OF unsigned_less]) simp
  then have "unat x mod 256 ^ 4 = unat x" for x :: i32 by simp
  then have "le_val (le_bytes 4 (unat x)) = unat x" for x :: i32 by (simp only: le_val_le_bytes)
  then show "cmsg_Level (cmsg_bytes c @ ys) = cm_level c" "cmsg_Type (cmsg_bytes c @ ys) = cm_type c"
    unfolding cmsg_Level_def cmsg_Type_def t by simp_all
  show "drop cmsg_hdr (cmsg_bytes c @ ys) = cm_data c @ cm_pad c @ ys" by (simp add: cmsg_bytes_def)
qed

lemma DropCount_unparsed: "length oob < cmsg_hdr \<Longrightarrow> DropCount oob = (0, False)"
  by (simp add: DropCount.simps)

lemma DropCount_cmsg:
  assumes "length (cm_data c) < 2 ^ 32"
  shows "DropCount (cmsg_bytes c @ ys) =
    (if is_drop_report c then (of_nat (le_val (take 4 (cm_data c))), True)
     else let next = nat (cmsgAlign (int (cmsg_hdr + length (cm_data c))))
          in if next \<le> length (cmsg_bytes c @ ys) then DropCount (drop next (cmsg_bytes c @ ys)) else (0, False))"
proof -
  define oob where "oob = cmsg_bytes c @ ys"
  let ?n = "cmsg_hdr + length (cm_data c)"
  note h = cmsg_bytes_header [OF assms, of ys, folded oob_def]
  have len: "?n \<le> length oob" by (simp add: oob_def cmsg_bytes_def)
  have al: "int ?n \<le> cmsgAlign (int ?n)" by (rule cmsgAlign_bounds)
  have "int cmsg_hdr + 4 \<le> int ?n \<longleftrightarrow> 4 \<le> length (cm_data c)" by simp
  then have "DropCount oob =
    (if is_drop_report c then (of_nat (le_val (take 4 (cm_data c))), True)
     else if int (length oob) < cmsgAlign (int ?n) then (0, False) else DropCount (drop (nat (cmsgAlign (int ?n))) oob))"
    using len by (subst DropCount.simps) (simp add: h is_drop_report_def Let_def del: of_nat_add)
  moreover have "int (length oob) < cmsgAlign (int ?n) \<longleftrightarrow> \<not> nat (cmsgAlign (int ?n)) \<le> length oob" using al by linarith
  ultimately show ?thesis unfolding oob_def [symmetric] Let_def by (simp only: if_not_P if_P split: if_split) simp
qed

lemma length_cmsg_bytes: "length (cmsg_bytes c) = cmsg_hdr + length (cm_data c) + length (cm_pad c)"
  by (simp add: cmsg_bytes_def)

lemma cmsg_next: "nat (cmsgAlign (int (cmsg_hdr + length (cm_data c)))) = cmsg_hdr + length (cm_data c) + pad_of c"
  using cmsgAlign_bounds(1) [of "int (cmsg_hdr + length (cm_data c))"] by (simp add: pad_of_def)

lemma DropCount_cmsgs:
  "well_padded cs \<Longrightarrow> DropCount (concat (map cmsg_bytes cs)) =
     (case find is_drop_report cs of None \<Rightarrow> (0, False) | Some c \<Rightarrow> (of_nat (le_val (take 4 (cm_data c))), True))"
proof (induction cs rule: well_padded.induct)
  case 1
  then show ?case by (simp add: DropCount_unparsed)
next
  case (2 c)
  then have l: "length (cm_data c) < 2 ^ 32" "length (cm_pad c) \<le> pad_of c" by simp_all
  then have "\<not> is_drop_report c \<Longrightarrow> DropCount (cmsg_bytes c) = (0, False)"
    using DropCount_cmsg [OF l(1), of "[]"] unfolding cmsg_next by (simp add: Let_def length_cmsg_bytes DropCount_unparsed)
  then show ?case using DropCount_cmsg [OF l(1), of "[]"] by simp
next
  case (3 c c' cs)
  let ?ys = "concat (map cmsg_bytes (c' # cs))"
  have l: "length (cm_data c) < 2 ^ 32" "length (cm_pad c) = pad_of c" and wp: "well_padded (c' # cs)" using "3.prems" by simp_all
  have "drop (cmsg_hdr + length (cm_data c) + pad_of c) (cmsg_bytes c @ ?ys) = ?ys" using l(2) by (simp add: length_cmsg_bytes)
  then have "DropCount (cmsg_bytes c @ ?ys) =
    (if is_drop_report c then (of_nat (le_val (take 4 (cm_data c))), True) else DropCount ?ys)"
    using DropCount_cmsg [OF l(1), of ?ys] l(2) unfolding cmsg_next by (simp only: Let_def length_append length_cmsg_bytes) simp
  then show ?case using "3.IH" [OF wp] by simp
qed

lemma DropCount_in_range:
  "DropCount oob = (v, True) \<Longrightarrow> \<exists>i. i + 20 \<le> length oob \<and> v = of_nat (le_val (take 4 (drop (i + 16) oob)))"
proof (induction oob rule: DropCount.induct)
  case (1 oob)
  let ?l = "cmsg_Len oob"
  have h: "cmsg_hdr \<le> length oob" and l: "\<not> (?l < int cmsg_hdr \<or> int (length oob) < ?l)"
    using "1.prems" by (auto simp: DropCount.simps [of oob] Let_def split: if_splits)
  show ?case
  proof (cases "cmsg_Level oob = SOL_SOCKET \<and> cmsg_Type oob = soRxqOvfl \<and> int cmsg_hdr + 4 \<le> ?l")
    case True
    then show ?thesis using "1.prems" h l by (intro exI [of _ 0]) (simp add: DropCount.simps [of oob] Let_def)
  next
    case False
    have n: "\<not> int (length oob) < cmsgAlign ?l" and d: "DropCount (drop (nat (cmsgAlign ?l)) oob) = (v, True)"
      using "1.prems" h l False by (auto simp: DropCount.simps [of oob] Let_def split: if_splits)
    obtain i where "i + 20 \<le> length (drop (nat (cmsgAlign ?l)) oob)"
      "v = of_nat (le_val (take 4 (drop (i + 16) (drop (nat (cmsgAlign ?l)) oob))))"
      using "1.IH" [OF h refl l False refl n d] by blast
    moreover from this have "nat (cmsgAlign ?l) + i + 20 \<le> length oob" by (simp only: length_drop)
    ultimately show ?thesis by (intro exI [of _ "nat (cmsgAlign ?l) + i"]) (simp add: ac_simps)
  qed
qed

text \<open>
  C22: \<open>DropCount\<close> reads back the first drop report of any well-formed sequence of control messages
  the kernel wrote, whatever other messages, sizes and padding surround it, and reports none when
  there is none; and on every byte string, well-formed or not, it returns, and a count it returns
  lies inside the buffer after a complete header.
\<close>

theorem DropCount_reads_back:
  "(well_padded cs \<longrightarrow> DropCount (concat (map cmsg_bytes cs)) =
     (case find is_drop_report cs of None \<Rightarrow> (0, False) | Some c \<Rightarrow> (of_nat (le_val (take 4 (cm_data c))), True))) \<and>
   (\<forall>v. DropCount oob = (v, True) \<longrightarrow> (\<exists>i. i + 20 \<le> length oob \<and> v = of_nat (le_val (take 4 (drop (i + 16) oob)))))"
  using DropCount_cmsgs DropCount_in_range by blast

text \<open>A timestamp message of 13 bytes, then a report of 513 drops.\<close>

definition demo_cmsgs :: "cmsg list" where
  "demo_cmsgs = [\<lparr>cm_level = 1, cm_type = 29, cm_data = replicate 13 7, cm_pad = [0, 0, 0]\<rparr>,
     \<lparr>cm_level = 1, cm_type = 40, cm_data = [1, 2, 0, 0], cm_pad = []\<rparr>]"

theorem DropCount_reads_back_witness:
  "DropCount (concat (map cmsg_bytes demo_cmsgs)) = (513, True)"
proof -
  have "well_padded demo_cmsgs" by (simp add: demo_cmsgs_def pad_of_def cmsgAlign_eq)
  moreover have "find is_drop_report demo_cmsgs = Some \<lparr>cm_level = 1, cm_type = 40, cm_data = [1, 2, 0, 0], cm_pad = []\<rparr>"
    by (simp add: demo_cmsgs_def is_drop_report_def SOL_SOCKET_def soRxqOvfl_def)
  ultimately show ?thesis using conjunct1 [OF DropCount_reads_back [of demo_cmsgs "[]"]] by simp
qed

section \<open>Addresses\<close>

text \<open>\<open>port\<close>: the two bytes of the port in memory (the low one first), read in network order.\<close>

definition port :: "u16 \<Rightarrow> u16" where
  "port p = (let b0 = ucast p :: byte; b1 = ucast (drop_bit 8 p) :: byte
     in push_bit 8 (ucast b0) OR ucast b1)"

datatype sockaddr = SaInet u16 "byte list" | SaInet6 u16 "byte list" u32 | SaOther u16

text \<open>\<open>netip.Addr\<close>: the zero address, IPv4, and IPv6 with its zone.\<close>

datatype ipaddr = Addr0 | Addr4 "byte list" | Addr6 "byte list" string

type_synonym addrport = "ipaddr \<times> u16"

definition Is4In6 :: "ipaddr \<Rightarrow> bool" where
  "Is4In6 a = (case a of Addr6 b z \<Rightarrow> take 12 b = replicate 10 0 @ [255, 255] | _ \<Rightarrow> False)"

definition Unmap :: "ipaddr \<Rightarrow> ipaddr" where
  "Unmap a = (case a of Addr6 b z \<Rightarrow> (if Is4In6 a then Addr4 (drop 12 b) else a) | _ \<Rightarrow> a)"

definition Is6 :: "ipaddr \<Rightarrow> bool" where
  "Is6 a = (case a of Addr6 b z \<Rightarrow> True | _ \<Rightarrow> False)"

definition WithZone :: "string \<Rightarrow> ipaddr \<Rightarrow> ipaddr" where
  "WithZone z a = (case a of Addr6 b y \<Rightarrow> Addr6 b z | _ \<Rightarrow> a)"

fun FormatUint :: "nat \<Rightarrow> string" where
  "FormatUint n = (if n < 10 then [char_of (48 + n)] else FormatUint (n div 10) @ [char_of (48 + n mod 10)])"

declare FormatUint.simps [simp del]

text \<open>\<open>ifs\<close> is \<open>net.InterfaceByIndex\<close>: the name of an interface, if there is one with that index.\<close>

definition zone :: "(u32 \<Rightarrow> string option) \<Rightarrow> u32 \<Rightarrow> (u32 \<rightharpoonup> string) \<Rightarrow> string \<times> (u32 \<rightharpoonup> string)" where
  "zone ifs i zones =
     (case zones i of
        Some z \<Rightarrow> (z, zones)
      | None \<Rightarrow> (let z = (case ifs i of None \<Rightarrow> FormatUint (unat i) | Some nm \<Rightarrow> nm) in (z, zones(i \<mapsto> z))))"

definition addr :: "(u32 \<Rightarrow> string option) \<Rightarrow> sockaddr \<Rightarrow> (u32 \<rightharpoonup> string) \<Rightarrow> addrport \<times> (u32 \<rightharpoonup> string)" where
  "addr ifs sa zones =
     (case sa of
        SaInet p b \<Rightarrow> ((Addr4 b, port p), zones)
      | SaInet6 p b sc \<Rightarrow>
          (let a = Unmap (Addr6 b '''')
           in if sc \<noteq> 0 \<and> Is6 a then (let (z, zones') = zone ifs sc zones in ((WithZone z a, port p), zones'))
              else ((a, port p), zones))
      | SaOther f \<Rightarrow> ((Addr0, 0), zones))"

lemma bit_port: "bit (port p) n \<longleftrightarrow> n < 16 \<and> (if n < 8 then bit p (n + 8) else bit p (n - 8))"
proof -
  have "bit (port p) n \<longleftrightarrow> n < 16 \<and> 8 \<le> n \<and> bit p (n - 8) \<or> n < 8 \<and> bit p (8 + n)"
    unfolding port_def Let_def bit_or_iff bit_push_bit_iff bit_unsigned_iff bit_drop_bit_eq o_def
    by (auto simp: possible_bit_word)
  then show ?thesis by (auto simp: add.commute)
qed

lemma port_swaps: "port (port p) = p"
  by (rule bit_eqI) (auto simp: bit_port possible_bit_word)

section \<open>The batch reader\<close>

record mmsghdr =
  mh_namelen :: nat
  mh_controllen :: nat
  mh_flags :: i32
  mh_len :: u32

record breader =
  br_msgs :: "mmsghdr list"
  br_bufs :: "byte list list"
  br_names :: "sockaddr list"
  br_oob :: "byte list"
  br_oobSize :: nat
  br_n :: int
  br_errno :: "errno option"
  br_zones :: "u32 \<rightharpoonup> string"

abbreviation SizeofSockaddrAny :: nat where "SizeofSockaddrAny \<equiv> 112"

definition NewBatchReader :: "byte list list \<Rightarrow> nat \<Rightarrow> (breader, unit) res" where
  "NewBatchReader bufs oobSize =
     (if [] \<in> set bufs then Panic ''runtime error: index out of range [0] with length 0'' ()
      else Ret \<lparr>br_msgs = replicate (length bufs) \<lparr>mh_namelen = 0, mh_controllen = 0, mh_flags = 0, mh_len = 0\<rparr>,
             br_bufs = bufs, br_names = replicate (length bufs) (SaOther 0),
             br_oob = replicate (length bufs * oobSize) 0, br_oobSize = oobSize, br_n = 0, br_errno = None,
             br_zones = Map.empty\<rparr> ())"

definition recv_reset :: "breader \<Rightarrow> breader" where
  "recv_reset r = r\<lparr>br_msgs := map (\<lambda>h. h\<lparr>mh_namelen := SizeofSockaddrAny, mh_controllen := br_oobSize r, mh_flags := 0\<rparr>) (br_msgs r)\<rparr>"

text \<open>
  The system call is the parameter \<open>sysc\<close>: it reads the headers and either fails or has filled the
  first slots with datagrams (\<open>ks_data\<close> at the start of the buffer, \<open>ks_control\<close> at the start of
  the control data).
\<close>

record kslot =
  ks_data :: "byte list"
  ks_name :: sockaddr
  ks_control :: "byte list"
  ks_flags :: i32

datatype kres = KErr errno | KGot "kslot list"

type_synonym 'k recvmmsg = "'k \<Rightarrow> mmsghdr list \<Rightarrow> kres \<times> 'k"

definition write_at :: "nat \<Rightarrow> 'a list \<Rightarrow> 'a list \<Rightarrow> 'a list" where
  "write_at i xs ys = take i ys @ xs @ drop (i + length xs) ys"

definition fill_slot :: "nat \<Rightarrow> kslot \<Rightarrow> breader \<Rightarrow> breader" where
  "fill_slot i s r = r\<lparr>
     br_msgs := (br_msgs r)[i := (br_msgs r ! i)\<lparr>mh_controllen := length (ks_control s), mh_flags := ks_flags s,
                                                   mh_len := of_nat (length (ks_data s))\<rparr>],
     br_bufs := (br_bufs r)[i := write_at 0 (ks_data s) (br_bufs r ! i)],
     br_names := (br_names r)[i := ks_name s],
     br_oob := write_at (i * br_oobSize r) (ks_control s) (br_oob r)\<rparr>"

fun kernel_fill :: "nat \<Rightarrow> kslot list \<Rightarrow> breader \<Rightarrow> breader" where
  "kernel_fill i [] r = r"
| "kernel_fill i (s # ss) r = kernel_fill (Suc i) ss (fill_slot i s r)"

partial_function (option) recv_loop :: "'k recvmmsg \<Rightarrow> breader \<Rightarrow> 'k \<Rightarrow> (bool \<times> breader \<times> 'k) option" where
  "recv_loop sysc r k =
     (case sysc k (br_msgs r) of
        (KErr e, k1) \<Rightarrow>
          (if e = EINTR then recv_loop sysc r k1
           else if e = EAGAIN then Some (False, r, k1)
           else Some (True, r\<lparr>br_n := - 1, br_errno := Some e\<rparr>, k1))
      | (KGot ss, k1) \<Rightarrow> Some (True, (kernel_fill 0 ss r)\<lparr>br_n := int (length ss), br_errno := None\<rparr>, k1))"

definition recv :: "'k recvmmsg \<Rightarrow> breader \<Rightarrow> 'k \<Rightarrow> (bool \<times> breader \<times> 'k) option" where
  "recv sysc r k = recv_loop sysc (recv_reset r) k"

text \<open>\<open>RawConn.Read\<close>: calls the function until it returns true, waiting for the poller (\<open>wait\<close>) in between.\<close>

partial_function (option) RawRead ::
    "'k recvmmsg \<Rightarrow> ('k \<Rightarrow> neterr option \<times> 'k) \<Rightarrow> breader \<Rightarrow> 'k \<Rightarrow> (neterr option \<times> breader \<times> 'k) option" where
  "RawRead sysc wait r k =
     Option.bind (recv sysc r k) (\<lambda>(ready, r1, k1).
       if ready then Some (None, r1, k1)
       else (case wait k1 of
               (Some e, k2) \<Rightarrow> Some (Some e, r1, k2)
             | (None, k2) \<Rightarrow> RawRead sysc wait r1 k2))"

definition BatchReader_Read ::
    "'k recvmmsg \<Rightarrow> ('k \<Rightarrow> neterr option \<times> 'k) \<Rightarrow> breader \<Rightarrow> 'k \<Rightarrow> ((neterr + int) \<times> breader \<times> 'k) option" where
  "BatchReader_Read sysc wait r k =
     map_option (\<lambda>(err, r1, k1).
       (case err of
          Some e \<Rightarrow> (Inl e, r1, k1)
        | None \<Rightarrow> (case br_errno r1 of Some e \<Rightarrow> (Inl (SysErr e), r1, k1) | None \<Rightarrow> (Inr (br_n r1), r1, k1))))
       (RawRead sysc wait (r\<lparr>br_n := 0, br_errno := None\<rparr>) k)"

definition BatchReader_Message ::
    "(u32 \<Rightarrow> string option) \<Rightarrow> nat \<Rightarrow> breader \<Rightarrow> (nat \<times> byte list \<times> i32 \<times> addrport) \<times> breader" where
  "BatchReader_Message ifs i r =
     (let m = br_msgs r ! i;
          oob = (if br_oobSize r > 0 then take (mh_controllen m) (drop (i * br_oobSize r) (br_oob r)) else []);
          (from, zones) = addr ifs (br_names r ! i) (br_zones r)
      in ((unat (mh_len m), oob, mh_flags m, from), r\<lparr>br_zones := zones\<rparr>))"

text \<open>\<open>mmsg_other.go\<close>: where \<open>recvmmsg\<close> is missing.\<close>

definition BatchReader_Read_other :: "neterr + int" where
  "BatchReader_Read_other = Inl (OtherErr ''sys: recvmmsg is not available on this platform'')"

definition BatchReader_Message_other :: "nat \<times> byte list \<times> i32 \<times> addrport" where
  "BatchReader_Message_other = (0, [], 0, (Addr0, 0))"

subsection \<open>Filling the slots\<close>

definition breader_ok :: "breader \<Rightarrow> bool" where
  "breader_ok r \<longleftrightarrow> length (br_bufs r) = length (br_msgs r) \<and> length (br_names r) = length (br_msgs r) \<and>
     length (br_oob r) = length (br_msgs r) * br_oobSize r \<and> (\<forall>b \<in> set (br_bufs r). length b < 2 ^ 32)"

text \<open>What the kernel promises of a slot: it stays inside the buffer and the control data of that slot.\<close>

definition slot_ok :: "breader \<Rightarrow> nat \<Rightarrow> kslot \<Rightarrow> bool" where
  "slot_ok r i s \<longleftrightarrow> length (ks_data s) \<le> length (br_bufs r ! i) \<and> length (ks_control s) \<le> br_oobSize r"

lemma length_write_at [simp]: "i + length xs \<le> length ys \<Longrightarrow> length (write_at i xs ys) = length ys"
  by (simp add: write_at_def)

lemma slot_range: "i < n \<Longrightarrow> c \<le> sz \<Longrightarrow> i * sz + c \<le> n * (sz :: nat)"
  using mult_le_mono1 [of "Suc i" n sz] by simp

lemma fill_slot_ok:
  assumes "breader_ok r" and "i < length (br_msgs r)" and "slot_ok r i s"
  shows "breader_ok (fill_slot i s r)" and "length (br_msgs (fill_slot i s r)) = length (br_msgs r)"
    and "br_oobSize (fill_slot i s r) = br_oobSize r" and "br_zones (fill_slot i s r) = br_zones r"
    and "length (br_bufs (fill_slot i s r) ! j) = length (br_bufs r ! j)"
proof -
  have l: "length (write_at 0 (ks_data s) (br_bufs r ! i)) = length (br_bufs r ! i)" using assms(3) by (simp add: slot_ok_def)
  show "length (br_bufs (fill_slot i s r) ! j) = length (br_bufs r ! j)"
    using l assms(1,2) by (cases "j = i") (simp_all add: fill_slot_def breader_ok_def)
  have "length (br_oob (fill_slot i s r)) = length (br_oob r)"
    using slot_range [OF assms(2)] assms(1,3) by (simp add: fill_slot_def breader_ok_def slot_ok_def)
  moreover have "\<forall>b \<in> set ((br_bufs r)[i := write_at 0 (ks_data s) (br_bufs r ! i)]). length b < 2 ^ 32"
    using assms(1,2) l by (auto simp: breader_ok_def dest!: set_update_subset_insert [THEN subsetD])
  ultimately show "breader_ok (fill_slot i s r)" using assms(1) by (simp add: breader_ok_def) (simp add: fill_slot_def)
qed (simp_all add: fill_slot_def)

text \<open>What slot \<open>i\<close> holds after the call: the datagram \<open>s\<close>.\<close>

definition slot_holds :: "breader \<Rightarrow> nat \<Rightarrow> kslot \<Rightarrow> bool" where
  "slot_holds r i s \<longleftrightarrow> unat (mh_len (br_msgs r ! i)) = length (ks_data s) \<and>
     take (length (ks_data s)) (br_bufs r ! i) = ks_data s \<and> mh_flags (br_msgs r ! i) = ks_flags s \<and>
     br_names r ! i = ks_name s \<and> mh_controllen (br_msgs r ! i) = length (ks_control s) \<and>
     take (length (ks_control s)) (drop (i * br_oobSize r) (br_oob r)) = ks_control s"

lemma take_drop_write_at:
  assumes "i + length xs \<le> length ys"
  shows "take (length xs) (drop i (write_at i xs ys)) = xs"
  using assms by (simp add: write_at_def)

lemma take_drop_write_other:
  assumes "j + n \<le> i \<or> i + length xs \<le> j" and "i + length xs \<le> length ys"
  shows "take n (drop j (write_at i xs ys)) = take n (drop j ys)"
proof (rule nth_equalityI)
  fix k assume "k < length (take n (drop j (write_at i xs ys)))"
  then have k: "k < n" "j + k < length ys" using assms(2) by (simp_all, linarith)
  then have "j + k < i \<or> i + length xs \<le> j + k" using assms(1) by linarith
  then have "write_at i xs ys ! (j + k) = ys ! (j + k)" using k(2) assms(2) by (auto simp: write_at_def nth_append)
  then show "take n (drop j (write_at i xs ys)) ! k = take n (drop j ys) ! k" using k assms(2) by simp
qed (use assms(2) in simp)

lemma fill_slot_holds:
  assumes "breader_ok r" and "i < length (br_msgs r)" and "slot_ok r i s"
  shows "slot_holds (fill_slot i s r) i s"
proof -
  have "length (ks_data s) < 2 ^ 32" using assms by (auto simp: breader_ok_def slot_ok_def intro: order.strict_trans1)
  then have "unat (of_nat (length (ks_data s)) :: u32) = length (ks_data s)" by (simp add: unat_of_nat take_bit_nat_eq_self)
  moreover have "take (length (ks_data s)) (write_at 0 (ks_data s) (br_bufs r ! i)) = ks_data s"
    using take_drop_write_at [of 0 "ks_data s" "br_bufs r ! i"] assms(3) by (simp add: slot_ok_def)
  moreover have "take (length (ks_control s)) (drop (i * br_oobSize r) (write_at (i * br_oobSize r) (ks_control s) (br_oob r))) = ks_control s"
    using slot_range [OF assms(2)] assms(1,3) by (intro take_drop_write_at) (simp add: breader_ok_def slot_ok_def)
  ultimately show ?thesis using assms(1,2) by (simp add: slot_holds_def fill_slot_def breader_ok_def)
qed

lemma fill_slot_other:
  assumes "breader_ok r" and "i < length (br_msgs r)" and "slot_ok r i s" and "j < i" and "length (ks_control s') \<le> br_oobSize r"
    and "slot_holds r j s'"
  shows "slot_holds (fill_slot i s r) j s'"
proof -
  have "j * br_oobSize r + length (ks_control s') \<le> i * br_oobSize r" using slot_range [OF assms(4,5)] .
  moreover have "i * br_oobSize r + length (ks_control s) \<le> length (br_oob r)"
    using slot_range [OF assms(2)] assms(1,3) by (simp add: breader_ok_def slot_ok_def)
  ultimately have "take (length (ks_control s')) (drop (j * br_oobSize r) (write_at (i * br_oobSize r) (ks_control s) (br_oob r)))
    = take (length (ks_control s')) (drop (j * br_oobSize r) (br_oob r))" by (intro take_drop_write_other) simp_all
  then show ?thesis using assms(4,6) by (simp add: slot_holds_def fill_slot_def)
qed

lemma kernel_fill_holds:
  assumes "breader_ok r" and "i + length ss \<le> length (br_msgs r)" and "\<And>j. j < length ss \<Longrightarrow> slot_ok r (i + j) (ss ! j)"
    and "length pre = i" and "\<And>j. j < i \<Longrightarrow> slot_holds r j (pre ! j) \<and> length (ks_control (pre ! j)) \<le> br_oobSize r"
  shows "breader_ok (kernel_fill i ss r) \<and> br_zones (kernel_fill i ss r) = br_zones r \<and>
    br_oobSize (kernel_fill i ss r) = br_oobSize r \<and> length (br_msgs (kernel_fill i ss r)) = length (br_msgs r) \<and>
    (\<forall>j. length (br_bufs (kernel_fill i ss r) ! j) = length (br_bufs r ! j)) \<and>
    (\<forall>j < length (pre @ ss). slot_holds (kernel_fill i ss r) j ((pre @ ss) ! j))"
  using assms
proof (induction ss arbitrary: i r pre)
  case (Cons s ss)
  let ?r = "fill_slot i s r"
  have i: "i < length (br_msgs r)" and s: "slot_ok r i s" using Cons.prems(2) Cons.prems(3) [of 0] by simp_all
  note f = fill_slot_ok [OF Cons.prems(1) i s]
  have "slot_holds ?r j ((pre @ [s]) ! j) \<and> length (ks_control ((pre @ [s]) ! j)) \<le> br_oobSize ?r" if "j < Suc i" for j
    using that Cons.prems(4) Cons.prems(5) [of j] fill_slot_holds [OF Cons.prems(1) i s] s
      fill_slot_other [OF Cons.prems(1) i s, of j "pre ! j"]
    by (cases "j = i") (auto simp: nth_append f(3) slot_ok_def)
  moreover have "slot_ok ?r (Suc i + j) (ss ! j)" if "j < length ss" for j
    using Cons.prems(3) [of "Suc j"] that by (simp add: slot_ok_def f(3,5))
  ultimately have "breader_ok (kernel_fill (Suc i) ss ?r) \<and> br_zones (kernel_fill (Suc i) ss ?r) = br_zones ?r \<and>
    br_oobSize (kernel_fill (Suc i) ss ?r) = br_oobSize ?r \<and> length (br_msgs (kernel_fill (Suc i) ss ?r)) = length (br_msgs ?r) \<and>
    (\<forall>j. length (br_bufs (kernel_fill (Suc i) ss ?r) ! j) = length (br_bufs ?r ! j)) \<and>
    (\<forall>j < length ((pre @ [s]) @ ss). slot_holds (kernel_fill (Suc i) ss ?r) j (((pre @ [s]) @ ss) ! j))"
    by (intro Cons.IH) (use Cons.prems(2,4) f in simp_all)
  then show ?case using f by simp
qed simp

subsection \<open>Reading a batch\<close>

text \<open>
  How the \<open>net\<close> package reports the same sender: the zone is always looked up, and an IPv4-mapped
  address is not unmapped.
\<close>

definition zone_name :: "(u32 \<Rightarrow> string option) \<Rightarrow> u32 \<Rightarrow> string" where
  "zone_name ifs i = (case ifs i of None \<Rightarrow> FormatUint (unat i) | Some nm \<Rightarrow> nm)"

definition net_addr :: "(u32 \<Rightarrow> string option) \<Rightarrow> sockaddr \<Rightarrow> addrport" where
  "net_addr ifs sa =
     (case sa of
        SaInet p b \<Rightarrow> (Addr4 b, port p)
      | SaInet6 p b sc \<Rightarrow>
          (Addr6 b (if sc = 0 then '''' else zone_name ifs sc), port p)
      | SaOther f \<Rightarrow> (Addr0, 0))"

definition zones_ok :: "(u32 \<Rightarrow> string option) \<Rightarrow> (u32 \<rightharpoonup> string) \<Rightarrow> bool" where
  "zones_ok ifs zones \<longleftrightarrow> (\<forall>i z. zones i = Some z \<longrightarrow> z = zone_name ifs i)"

lemma zone_cached:
  assumes "zones_ok ifs zones"
  shows "fst (zone ifs i zones) = zone_name ifs i" and "zones_ok ifs (snd (zone ifs i zones))"
  using assms by (cases "zones i"; auto simp: zone_def zones_ok_def Let_def zone_name_def [symmetric])+

lemma addr_net:
  assumes "zones_ok ifs zones"
  shows "fst (addr ifs sa zones) = (Unmap (fst (net_addr ifs sa)), snd (net_addr ifs sa))"
    and "zones_ok ifs (snd (addr ifs sa zones))"
proof -
  have "Is6 (Unmap (Addr6 b z)) \<longleftrightarrow> \<not> Is4In6 (Addr6 b z)" for b z by (simp add: Is6_def Unmap_def)
  then show "fst (addr ifs sa zones) = (Unmap (fst (net_addr ifs sa)), snd (net_addr ifs sa))"
    using zone_cached(1) [OF assms]
    by (cases sa) (auto simp: addr_def net_addr_def Let_def case_prod_beta Unmap_def WithZone_def Is4In6_def)
  show "zones_ok ifs (snd (addr ifs sa zones))"
    using assms zone_cached(2) [OF assms] by (cases sa) (auto simp: addr_def Let_def case_prod_beta)
qed

lemma recv_reset_ok: "breader_ok r \<Longrightarrow> breader_ok (recv_reset r)" "br_zones (recv_reset r) = br_zones r"
  "br_bufs (recv_reset r) = br_bufs r" "br_oobSize (recv_reset r) = br_oobSize r"
  "length (br_msgs (recv_reset r)) = length (br_msgs r)"
  by (simp_all add: breader_ok_def recv_reset_def)

lemma recv_reset_idem [simp]: "recv_reset (recv_reset r) = recv_reset r"
  by (simp add: recv_reset_def comp_def)

text \<open>A kernel with a given list of answers, and a poller that always wakes the reader.\<close>

definition scripted :: "kres list recvmmsg" where
  "scripted k ms = (hd k, tl k)"

definition poller :: "'k \<Rightarrow> neterr option \<times> 'k" where
  "poller k = (None, k)"

lemma recv_scripted:
  "recv scripted r (KErr EINTR # k) = recv scripted r k" "recv scripted r (KErr EAGAIN # k) = Some (False, recv_reset r, k)"
  "recv scripted r (KGot ss # k) =
     Some (True, (kernel_fill 0 ss (recv_reset r))\<lparr>br_n := int (length ss), br_errno := None\<rparr>, k)"
  "e \<noteq> EINTR \<Longrightarrow> e \<noteq> EAGAIN \<Longrightarrow> recv scripted r (KErr e # k) = Some (True, (recv_reset r)\<lparr>br_n := - 1, br_errno := Some e\<rparr>, k)"
  unfolding recv_def by (subst recv_loop.simps, simp add: scripted_def)+

text \<open>Interruptions and an empty queue only delay the call.\<close>

lemma RawRead_retries:
  assumes "set pre \<subseteq> {KErr EINTR, KErr EAGAIN}"
    and "\<And>r. RawRead scripted poller (recv_reset r) k = RawRead scripted poller r k"
  shows "RawRead scripted poller r (pre @ k) = RawRead scripted poller r k"
  using assms(1)
proof (induction pre arbitrary: r)
  case (Cons e pre)
  then have IH: "RawRead scripted poller r (pre @ k) = RawRead scripted poller r k" for r by simp
  consider "e = KErr EINTR" | "e = KErr EAGAIN" using Cons.prems by auto
  then show ?case
  proof cases
    case 1
    have "RawRead scripted poller r (e # pre @ k) = RawRead scripted poller r (pre @ k)"
      unfolding 1 by (subst (1 2) RawRead.simps) (simp add: recv_scripted)
    then show ?thesis using IH [of r] by simp
  next
    case 2
    have "RawRead scripted poller r (e # pre @ k) = RawRead scripted poller (recv_reset r) (pre @ k)"
      unfolding 2 by (subst RawRead.simps) (simp add: recv_scripted poller_def)
    then show ?thesis using IH [of "recv_reset r"] assms(2) by simp
  qed
qed simp

lemma RawRead_got:
  assumes "set pre \<subseteq> {KErr EINTR, KErr EAGAIN}"
  shows "RawRead scripted poller r (pre @ KGot ss # rest) =
    Some (None, (kernel_fill 0 ss (recv_reset r))\<lparr>br_n := int (length ss), br_errno := None\<rparr>, rest)"
proof -
  have "RawRead scripted poller r (KGot ss # rest) =
    Some (None, (kernel_fill 0 ss (recv_reset r))\<lparr>br_n := int (length ss), br_errno := None\<rparr>, rest)" for r
    by (subst RawRead.simps) (simp add: recv_scripted)
  then show ?thesis using RawRead_retries [OF assms] by simp
qed

lemma RawRead_err:
  assumes "set pre \<subseteq> {KErr EINTR, KErr EAGAIN}" and "e \<noteq> EINTR" and "e \<noteq> EAGAIN"
  shows "RawRead scripted poller r (pre @ KErr e # rest) = Some (None, (recv_reset r)\<lparr>br_n := - 1, br_errno := Some e\<rparr>, rest)"
proof -
  have "RawRead scripted poller r (KErr e # rest) = Some (None, (recv_reset r)\<lparr>br_n := - 1, br_errno := Some e\<rparr>, rest)" for r
    using assms(2,3) by (subst RawRead.simps) (simp add: recv_scripted)
  then show ?thesis using RawRead_retries [OF assms(1)] by simp
qed

text \<open>What every call keeps of the reader.\<close>

definition same_reader :: "(u32 \<Rightarrow> string option) \<Rightarrow> breader \<Rightarrow> breader \<Rightarrow> bool" where
  "same_reader ifs r r' \<longleftrightarrow> breader_ok r' \<and> zones_ok ifs (br_zones r') \<and> length (br_msgs r') = length (br_msgs r) \<and>
     br_oobSize r' = br_oobSize r \<and> (\<forall>j. length (br_bufs r' ! j) = length (br_bufs r ! j))"

lemma reader_status [simp]:
  "slot_holds (r\<lparr>br_n := n, br_errno := e\<rparr>) j s = slot_holds r j s" "breader_ok (r\<lparr>br_n := n, br_errno := e\<rparr>) = breader_ok r"
  "slot_holds (r\<lparr>br_zones := z\<rparr>) j s = slot_holds r j s" "breader_ok (r\<lparr>br_zones := z\<rparr>) = breader_ok r"
  by (simp_all add: slot_holds_def breader_ok_def)

lemma Read_got:
  assumes "breader_ok r" and "zones_ok ifs (br_zones r)" and "set pre \<subseteq> {KErr EINTR, KErr EAGAIN}"
    and "length ss \<le> length (br_msgs r)" and "\<forall>j < length ss. slot_ok r j (ss ! j)"
  obtains r' where "BatchReader_Read scripted poller r (pre @ KGot ss # rest) = Some (Inr (int (length ss)), r', rest)"
    and "same_reader ifs r r'" and "\<And>j. j < length ss \<Longrightarrow> slot_holds r' j (ss ! j)"
proof -
  let ?r = "recv_reset (r\<lparr>br_n := 0, br_errno := None\<rparr>)"
  let ?r' = "(kernel_fill 0 ss ?r)\<lparr>br_n := int (length ss), br_errno := None\<rparr>"
  have r1: "breader_ok (r\<lparr>br_n := 0, br_errno := None\<rparr>)" using assms(1) by simp
  have "slot_ok ?r (0 + j) (ss ! j)" if "j < length ss" for j using assms(5) that by (simp add: slot_ok_def recv_reset_ok)
  then have f: "breader_ok (kernel_fill 0 ss ?r) \<and> br_zones (kernel_fill 0 ss ?r) = br_zones ?r \<and>
    br_oobSize (kernel_fill 0 ss ?r) = br_oobSize ?r \<and> length (br_msgs (kernel_fill 0 ss ?r)) = length (br_msgs ?r) \<and>
    (\<forall>j. length (br_bufs (kernel_fill 0 ss ?r) ! j) = length (br_bufs ?r ! j)) \<and>
    (\<forall>j < length ([] @ ss). slot_holds (kernel_fill 0 ss ?r) j (([] @ ss) ! j))"
    using assms(4) recv_reset_ok(1) [OF r1] by (intro kernel_fill_holds) (simp_all add: recv_reset_ok)
  then have "same_reader ifs r ?r'" using assms(2) by (simp add: same_reader_def recv_reset_ok)
  moreover have "slot_holds ?r' j (ss ! j)" if "j < length ss" for j using f that by simp
  moreover have "BatchReader_Read scripted poller r (pre @ KGot ss # rest) = Some (Inr (int (length ss)), ?r', rest)"
    by (simp add: BatchReader_Read_def RawRead_got [OF assms(3)])
  ultimately show thesis using that by blast
qed

lemma Read_err:
  assumes "breader_ok r" and "zones_ok ifs (br_zones r)" and "set pre \<subseteq> {KErr EINTR, KErr EAGAIN}" and "e \<noteq> EINTR" and "e \<noteq> EAGAIN"
  obtains r' where "BatchReader_Read scripted poller r (pre @ KErr e # rest) = Some (Inl (SysErr e), r', rest)" and "same_reader ifs r r'"
proof -
  let ?r = "recv_reset (r\<lparr>br_n := 0, br_errno := None\<rparr>)\<lparr>br_n := - 1, br_errno := Some e\<rparr>"
  have "same_reader ifs r ?r" using assms(1,2) by (simp add: same_reader_def recv_reset_def breader_ok_def)
  moreover have "BatchReader_Read scripted poller r (pre @ KErr e # rest) = Some (Inl (SysErr e), ?r, rest)"
    by (simp add: BatchReader_Read_def RawRead_err [OF assms(3-5)])
  ultimately show thesis using that by blast
qed

lemma Message_of_slot:
  assumes "slot_holds r i s" and "length (ks_control s) \<le> br_oobSize r" and "zones_ok ifs (br_zones r)"
  obtains z where "zones_ok ifs z" and "BatchReader_Message ifs i r = ((length (ks_data s), ks_control s, ks_flags s,
      (Unmap (fst (net_addr ifs (ks_name s))), snd (net_addr ifs (ks_name s)))), r\<lparr>br_zones := z\<rparr>)"
proof -
  have "BatchReader_Message ifs i r = ((length (ks_data s), ks_control s, ks_flags s,
      (Unmap (fst (net_addr ifs (ks_name s))), snd (net_addr ifs (ks_name s)))), r\<lparr>br_zones := snd (addr ifs (ks_name s) (br_zones r))\<rparr>)"
    using assms addr_net(1) [OF assms(3), of "ks_name s"]
    by (auto simp: BatchReader_Message_def slot_holds_def case_prod_beta Let_def)
  then show thesis using that addr_net(2) [OF assms(3)] by blast
qed


text \<open>Two slots of four bytes; an interruption, then one datagram from a mapped address.\<close>

definition demo_slot :: kslot where
  "demo_slot = \<lparr>ks_data = [1, 2, 3], ks_name = SaInet6 0x3500 (replicate 10 0 @ [255, 255, 10, 0, 0, 1]) 0, ks_control = [], ks_flags = 0\<rparr>"


end
