(* ===== verification/Socket.thy ===== *)
theory Socket
  imports Sys
begin

text \<open>
  Package \<open>socket\<close> (\<open>src/socket\<close>): portable socket options. The operating system is the argument \<open>os\<close>,
  so that the files selected by build tags are all modelled; \<open>setsockopt\<close>, \<open>getsockopt\<close> and
  \<open>RawConn.Control\<close> of an open socket are the parameter \<open>ops\<close>, functions on a kernel state.

  The lemmas show that a socket that is created has everything that was asked of it: the buffers
  the kernel really granted are at least as large as requested, options that change behaviour
  were applied, and a combination that cannot be honoured is an error, while Fast Open, which only
  saves a round trip, never makes a listener fail for want of support.
\<close>

section \<open>Options\<close>

datatype goos = Linux | Darwin | FreeBSD | OtherUnix string | WindowsGo | NonUnix string

definition GOOS :: "goos \<Rightarrow> string" where
  "GOOS os = (case os of Linux \<Rightarrow> ''linux'' | Darwin \<Rightarrow> ''darwin'' | FreeBSD \<Rightarrow> ''freebsd'' | OtherUnix n \<Rightarrow> n
     | WindowsGo \<Rightarrow> ''windows'' | NonUnix n \<Rightarrow> n)"

definition platform_of :: "goos \<Rightarrow> platform" where
  "platform_of os = (case os of Linux \<Rightarrow> LinuxOS | WindowsGo \<Rightarrow> WindowsOS | NonUnix n \<Rightarrow> OtherOS | _ \<Rightarrow> UnixOS)"

record FastOpenOptions =
  fo_Enabled :: bool
  fo_Backlog :: int

record KeepAlive =
  ka_Disable :: bool
  ka_Idle :: int
  ka_Interval :: int
  ka_Count :: int

record Options =
  op_FastOpen :: FastOpenOptions
  op_ReusePort :: bool
  op_RecvBuffer :: int
  op_SendBuffer :: int
  op_KeepAlive :: KeepAlive

definition zero_KeepAlive :: KeepAlive where
  "zero_KeepAlive = \<lparr>ka_Disable = False, ka_Idle = 0, ka_Interval = 0, ka_Count = 0\<rparr>"

definition zero_Options :: Options where
  "zero_Options = \<lparr>op_FastOpen = \<lparr>fo_Enabled = False, fo_Backlog = 0\<rparr>, op_ReusePort = False, op_RecvBuffer = 0,
     op_SendBuffer = 0, op_KeepAlive = zero_KeepAlive\<rparr>"

definition KeepAlive_IsZero :: "KeepAlive \<Rightarrow> bool" where
  "KeepAlive_IsZero k \<longleftrightarrow> k = zero_KeepAlive"

record KeepAliveConfig =
  kc_Enable :: bool
  kc_Idle :: int
  kc_Interval :: int
  kc_Count :: int

definition zero_config :: KeepAliveConfig where
  "zero_config = \<lparr>kc_Enable = False, kc_Idle = 0, kc_Interval = 0, kc_Count = 0\<rparr>"

definition KeepAlive_apply :: "KeepAlive \<Rightarrow> int \<times> KeepAliveConfig" where
  "KeepAlive_apply k =
     (if ka_Disable k then (- 1, zero_config)
      else if KeepAlive_IsZero k then (0, zero_config)
      else (0, \<lparr>kc_Enable = True, kc_Idle = ka_Idle k, kc_Interval = ka_Interval k, kc_Count = ka_Count k\<rparr>))"

record Capabilities =
  cap_FastOpenListen :: bool
  cap_ReusePortBalanced :: bool

definition Supported :: "goos \<Rightarrow> Capabilities" where
  "Supported os =
     (case os of
        Linux \<Rightarrow> \<lparr>cap_FastOpenListen = True, cap_ReusePortBalanced = True\<rparr>
      | Darwin \<Rightarrow> \<lparr>cap_FastOpenListen = True, cap_ReusePortBalanced = False\<rparr>
      | FreeBSD \<Rightarrow> \<lparr>cap_FastOpenListen = False, cap_ReusePortBalanced = True\<rparr>
      | _ \<Rightarrow> \<lparr>cap_FastOpenListen = False, cap_ReusePortBalanced = False\<rparr>)"

section \<open>Errors and the kernel\<close>

datatype sockerrno = ENOPROTOOPT | EOPNOTSUPP | ENOTSUP | ESock nat

datatype serr = UnsupportedOptionError string string | BufferSizeError string int int | SErrno sockerrno | SMsg string

definition IsUnsupported :: "serr \<Rightarrow> bool" where
  "IsUnsupported e = (case e of UnsupportedOptionError opt pl \<Rightarrow> True | _ \<Rightarrow> False)"

definition UnsupportedOptionError_Error :: "string \<Rightarrow> string \<Rightarrow> string" where
  "UnsupportedOptionError_Error opt pl = ''socket: '' @ opt @ '' is unsupported on '' @ pl"

datatype sockopt = SO_RCVBUF | SO_SNDBUF | SO_RCVBUFFORCE | SO_SNDBUFFORCE | SO_REUSEPORT | SO_REUSEPORT_LB | TCP_FASTOPEN

record 'k sockops =
  so_set :: "sockopt \<Rightarrow> int \<Rightarrow> 'k \<Rightarrow> sockerrno option \<times> 'k"
  so_get :: "sockopt \<Rightarrow> 'k \<Rightarrow> (int \<times> sockerrno option) \<times> 'k"
  so_ctl :: "'k \<Rightarrow> serr option"

section \<open>Buffers\<close>

record bufferKind =
  bk_name :: string
  bk_opt :: sockopt
  bk_force :: "sockopt option"

definition recvBufferKind :: "goos \<Rightarrow> bufferKind" where
  "recvBufferKind os = \<lparr>bk_name = ''receive buffer'', bk_opt = SO_RCVBUF, bk_force = (if os = Linux then Some SO_RCVBUFFORCE else None)\<rparr>"

definition sendBufferKind :: "goos \<Rightarrow> bufferKind" where
  "sendBufferKind os = \<lparr>bk_name = ''send buffer'', bk_opt = SO_SNDBUF, bk_force = (if os = Linux then Some SO_SNDBUFFORCE else None)\<rparr>"

definition kernelDoublesBuffers :: "goos \<Rightarrow> bool" where
  "kernelDoublesBuffers os \<longleftrightarrow> os = Linux"

definition bufferHint :: "goos \<Rightarrow> string \<Rightarrow> string" where
  "bufferHint os opt =
     (case os of
        Linux \<Rightarrow> (if opt = ''send buffer'' then ''raise net.core.wmem_max, or run with CAP_NET_ADMIN''
                   else ''raise net.core.rmem_max, or run with CAP_NET_ADMIN'')
      | WindowsGo \<Rightarrow> '''' | NonUnix n \<Rightarrow> ''''
      | _ \<Rightarrow> ''raise kern.ipc.maxsockbuf'')"

definition go_half :: "int \<Rightarrow> int" where
  "go_half v = (if v < 0 then - ((- v) div 2) else v div 2)"

definition readBuffer :: "'k sockops \<Rightarrow> bufferKind \<Rightarrow> bool \<Rightarrow> 'k \<Rightarrow> (int \<times> sockerrno option) \<times> 'k" where
  "readBuffer ops b doubled k =
     (let ((v, err), k1) = so_get ops (bk_opt b) k in ((if doubled then go_half v else v, err), k1))"

definition ensureBuffer :: "'k sockops \<Rightarrow> bufferKind \<Rightarrow> int \<Rightarrow> bool \<Rightarrow> 'k \<Rightarrow> serr option \<times> 'k" where
  "ensureBuffer ops b requested doubled k =
     (case so_set ops (bk_opt b) requested k of
        (Some e, k1) \<Rightarrow> (Some (SErrno e), k1)
      | (None, k1) \<Rightarrow>
          (case readBuffer ops b doubled k1 of
             ((actual, Some e), k2) \<Rightarrow> (Some (SErrno e), k2)
           | ((actual, None), k2) \<Rightarrow>
               (let check = (\<lambda>actual k. if actual < requested then (Some (BufferSizeError (bk_name b) requested actual), k) else (None, k))
                in case bk_force b of
                     None \<Rightarrow> check actual k2
                   | Some f \<Rightarrow>
                       (if actual < requested then
                          (let (ignored, k3) = so_set ops f requested k2
                           in case readBuffer ops b doubled k3 of
                                ((actual', Some e), k4) \<Rightarrow> (Some (SErrno e), k4)
                              | ((actual', None), k4) \<Rightarrow> check actual' k4)
                        else check actual k2))))"

definition applyBuffers_unix :: "goos \<Rightarrow> 'k sockops \<Rightarrow> Options \<Rightarrow> 'k \<Rightarrow> serr option \<times> 'k" where
  "applyBuffers_unix os ops opts k =
     (let (e1, k1) = (if op_RecvBuffer opts > 0
                      then ensureBuffer ops (recvBufferKind os) (op_RecvBuffer opts) (kernelDoublesBuffers os) k else (None, k))
      in if e1 \<noteq> None then (e1, k1)
         else if op_SendBuffer opts > 0
           then ensureBuffer ops (sendBufferKind os) (op_SendBuffer opts) (kernelDoublesBuffers os) k1
         else (None, k1))"

definition applyBuffers_windows :: "'k sockops \<Rightarrow> Options \<Rightarrow> 'k \<Rightarrow> serr option \<times> 'k" where
  "applyBuffers_windows ops opts k =
     (let (e1, k1) = (if op_RecvBuffer opts > 0
                      then ensureBuffer ops (recvBufferKind WindowsGo) (op_RecvBuffer opts) False k else (None, k))
      in if e1 \<noteq> None then (e1, k1)
         else if op_SendBuffer opts > 0 then ensureBuffer ops (sendBufferKind WindowsGo) (op_SendBuffer opts) False k1
         else (None, k1))"

definition applyBuffers_other :: "goos \<Rightarrow> Options \<Rightarrow> 'k \<Rightarrow> serr option \<times> 'k" where
  "applyBuffers_other os opts k =
     (if op_RecvBuffer opts > 0 \<or> op_SendBuffer opts > 0
      then (Some (UnsupportedOptionError ''socket buffer sizes'' (GOOS os)), k) else (None, k))"

definition applyBuffers :: "goos \<Rightarrow> 'k sockops \<Rightarrow> Options \<Rightarrow> 'k \<Rightarrow> serr option \<times> 'k" where
  "applyBuffers os ops opts k =
     (case os of
        NonUnix n \<Rightarrow> applyBuffers_other os opts k
      | WindowsGo \<Rightarrow> applyBuffers_windows ops opts k
      | _ \<Rightarrow> applyBuffers_unix os ops opts k)"

text \<open>Windows does what Unix does, with the constants of its own file.\<close>

lemma applyBuffers_eq:
  "applyBuffers os ops opts k = (case os of NonUnix n \<Rightarrow> applyBuffers_other os opts k | _ \<Rightarrow> applyBuffers_unix os ops opts k)"
proof -
  have "\<not> kernelDoublesBuffers WindowsGo" by (simp add: kernelDoublesBuffers_def)
  then have "applyBuffers_windows ops opts k = applyBuffers_unix WindowsGo ops opts k"
    unfolding applyBuffers_windows_def applyBuffers_unix_def by (simp only:)
  then show ?thesis by (simp add: applyBuffers_def split: goos.splits)
qed

lemmas applyBuffers_defs = applyBuffers_eq applyBuffers_other_def applyBuffers_unix_def

section \<open>Options on a socket\<close>

definition fastOpenResult :: "sockerrno option \<Rightarrow> sockerrno option" where
  "fastOpenResult err =
     (case err of
        None \<Rightarrow> None
      | Some e \<Rightarrow> (if e = ENOPROTOOPT \<or> e = EOPNOTSUPP \<or> e = ENOTSUP then None else Some e))"

definition set_reuse :: "'k sockops \<Rightarrow> sockopt \<Rightarrow> Options \<Rightarrow> 'k \<Rightarrow> serr option \<times> 'k" where
  "set_reuse ops opt opts k =
     (if op_ReusePort opts then (let (e, k1) = so_set ops opt 1 k in (map_option SErrno e, k1)) else (None, k))"

definition set_fastOpen :: "'k sockops \<Rightarrow> int \<Rightarrow> 'k \<Rightarrow> serr option \<times> 'k" where
  "set_fastOpen ops value k = (let (e, k1) = so_set ops TCP_FASTOPEN value k in (map_option SErrno (fastOpenResult e), k1))"

definition applyOptions_linux :: "'k sockops \<Rightarrow> Options \<Rightarrow> 'k \<Rightarrow> serr option \<times> 'k" where
  "applyOptions_linux ops opts k =
     (case set_reuse ops SO_REUSEPORT opts k of
        (Some e, k1) \<Rightarrow> (Some e, k1)
      | (None, k1) \<Rightarrow>
          (if \<not> fo_Enabled (op_FastOpen opts) then (None, k1)
           else (let backlog = (if fo_Backlog (op_FastOpen opts) \<le> 0 then 128 else fo_Backlog (op_FastOpen opts))
                 in set_fastOpen ops backlog k1)))"

definition applyOptions_darwin :: "'k sockops \<Rightarrow> Options \<Rightarrow> 'k \<Rightarrow> serr option \<times> 'k" where
  "applyOptions_darwin ops opts k =
     (case set_reuse ops SO_REUSEPORT opts k of
        (Some e, k1) \<Rightarrow> (Some e, k1)
      | (None, k1) \<Rightarrow> (if fo_Enabled (op_FastOpen opts) then set_fastOpen ops 1 k1 else (None, k1)))"

definition applyOptions_freebsd :: "'k sockops \<Rightarrow> Options \<Rightarrow> 'k \<Rightarrow> serr option \<times> 'k" where
  "applyOptions_freebsd ops opts k = set_reuse ops SO_REUSEPORT_LB opts k"

definition applyOptions_other :: "goos \<Rightarrow> Options \<Rightarrow> 'k \<Rightarrow> serr option \<times> 'k" where
  "applyOptions_other os opts k =
     (if op_ReusePort opts then (Some (UnsupportedOptionError ''SO_REUSEPORT'' (GOOS os)), k) else (None, k))"

definition applyOptions :: "goos \<Rightarrow> 'k sockops \<Rightarrow> Options \<Rightarrow> 'k \<Rightarrow> serr option \<times> 'k" where
  "applyOptions os ops opts k =
     (case os of
        Linux \<Rightarrow> applyOptions_linux ops opts k
      | Darwin \<Rightarrow> applyOptions_darwin ops opts k
      | FreeBSD \<Rightarrow> applyOptions_freebsd ops opts k
      | _ \<Rightarrow> applyOptions_other os opts k)"

lemmas applyOptions_defs = applyOptions_def applyOptions_linux_def applyOptions_darwin_def applyOptions_freebsd_def
  applyOptions_other_def set_reuse_def set_fastOpen_def

definition isTCP :: "string \<Rightarrow> bool" where
  "isTCP network \<longleftrightarrow> network = ''tcp'' \<or> network = ''tcp4'' \<or> network = ''tcp6''"

definition isUDP :: "string \<Rightarrow> bool" where
  "isUDP network \<longleftrightarrow> network = ''udp'' \<or> network = ''udp4'' \<or> network = ''udp6''"

definition checkNetwork :: "string \<Rightarrow> Options \<Rightarrow> serr option" where
  "checkNetwork network o1 =
     (let where' = ''network '' @ network
      in if \<not> isTCP network \<and> \<not> isUDP network then
           (if o1 \<noteq> zero_Options then Some (UnsupportedOptionError ''socket options'' where') else None)
         else if isUDP network \<and> fo_Enabled (op_FastOpen o1) then Some (UnsupportedOptionError ''TCP Fast Open'' where')
         else if isUDP network \<and> \<not> KeepAlive_IsZero (op_KeepAlive o1) then Some (UnsupportedOptionError ''TCP keep-alive'' where')
         else None)"

definition control :: "goos \<Rightarrow> 'k sockops \<Rightarrow> Options \<Rightarrow> bool \<Rightarrow> string \<Rightarrow> 'k \<Rightarrow> serr option \<times> 'k" where
  "control os ops opts outbound network k =
     (case checkNetwork network opts of
        Some e \<Rightarrow> (Some e, k)
      | None \<Rightarrow>
          (if outbound \<and> fo_Enabled (op_FastOpen opts)
           then (Some (UnsupportedOptionError ''TCP Fast Open'' ''dialed connections''), k)
           else if opts = zero_Options then (None, k)
           else (case so_ctl ops k of
                   Some e \<Rightarrow> (Some e, k)
                 | None \<Rightarrow>
                     (case applyBuffers os ops opts k of
                        (Some e, k1) \<Rightarrow> (Some e, k1)
                      | (None, k1) \<Rightarrow> applyOptions os ops opts k1))))"

type_synonym 'k ctl = "string \<Rightarrow> 'k \<Rightarrow> serr option \<times> 'k"

record 'k listenConfig =
  lc_Control :: "'k ctl"
  lc_KeepAlive :: int
  lc_KeepAliveConfig :: KeepAliveConfig

definition ListenConfig :: "goos \<Rightarrow> 'k sockops \<Rightarrow> Options \<Rightarrow> 'k listenConfig" where
  "ListenConfig os ops opts =
     (let (d, cfg) = KeepAlive_apply (op_KeepAlive opts)
      in \<lparr>lc_Control = control os ops opts False, lc_KeepAlive = d, lc_KeepAliveConfig = cfg\<rparr>)"

record 'k netDialer =
  nd_Control :: "'k ctl option"
  nd_ControlContext :: "'k ctl option"
  nd_KeepAlive :: int
  nd_KeepAliveConfig :: KeepAliveConfig

definition Socket_Dialer :: "goos \<Rightarrow> 'k sockops \<Rightarrow> 'k netDialer \<Rightarrow> Options \<Rightarrow> 'k netDialer" where
  "Socket_Dialer os ops base opts =
     (let ours = control os ops opts True;
          ctx = (\<lambda>network k.
             (let (e, k1) = (case nd_ControlContext base of
                               Some f \<Rightarrow> f network k
                             | None \<Rightarrow> (case nd_Control base of Some f \<Rightarrow> f network k | None \<Rightarrow> (None, k)))
              in if e \<noteq> None then (e, k1) else ours network k1));
          b1 = base\<lparr>nd_Control := None, nd_ControlContext := Some ctx\<rparr>
      in if \<not> KeepAlive_IsZero (op_KeepAlive opts)
         then (let (d, cfg) = KeepAlive_apply (op_KeepAlive opts) in b1\<lparr>nd_KeepAlive := d, nd_KeepAliveConfig := cfg\<rparr>)
         else b1)"

text \<open>
  The argument of \<open>SetBuffers\<close>: a nil interface, or a value of a kind that can be nil, or another
  value; and whether it implements \<open>syscall.Conn\<close>.
\<close>

datatype setter = NilInterface | Nilable bool | Plain

record 'k bufferSetter =
  bs_value :: setter
  bs_syscallConn :: "serr option option"
  bs_SetReadBuffer :: "int \<Rightarrow> 'k \<Rightarrow> serr option \<times> 'k"
  bs_SetWriteBuffer :: "int \<Rightarrow> 'k \<Rightarrow> serr option \<times> 'k"

definition isNil :: "setter \<Rightarrow> bool" where
  "isNil c = (case c of NilInterface \<Rightarrow> True | Nilable b \<Rightarrow> b | Plain \<Rightarrow> False)"

definition SetBuffers :: "goos \<Rightarrow> 'k sockops \<Rightarrow> 'k bufferSetter \<Rightarrow> Options \<Rightarrow> 'k \<Rightarrow> serr option \<times> 'k" where
  "SetBuffers os ops c opts k =
     (if isNil (bs_value c) then (Some (SMsg ''socket: SetBuffers: nil connection''), k)
      else if bs_syscallConn c \<noteq> None \<and> (op_RecvBuffer opts > 0 \<or> op_SendBuffer opts > 0) then
        (case the (bs_syscallConn c) of
           Some e \<Rightarrow> (Some e, k)
         | None \<Rightarrow>
             (case so_ctl ops k of
                Some e \<Rightarrow> (Some e, k)
              | None \<Rightarrow> applyBuffers os ops (zero_Options\<lparr>op_RecvBuffer := op_RecvBuffer opts, op_SendBuffer := op_SendBuffer opts\<rparr>) k))
      else
        (let (e1, k1) = (if op_RecvBuffer opts > 0 then bs_SetReadBuffer c (op_RecvBuffer opts) k else (None, k))
         in if e1 \<noteq> None then (e1, k1)
            else if op_SendBuffer opts > 0 then bs_SetWriteBuffer c (op_SendBuffer opts) k1
            else (None, k1)))"

section \<open>What the kernel granted\<close>

text \<open>
  What is relied on of the kernel: reading a buffer size changes nothing, and setting an option of
  one buffer does not change the other. \<open>inEffect k opt\<close> is the reading of \<open>opt\<close> in state \<open>k\<close>.
\<close>

definition kernel_ok :: "('k \<Rightarrow> sockopt \<Rightarrow> int) \<Rightarrow> 'k sockops \<Rightarrow> bool" where
  "kernel_ok inEffect ops \<longleftrightarrow>
     (\<forall>opt k. snd (so_get ops opt k) = k \<and> (snd (fst (so_get ops opt k)) = None \<longrightarrow> fst (fst (so_get ops opt k)) = inEffect k opt)) \<and>
     (\<forall>opt v k. opt \<noteq> SO_RCVBUF \<longrightarrow> opt \<noteq> SO_RCVBUFFORCE \<longrightarrow> inEffect (snd (so_set ops opt v k)) SO_RCVBUF = inEffect k SO_RCVBUF) \<and>
     (\<forall>opt v k. opt \<noteq> SO_SNDBUF \<longrightarrow> opt \<noteq> SO_SNDBUFFORCE \<longrightarrow> inEffect (snd (so_set ops opt v k)) SO_SNDBUF = inEffect k SO_SNDBUF)"

text \<open>The usable size, in the units of the request.\<close>

definition usable :: "goos \<Rightarrow> ('k \<Rightarrow> sockopt \<Rightarrow> int) \<Rightarrow> 'k \<Rightarrow> sockopt \<Rightarrow> int" where
  "usable os inEffect k opt = (if kernelDoublesBuffers os then go_half (inEffect k opt) else inEffect k opt)"

lemma readBuffer_result:
  assumes "kernel_ok inEffect ops" and "readBuffer ops b (kernelDoublesBuffers os) k = ((v, e), k')"
  shows "k' = k" and "e = None \<Longrightarrow> v = usable os inEffect k (bk_opt b)"
  using assms by (auto simp: readBuffer_def kernel_ok_def usable_def case_prod_beta Let_def)

text \<open>Success means that the size in effect at the end suffices; a size error reports that size.\<close>

lemma ensureBuffer_result:
  assumes "kernel_ok inEffect ops" and r: "ensureBuffer ops b n (kernelDoublesBuffers os) k = (e, k')"
  shows "e = None \<Longrightarrow> n \<le> usable os inEffect k' (bk_opt b)"
    and "e = Some (BufferSizeError nm req act) \<Longrightarrow> nm = bk_name b \<and> req = n \<and> act = usable os inEffect k' (bk_opt b) \<and> act < n"
  using r readBuffer_result [OF assms(1), of b os]
  unfolding ensureBuffer_def
  by (auto simp: Let_def case_prod_beta readBuffer_def split: option.splits prod.splits if_splits)

text \<open>The buffer that is not being set keeps its size.\<close>

lemma ensureBuffer_other:
  assumes "kernel_ok inEffect ops"
  shows "inEffect (snd (ensureBuffer ops (sendBufferKind os) n d k)) SO_RCVBUF = inEffect k SO_RCVBUF"
    and "inEffect (snd (ensureBuffer ops (recvBufferKind os) n d k)) SO_SNDBUF = inEffect k SO_SNDBUF"
proof -
  have g: "snd (so_get ops opt k) = k" for opt k using assms by (simp add: kernel_ok_def)
  have s: "inEffect (snd (so_set ops SO_SNDBUF v k)) SO_RCVBUF = inEffect k SO_RCVBUF"
    "inEffect (snd (so_set ops SO_SNDBUFFORCE v k)) SO_RCVBUF = inEffect k SO_RCVBUF"
    "inEffect (snd (so_set ops SO_RCVBUF v k)) SO_SNDBUF = inEffect k SO_SNDBUF"
    "inEffect (snd (so_set ops SO_RCVBUFFORCE v k)) SO_SNDBUF = inEffect k SO_SNDBUF" for v k
    using assms by (simp_all add: kernel_ok_def)
  show "inEffect (snd (ensureBuffer ops (sendBufferKind os) n d k)) SO_RCVBUF = inEffect k SO_RCVBUF"
    "inEffect (snd (ensureBuffer ops (recvBufferKind os) n d k)) SO_SNDBUF = inEffect k SO_SNDBUF"
    by (auto simp: ensureBuffer_def readBuffer_def sendBufferKind_def recvBufferKind_def case_prod_beta Let_def g s split: option.splits)
qed

lemma applyBuffers_result:
  assumes "kernel_ok inEffect ops" and r: "applyBuffers os ops opts k = (None, k')"
  shows "0 < op_RecvBuffer opts \<Longrightarrow> op_RecvBuffer opts \<le> usable os inEffect k' SO_RCVBUF"
    and "0 < op_SendBuffer opts \<Longrightarrow> op_SendBuffer opts \<le> usable os inEffect k' SO_SNDBUF"
proof -
  let ?d = "kernelDoublesBuffers os"
  define r1 where "r1 = (if op_RecvBuffer opts > 0 then ensureBuffer ops (recvBufferKind os) (op_RecvBuffer opts) ?d k else (None, k))"
  have k: "bk_opt (recvBufferKind os) = SO_RCVBUF" "bk_opt (sendBufferKind os) = SO_SNDBUF"
    by (simp_all add: recvBufferKind_def sendBufferKind_def)
  have first: "0 < op_RecvBuffer opts \<Longrightarrow> fst r1 = None \<Longrightarrow> op_RecvBuffer opts \<le> usable os inEffect (snd r1) SO_RCVBUF"
    using ensureBuffer_result(1) [OF assms(1), of "recvBufferKind os" "op_RecvBuffer opts" os k None "snd r1"] k(1)
    by (cases r1) (auto simp: r1_def)
  show "0 < op_SendBuffer opts \<Longrightarrow> op_SendBuffer opts \<le> usable os inEffect k' SO_SNDBUF"
    using r ensureBuffer_result(1) [OF assms(1), of "sendBufferKind os" "op_SendBuffer opts" os "snd r1" None k'] k(2)
    unfolding applyBuffers_defs r1_def [symmetric] by (auto simp: case_prod_beta Let_def split: goos.splits if_splits)
  have n: "0 < op_RecvBuffer opts \<Longrightarrow> fst r1 = None \<and> (k' = snd r1 \<or> k' = snd (ensureBuffer ops (sendBufferKind os) (op_SendBuffer opts) ?d (snd r1)))"
    using r unfolding applyBuffers_defs r1_def [symmetric] by (auto simp: case_prod_beta Let_def split: goos.splits if_splits)
  show "0 < op_RecvBuffer opts \<Longrightarrow> op_RecvBuffer opts \<le> usable os inEffect k' SO_RCVBUF"
    using n first ensureBuffer_other(1) [OF assms(1), of os "op_SendBuffer opts" ?d "snd r1"] by (auto simp: usable_def)
qed

text \<open>Setting the remaining options leaves the buffers alone.\<close>

lemma applyOptions_buffers:
  assumes "kernel_ok inEffect ops" and "opt \<in> {SO_RCVBUF, SO_SNDBUF}"
  shows "inEffect (snd (applyOptions os ops opts k)) opt = inEffect k opt"
proof -
  have s: "inEffect (snd (so_set ops x v k)) opt = inEffect k opt" if "x \<in> {SO_REUSEPORT, SO_REUSEPORT_LB, TCP_FASTOPEN}" for x v k
    using assms that by (auto simp: kernel_ok_def)
  show ?thesis by (auto simp: applyOptions_defs case_prod_beta Let_def s split: goos.splits option.splits prod.splits)
qed

text \<open>The options that change behaviour and the places where they can be honoured.\<close>

definition honourable :: "goos \<Rightarrow> Options \<Rightarrow> bool \<Rightarrow> string \<Rightarrow> bool" where
  "honourable os opts outbound network \<longleftrightarrow>
     (opts \<noteq> zero_Options \<longrightarrow> isTCP network \<or> isUDP network) \<and>
     (fo_Enabled (op_FastOpen opts) \<longrightarrow> isTCP network \<and> \<not> outbound) \<and>
     (\<not> KeepAlive_IsZero (op_KeepAlive opts) \<longrightarrow> isTCP network) \<and>
     (op_ReusePort opts \<longrightarrow> os \<in> {Linux, Darwin, FreeBSD}) \<and>
     (0 < op_RecvBuffer opts \<or> 0 < op_SendBuffer opts \<longrightarrow> (\<forall>n. os \<noteq> NonUnix n))"

lemma checkNetwork_None:
  "checkNetwork network opts = None \<longleftrightarrow> (opts \<noteq> zero_Options \<longrightarrow> isTCP network \<or> isUDP network) \<and>
     (fo_Enabled (op_FastOpen opts) \<longrightarrow> isTCP network) \<and> (\<not> KeepAlive_IsZero (op_KeepAlive opts) \<longrightarrow> isTCP network)"
proof -
  have "\<not> (isTCP network \<and> isUDP network)" by (auto simp: isTCP_def isUDP_def)
  moreover have "\<not> fo_Enabled (op_FastOpen zero_Options)" "KeepAlive_IsZero (op_KeepAlive zero_Options)"
    by (simp_all add: zero_Options_def KeepAlive_IsZero_def)
  ultimately show ?thesis by (auto simp: checkNetwork_def Let_def)
qed

section \<open>Properties\<close>

lemma control_success:
  assumes "kernel_ok inEffect ops" and "control os ops opts outbound network k = (None, k')"
  shows "honourable os opts outbound network" and "0 < op_RecvBuffer opts \<Longrightarrow> op_RecvBuffer opts \<le> usable os inEffect k' SO_RCVBUF"
    and "0 < op_SendBuffer opts \<Longrightarrow> op_SendBuffer opts \<le> usable os inEffect k' SO_SNDBUF"
proof -
  have net: "checkNetwork network opts = None" and out: "\<not> (outbound \<and> fo_Enabled (op_FastOpen opts))"
    using assms(2) by (auto simp: control_def split: option.splits if_splits)
  have "honourable os opts outbound network \<and> (0 < op_RecvBuffer opts \<longrightarrow> op_RecvBuffer opts \<le> usable os inEffect k' SO_RCVBUF) \<and>
    (0 < op_SendBuffer opts \<longrightarrow> op_SendBuffer opts \<le> usable os inEffect k' SO_SNDBUF)"
  proof (cases "opts = zero_Options")
    case True
    then show ?thesis using net out by (simp add: honourable_def checkNetwork_None) (simp add: zero_Options_def)
  next
    case False
    then obtain k1 where b: "applyBuffers os ops opts k = (None, k1)" and a: "applyOptions os ops opts k1 = (None, k')"
      using assms(2) net out by (auto simp: control_def split: option.splits prod.splits)
    have "op_ReusePort opts \<longrightarrow> os \<in> {Linux, Darwin, FreeBSD}" using a by (auto simp: applyOptions_defs Let_def split: goos.splits)
    moreover have "0 < op_RecvBuffer opts \<or> 0 < op_SendBuffer opts \<longrightarrow> (\<forall>n. os \<noteq> NonUnix n)"
      using b by (auto simp: applyBuffers_defs)
    ultimately have "honourable os opts outbound network" using net out unfolding honourable_def checkNetwork_None by blast
    moreover have "usable os inEffect k' opt = usable os inEffect k1 opt" if "opt \<in> {SO_RCVBUF, SO_SNDBUF}" for opt
      using applyOptions_buffers [OF assms(1) that, of os opts k1] a by (simp add: usable_def)
    ultimately show ?thesis using applyBuffers_result [OF assms(1) b] by simp
  qed
  then show "honourable os opts outbound network" and "0 < op_RecvBuffer opts \<Longrightarrow> op_RecvBuffer opts \<le> usable os inEffect k' SO_RCVBUF"
    and "0 < op_SendBuffer opts \<Longrightarrow> op_SendBuffer opts \<le> usable os inEffect k' SO_SNDBUF" by simp_all
qed

definition without_FastOpen :: "Options \<Rightarrow> Options" where
  "without_FastOpen opts = opts\<lparr>op_FastOpen := \<lparr>fo_Enabled = False, fo_Backlog = 0\<rparr>\<rparr>"

lemma fast_open_harmless:
  assumes "\<And>v k. fst (so_set ops TCP_FASTOPEN v k) \<in> {None, Some ENOPROTOOPT, Some EOPNOTSUPP, Some ENOTSUP}"
    and "isTCP network" and "so_ctl ops k = None" and "fst (control os ops (without_FastOpen opts) False network k) = None"
  shows "fst (control os ops opts False network k) = None"
proof -
  let ?o = "without_FastOpen opts"
  have fo: "fastOpenResult (fst (so_set ops TCP_FASTOPEN v k)) = None" for v k
    using assms(1) [of v k] by (auto simp: fastOpenResult_def)
  have net: "checkNetwork network o1 = None" for o1 using assms(2) by (simp add: checkNetwork_None)
  have sel: "op_RecvBuffer ?o = op_RecvBuffer opts" "op_SendBuffer ?o = op_SendBuffer opts" by (simp_all add: without_FastOpen_def)
  have ab: "applyBuffers os ops opts k = applyBuffers os ops ?o k" unfolding applyBuffers_defs sel ..
  have ao: "fst (applyOptions os ops ?o k1) = None \<Longrightarrow> fst (applyOptions os ops opts k1) = None" for k1
    by (auto simp: applyOptions_defs without_FastOpen_def Let_def case_prod_beta fo split: goos.splits option.splits prod.splits)
  show ?thesis
  proof (cases "?o = zero_Options")
    case True
    then have z: "op_RecvBuffer opts = 0" "op_SendBuffer opts = 0" "\<not> op_ReusePort opts"
      by (cases opts; auto simp: without_FastOpen_def zero_Options_def)+
    then have "applyBuffers os ops opts k = (None, k)" by (simp add: applyBuffers_defs split: goos.splits)
    moreover have "fst (applyOptions os ops opts k) = None"
      using z by (auto simp: applyOptions_defs Let_def case_prod_beta fo split: goos.splits)
    ultimately show ?thesis using net assms(3) by (simp add: control_def)
  next
    case False
    then obtain k1 where "applyBuffers os ops ?o k = (None, k1)" "fst (applyOptions os ops ?o k1) = None"
      using assms(3,4) net by (auto simp: control_def split: option.splits prod.splits)
    then show ?thesis using net assms(3) ab ao by (simp add: control_def)
  qed
qed

text \<open>
  C18: The control function of a listener or dialer, on every operating system: when it reports no
  error, every option was one that this kind of socket and this system can honour, and the buffer
  sizes the kernel really granted are at least the requested ones; a combination that cannot be
  honoured is always an error, and one that no network of that name supports is refused before the
  socket is touched; and asking a TCP listener for Fast Open never makes it fail on a kernel that
  merely lacks it.
\<close>

theorem options_are_honoured_or_refused:
  assumes "kernel_ok inEffect ops"
  shows "(fst (control os ops opts outbound network k) = None \<longrightarrow>
      honourable os opts outbound network \<and>
      (0 < op_RecvBuffer opts \<longrightarrow> op_RecvBuffer opts \<le> usable os inEffect (snd (control os ops opts outbound network k)) SO_RCVBUF) \<and>
      (0 < op_SendBuffer opts \<longrightarrow> op_SendBuffer opts \<le> usable os inEffect (snd (control os ops opts outbound network k)) SO_SNDBUF)) \<and>
    (\<not> isTCP network \<and> opts \<noteq> zero_Options \<and>
       (\<not> isUDP network \<or> fo_Enabled (op_FastOpen opts) \<or> \<not> KeepAlive_IsZero (op_KeepAlive opts)) \<longrightarrow>
      (\<exists>e. control os ops opts outbound network k = (Some e, k) \<and> IsUnsupported e)) \<and>
    ((\<forall>v k. fst (so_set ops TCP_FASTOPEN v k) \<in> {None, Some ENOPROTOOPT, Some EOPNOTSUPP, Some ENOTSUP}) \<and>
       isTCP network \<and> so_ctl ops k = None \<and> fst (control os ops (without_FastOpen opts) False network k) = None \<longrightarrow>
      fst (control os ops opts False network k) = None)"
proof -
  have "honourable os opts outbound network \<and>
      (0 < op_RecvBuffer opts \<longrightarrow> op_RecvBuffer opts \<le> usable os inEffect (snd (control os ops opts outbound network k)) SO_RCVBUF) \<and>
      (0 < op_SendBuffer opts \<longrightarrow> op_SendBuffer opts \<le> usable os inEffect (snd (control os ops opts outbound network k)) SO_SNDBUF)"
    if "fst (control os ops opts outbound network k) = None"
    using control_success [OF assms, of os opts outbound network k "snd (control os ops opts outbound network k)"] that
    by (metis prod.collapse)
  moreover have "\<exists>e. control os ops opts outbound network k = (Some e, k) \<and> IsUnsupported e"
    if "\<not> isTCP network \<and> opts \<noteq> zero_Options \<and>
       (\<not> isUDP network \<or> fo_Enabled (op_FastOpen opts) \<or> \<not> KeepAlive_IsZero (op_KeepAlive opts))"
    using that by (auto simp: control_def checkNetwork_def Let_def IsUnsupported_def)
  moreover have "fst (control os ops opts False network k) = None"
    if "(\<forall>v k. fst (so_set ops TCP_FASTOPEN v k) \<in> {None, Some ENOPROTOOPT, Some EOPNOTSUPP, Some ENOTSUP}) \<and>
       isTCP network \<and> so_ctl ops k = None \<and> fst (control os ops (without_FastOpen opts) False network k) = None"
    by (rule fast_open_harmless) (use that in auto)
  ultimately show ?thesis by (intro conjI impI) simp_all
qed

text \<open>A Linux kernel with \<open>rmem_max\<close> 1000, without the privilege to exceed it, and no limit on the send buffer.\<close>

definition demo_kernel :: "(int \<times> int) sockops" where
  "demo_kernel = \<lparr>
     so_set = (\<lambda>opt v (r, s). case opt of SO_RCVBUF \<Rightarrow> (None, (2 * min v 1000, s)) | SO_SNDBUF \<Rightarrow> (None, (r, 2 * v))
                 | SO_REUSEPORT \<Rightarrow> (None, (r, s)) | TCP_FASTOPEN \<Rightarrow> (Some ENOPROTOOPT, (r, s)) | _ \<Rightarrow> (Some (ESock 1), (r, s))),
     so_get = (\<lambda>opt (r, s). ((if opt = SO_SNDBUF then s else r, None), (r, s))),
     so_ctl = (\<lambda>k. None)\<rparr>"

definition demo_effect :: "int \<times> int \<Rightarrow> sockopt \<Rightarrow> int" where
  "demo_effect k opt = (if opt = SO_SNDBUF then snd k else fst k)"

lemma demo_kernel_ok: "kernel_ok demo_effect demo_kernel"
  by (auto simp: kernel_ok_def demo_kernel_def demo_effect_def split: sockopt.splits)

definition demo_opts :: "int \<Rightarrow> Options" where
  "demo_opts n = zero_Options\<lparr>op_RecvBuffer := n, op_FastOpen := \<lparr>fo_Enabled = True, fo_Backlog = 0\<rparr>\<rparr>"

theorem options_are_honoured_or_refused_witness:
  "fst (control Linux demo_kernel (demo_opts 800) False ''tcp4'' (0, 0)) = None \<and>
   800 \<le> usable Linux demo_effect (snd (control Linux demo_kernel (demo_opts 800) False ''tcp4'' (0, 0))) SO_RCVBUF \<and>
   fst (control Linux demo_kernel (demo_opts 2000) False ''tcp4'' (0, 0)) = Some (BufferSizeError ''receive buffer'' 2000 1000)"
proof -
  note d = control_def checkNetwork_def isTCP_def isUDP_def demo_opts_def zero_Options_def applyBuffers_defs ensureBuffer_def
    readBuffer_def recvBufferKind_def kernelDoublesBuffers_def demo_kernel_def go_half_def applyOptions_defs fastOpenResult_def
    zero_KeepAlive_def KeepAlive_IsZero_def
  have a: "fst (control Linux demo_kernel (demo_opts 800) False ''tcp4'' (0, 0)) = None"
    and b: "fst (control Linux demo_kernel (demo_opts 2000) False ''tcp4'' (0, 0)) = Some (BufferSizeError ''receive buffer'' 2000 1000)"
    by (simp_all add: d)
  have "op_RecvBuffer (demo_opts 800) = 800" by (simp add: demo_opts_def)
  with options_are_honoured_or_refused [OF demo_kernel_ok, of Linux "demo_opts 800" False "''tcp4''" "(0, 0)"] a b
  show ?thesis by simp
qed

end
