(* ===== verification/Udp.thy ===== *)
theory Udp
  imports Socket
begin

text \<open>
  Package \<open>udp\<close> (\<open>src/udp/udp.go\<close>): the datagram transport. What the sockets return is an argument: the
  results of the reads of a reader are a list of events, the result of a send is a value. The
  handler is a function on the connection and on a state of its own. A \<open>select\<close> that may go two
  ways takes its outcome as an argument.

  The lemmas show that reading in batches is the same as reading one datagram at a time; that the
  kernel's wrapping drop count is turned into the right total under any interleaving of the
  readers; and that the statistics account for every read of every reader.
\<close>

section \<open>Connection\<close>

record readerStats =
  rs_recvPackets :: u64
  rs_recvBytes :: u64
  rs_truncated :: u64
  rs_recvErrors :: u64

record sendStats =
  ss_packets :: u64
  ss_bytes :: u64
  ss_errors :: u64

record dropCounter =
  dc_last :: u32
  dc_total :: u64

record udpOptions =
  uo_Readers :: int
  uo_MaxPacket :: int
  uo_Batch :: int
  uo_Socket :: Options

record udpStats =
  us_RecvPackets :: u64
  us_RecvBytes :: u64
  us_SendPackets :: u64
  us_SendBytes :: u64
  us_Truncated :: u64
  us_RecvErrors :: u64
  us_SendErrors :: u64
  us_KernelDrops :: u64
  us_KernelDropsEnabled :: bool

record udpConn =
  uc_socks :: "bool list"
  uc_drops :: "dropCounter list"
  uc_sends :: "sendStats list"
  uc_readers :: "readerStats list"
  uc_max :: int
  uc_batch :: int
  uc_local :: string
  uc_serving :: bool
  uc_closed :: bool
  uc_fatal :: "neterr option"
  uc_closing :: bool
  uc_dropsOn :: bool

text \<open>\<open>uc_socks\<close> has an entry for each socket, which says whether it is open.\<close>

record packet =
  pk_Data :: "byte list"
  pk_From :: addrport
  pk_Reader :: int

abbreviation MaxDatagram :: int where "MaxDatagram \<equiv> 65000"
abbreviation maxBatch :: int where "maxBatch \<equiv> 1024"

datatype uerr = ErrClosed | ErrTooLarge | ErrNilPacket | UMsg string | UMaxPacket int | UBatch int | UBind serr | UNet neterr
  | UCtx string

definition observe_body :: "u32 \<Rightarrow> (u32, i32 option) cas_body" where
  "observe_body raw prev =
     (let delta = raw - prev in if sint (delta :: i32) \<le> 0 then Inl None else Inr (raw, Some delta))"

definition observe :: "u32 \<Rightarrow> dropCounter \<Rightarrow> dropCounter" where
  "observe raw d =
     (let (r, last') = cas_atomic (observe_body raw) (dc_last d)
      in case r of
           None \<Rightarrow> d
         | Some delta \<Rightarrow> d\<lparr>dc_last := last', dc_total := Counter_Add (of_int (sint delta)) (dc_total d)\<rparr>)"

definition closeSockets :: "udpConn \<Rightarrow> udpConn" where
  "closeSockets c = c\<lparr>uc_socks := map (\<lambda>s. False) (uc_socks c)\<rparr>"

definition Conn_Close :: "udpConn \<Rightarrow> udpConn" where
  "Conn_Close c = (if uc_closing c then c else closeSockets (c\<lparr>uc_closed := True, uc_closing := True\<rparr>))"

section \<open>Listen\<close>

definition Listen_options :: "platform \<Rightarrow> bool \<Rightarrow> udpOptions \<Rightarrow> uerr + udpOptions \<times> nat" where
  "Listen_options pl nilHandler o1 =
     (if nilHandler then Inl (UMsg ''udp: nil handler'')
      else if uo_Readers o1 < 0 \<or> uo_MaxPacket o1 < 0 \<or> uo_Batch o1 < 0 then Inl (UMsg ''udp: options must not be negative'')
      else if uo_MaxPacket o1 > MaxDatagram then Inl (UMaxPacket (uo_MaxPacket o1))
      else if uo_Batch o1 > maxBatch then Inl (UBatch (uo_Batch o1))
      else
        (let o2 = (if uo_Readers o1 = 0 then o1\<lparr>uo_Readers := 1\<rparr> else o1);
             o3 = (if uo_MaxPacket o2 = 0 then o2\<lparr>uo_MaxPacket := MaxDatagram\<rparr> else o2);
             nsock = (if op_ReusePort (uo_Socket o3) then uo_Readers o3 else 1);
             o4 = (if \<not> BatchSupported pl then o3\<lparr>uo_Batch := 1\<rparr>
                   else if uo_Batch o3 = 0 \<and> uo_Readers o3 > nsock then o3\<lparr>uo_Batch := 1\<rparr>
                   else if uo_Batch o3 = 0 then o3\<lparr>uo_Batch := DefaultBatch pl\<rparr>
                   else o3)
         in Inr (o4, nat nsock)))"

text \<open>
  The loop that opens the sockets: \<open>bind i address\<close> is the result of the \<open>i\<close>-th \<open>ListenPacket\<close>
  (its error, or the bound address), \<open>dropOK i\<close> whether \<open>SyscallConn\<close> and \<open>EnableDropCount\<close> succeeded.
\<close>

fun Listen_loop ::
    "(nat \<Rightarrow> string \<Rightarrow> serr + string) \<Rightarrow> (nat \<Rightarrow> bool) \<Rightarrow> nat list \<Rightarrow> string \<Rightarrow> udpConn \<Rightarrow> serr option \<times> udpConn" where
  "Listen_loop bind dropOK [] address c = (None, c)"
| "Listen_loop bind dropOK (i # is) address c =
     (case bind i address of
        Inl e \<Rightarrow> (Some e, closeSockets c)
      | Inr bound \<Rightarrow>
          (let c1 = c\<lparr>uc_socks := uc_socks c @ [True]\<rparr>;
               c2 = (if i = 0 then c1\<lparr>uc_local := bound\<rparr> else c1);
               address' = (if i = 0 then uc_local c2 else address);
               c3 = (if dropOK i then c2 else c2\<lparr>uc_dropsOn := False\<rparr>)
           in Listen_loop bind dropOK is address' c3))"

definition Listen ::
    "platform \<Rightarrow> bool \<Rightarrow> udpOptions \<Rightarrow> string \<Rightarrow> (nat \<Rightarrow> string \<Rightarrow> serr + string) \<Rightarrow> (nat \<Rightarrow> bool) \<Rightarrow> uerr option \<times> udpConn option" where
  "Listen pl nilHandler o1 address bind dropOK =
     (case Listen_options pl nilHandler o1 of
        Inl e \<Rightarrow> (Some e, None)
      | Inr (o2, nsock) \<Rightarrow>
          (let c = \<lparr>uc_socks = [], uc_drops = [], uc_sends = [], uc_readers = [], uc_max = uo_MaxPacket o2, uc_batch = uo_Batch o2,
                    uc_local = '''', uc_serving = False, uc_closed = False, uc_fatal = None, uc_closing = False, uc_dropsOn = True\<rparr>
           in case Listen_loop bind dropOK [0..<nsock] address c of
                (Some e, c1) \<Rightarrow> (Some (UBind e), None)
              | (None, c1) \<Rightarrow>
                  (None, Some (c1\<lparr>uc_drops := replicate nsock \<lparr>dc_last = 0, dc_total = 0\<rparr>,
                                  uc_sends := replicate nsock \<lparr>ss_packets = 0, ss_bytes = 0, ss_errors = 0\<rparr>,
                                  uc_readers := replicate (nat (uo_Readers o2))
                                    \<lparr>rs_recvPackets = 0, rs_recvBytes = 0, rs_truncated = 0, rs_recvErrors = 0\<rparr>\<rparr>))))"

section \<open>Reading\<close>

definition upd_reader :: "nat \<Rightarrow> (readerStats \<Rightarrow> readerStats) \<Rightarrow> udpConn \<Rightarrow> udpConn" where
  "upd_reader r f c = c\<lparr>uc_readers := (uc_readers c)[r := f (uc_readers c ! r)]\<rparr>"

definition readFailed :: "platform \<Rightarrow> nat \<Rightarrow> neterr \<Rightarrow> wake \<Rightarrow> i64 \<Rightarrow> udpConn \<Rightarrow> bool \<times> i64 \<times> udpConn" where
  "readFailed pl r err w delay c =
     (if err = NetClosed then (True, delay, c)
      else
        (case ClassifyRead pl err of
           Truncated \<Rightarrow> (False, delay, upd_reader r (rs_truncated_update Counter_Inc) c)
         | Transient \<Rightarrow>
             (let d = Backoff_Next delay
              in (\<not> Backoff_Wait d w, d, upd_reader r (rs_recvErrors_update Counter_Inc) c))
         | Fatal \<Rightarrow>
             (let c1 = upd_reader r (rs_recvErrors_update Counter_Inc) c;
                  c2 = (if uc_fatal c1 = None \<and> \<not> uc_closed c1 then c1\<lparr>uc_fatal := Some err\<rparr> else c1)
              in (True, delay, Conn_Close c2))))"

definition sys_DropCount :: "platform \<Rightarrow> byte list \<Rightarrow> u32 \<times> bool" where
  "sys_DropCount pl oob = (if pl = LinuxOS then DropCount oob else (0, False))"

definition observe_oob :: "platform \<Rightarrow> nat \<Rightarrow> byte list \<Rightarrow> udpConn \<Rightarrow> udpConn" where
  "observe_oob pl sock oob c =
     (if oob \<noteq> [] then
        (case sys_DropCount pl oob of
           (d, True) \<Rightarrow> c\<lparr>uc_drops := (uc_drops c)[sock := observe d (uc_drops c ! sock)]\<rparr>
         | (d, False) \<Rightarrow> c)
      else c)"

type_synonym 'h handler = "packet \<Rightarrow> udpConn \<times> 'h \<Rightarrow> udpConn \<times> 'h"

text \<open>A return of \<open>ReadMsgUDPAddrPort\<close>: an error, with what the backoff that may follow runs into, or a datagram.\<close>

datatype read_ev = RdErr neterr wake | RdMsg "byte list" "byte list" i32 addrport

text \<open>One turn of the loop of \<open>read\<close>.\<close>

definition read_one :: "platform \<Rightarrow> 'h handler \<Rightarrow> nat \<Rightarrow> nat \<Rightarrow> read_ev \<Rightarrow> i64 \<Rightarrow> udpConn \<times> 'h \<Rightarrow> bool \<times> i64 \<times> udpConn \<times> 'h" where
  "read_one pl hdl r sock ev backoff s =
     (case ev of
        RdErr err w \<Rightarrow> (let (stop, b, c) = readFailed pl r err w backoff (fst s) in (stop, b, c, snd s))
      | RdMsg data oob flags from \<Rightarrow>
          (let c1 = observe_oob pl sock oob (fst s)
           in if flags AND MsgTrunc pl \<noteq> 0 then (False, 0, upd_reader r (rs_truncated_update Counter_Inc) c1, snd s)
              else (let c2 = upd_reader r (rs_recvPackets_update Counter_Inc) c1;
                        c3 = upd_reader r (rs_recvBytes_update (Counter_Add (of_nat (length data)))) c2;
                        p = \<lparr>pk_Data = data, pk_From = (Unmap (fst from), snd from), pk_Reader = int r\<rparr>
                    in (False, 0, hdl p (c3, snd s)))))"

fun udp_read_loop :: "platform \<Rightarrow> 'h handler \<Rightarrow> nat \<Rightarrow> nat \<Rightarrow> read_ev list \<Rightarrow> i64 \<Rightarrow> udpConn \<times> 'h \<Rightarrow> bool \<times> i64 \<times> udpConn \<times> 'h" where
  "udp_read_loop pl hdl r sock [] backoff s = (False, backoff, s)"
| "udp_read_loop pl hdl r sock (ev # evs) backoff s =
     (let (stop, b, s1) = read_one pl hdl r sock ev backoff s
      in if stop then (True, b, s1) else udp_read_loop pl hdl r sock evs b s1)"

text \<open>
  A \<open>Read\<close> of the batch reader: what the kernel answers during the call, or an error of the
  connection itself.
\<close>

datatype batch_ev = BtRead "kres list" wake | BtErr neterr wake

fun batch_msgs ::
    "platform \<Rightarrow> (u32 \<Rightarrow> string option) \<Rightarrow> 'h handler \<Rightarrow> nat \<Rightarrow> nat \<Rightarrow> nat list \<Rightarrow> breader \<Rightarrow> udpConn \<times> 'h \<Rightarrow> breader \<times> udpConn \<times> 'h" where
  "batch_msgs pl ifs hdl r sock [] br s = (br, s)"
| "batch_msgs pl ifs hdl r sock (i # is) br s =
     (let ((size, oob, flags, from), br1) = BatchReader_Message ifs i br;
          c1 = observe_oob pl sock oob (fst s)
      in if flags AND MsgTrunc pl \<noteq> 0
         then batch_msgs pl ifs hdl r sock is br1 (upd_reader r (rs_truncated_update Counter_Inc) c1, snd s)
         else (let c2 = upd_reader r (rs_recvPackets_update Counter_Inc) c1;
                   c3 = upd_reader r (rs_recvBytes_update (Counter_Add (of_nat size))) c2;
                   p = \<lparr>pk_Data = take size (br_bufs br ! i), pk_From = from, pk_Reader = int r\<rparr>
               in batch_msgs pl ifs hdl r sock is br1 (hdl p (c3, snd s))))"

fun batch_loop ::
    "platform \<Rightarrow> (u32 \<Rightarrow> string option) \<Rightarrow> 'h handler \<Rightarrow> nat \<Rightarrow> nat \<Rightarrow> batch_ev list \<Rightarrow> breader \<Rightarrow> i64 \<Rightarrow> udpConn \<times> 'h \<Rightarrow>
     bool \<times> i64 \<times> udpConn \<times> 'h" where
  "batch_loop pl ifs hdl r sock [] br backoff s = (False, backoff, s)"
| "batch_loop pl ifs hdl r sock (BtErr err w # evs) br backoff s =
     (let (stop, b, c) = readFailed pl r err w backoff (fst s)
      in if stop then (True, b, c, snd s) else batch_loop pl ifs hdl r sock evs br b (c, snd s))"
| "batch_loop pl ifs hdl r sock (BtRead script w # evs) br backoff s =
     (case BatchReader_Read scripted poller br script of
        None \<Rightarrow> (False, backoff, s)
      | Some (Inl err, br1, k) \<Rightarrow>
          (let (stop, b, c) = readFailed pl r err w backoff (fst s)
           in if stop then (True, b, c, snd s) else batch_loop pl ifs hdl r sock evs br1 b (c, snd s))
      | Some (Inr n, br1, k) \<Rightarrow>
          (let (br2, s1) = batch_msgs pl ifs hdl r sock [0..<nat n] br1 s in batch_loop pl ifs hdl r sock evs br2 0 s1))"

text \<open>\<open>raw\<close>: the error of \<open>SyscallConn\<close>, if it fails.\<close>

definition readBatch ::
    "platform \<Rightarrow> (u32 \<Rightarrow> string option) \<Rightarrow> 'h handler \<Rightarrow> nat \<Rightarrow> nat \<Rightarrow> neterr option \<times> wake \<Rightarrow> batch_ev list \<Rightarrow> udpConn \<times> 'h \<Rightarrow>
     bool \<times> i64 \<times> udpConn \<times> 'h" where
  "readBatch pl ifs hdl r sock raw evs s =
     (case raw of
        (Some err, w) \<Rightarrow> (let (stop, b, c) = readFailed pl r err w 0 (fst s) in (True, b, c, snd s))
      | (None, w) \<Rightarrow>
          (case NewBatchReader (replicate (nat (uc_batch (fst s))) (replicate (nat (uc_max (fst s))) 0)) (OOBSize pl) of
             Ret br u \<Rightarrow> batch_loop pl ifs hdl r sock evs br 0 s
           | Panic m u \<Rightarrow> (True, 0, s)))"

section \<open>Serve, Shutdown, writing and statistics\<close>

definition Serve_begin :: "udpConn \<Rightarrow> uerr option \<times> udpConn" where
  "Serve_begin c =
     (if uc_closed c then (Some ErrClosed, c)
      else if uc_serving c then (Some (UMsg ''udp: Serve called more than once''), c)
      else (None, c\<lparr>uc_serving := True\<rparr>))"

definition Serve_end :: "udpConn \<Rightarrow> neterr option" where
  "Serve_end c = uc_fatal c"

definition reader_sock :: "nat \<Rightarrow> udpConn \<Rightarrow> nat" where
  "reader_sock i c = i mod length (uc_socks c)"

text \<open>\<open>Shutdown\<close>: \<open>doneFirst\<close> is which channel the \<open>select\<close> received from, \<open>ctxErr\<close> the context's error.\<close>

definition Conn_Shutdown :: "bool \<Rightarrow> string \<Rightarrow> udpConn \<Rightarrow> uerr option \<times> udpConn" where
  "Conn_Shutdown doneFirst ctxErr c =
     (let c1 = Conn_Close c
      in if \<not> uc_serving c1 then (None, c1) else if doneFirst then (None, c1) else (Some (UCtx ctxErr), c1))"

text \<open>\<open>res\<close> is the result of \<open>WriteToUDPAddrPort\<close>.\<close>

definition upd_send :: "nat \<Rightarrow> (sendStats \<Rightarrow> sendStats) \<Rightarrow> udpConn \<Rightarrow> udpConn" where
  "upd_send i f c = c\<lparr>uc_sends := (uc_sends c)[i := f (uc_sends c ! i)]\<rparr>"

definition Conn_write :: "nat \<Rightarrow> byte list \<Rightarrow> int \<times> neterr option \<Rightarrow> udpConn \<Rightarrow> uerr option \<times> udpConn" where
  "Conn_write sock b res c =
     (if int (length b) > MaxDatagram then (Some ErrTooLarge, c)
      else (case snd res of
              Some err \<Rightarrow>
                (let c1 = upd_send sock (ss_errors_update Counter_Inc) c
                 in if err = NetClosed then (Some ErrClosed, c1) else (Some (UNet err), c1))
            | None \<Rightarrow>
                (None, upd_send sock (ss_bytes_update (Counter_Add (of_int (fst res)))) (upd_send sock (ss_packets_update Counter_Inc) c))))"

definition WriteTo_sock :: "addrport \<Rightarrow> udpConn \<Rightarrow> nat" where
  "WriteTo_sock to c = unat (snd to) mod length (uc_socks c)"

definition Conn_WriteTo :: "byte list \<Rightarrow> addrport \<Rightarrow> int \<times> neterr option \<Rightarrow> udpConn \<Rightarrow> uerr option \<times> udpConn" where
  "Conn_WriteTo b to res c = Conn_write (WriteTo_sock to c) b res c"

definition Conn_Reply :: "packet option \<Rightarrow> byte list \<Rightarrow> int \<times> neterr option \<Rightarrow> udpConn \<Rightarrow> uerr option \<times> udpConn" where
  "Conn_Reply p b res c =
     (case p of
        None \<Rightarrow> (Some ErrNilPacket, c)
      | Some q \<Rightarrow>
          (if pk_Reader q < 0 \<or> pk_Reader q \<ge> int (length (uc_readers c)) then Conn_WriteTo b (pk_From q) res c
           else Conn_write (nat (pk_Reader q) mod length (uc_socks c)) b res c))"

definition Conn_Stats :: "udpConn \<Rightarrow> udpStats" where
  "Conn_Stats c =
     \<lparr>us_RecvPackets = (\<Sum>r \<leftarrow> uc_readers c. rs_recvPackets r), us_RecvBytes = (\<Sum>r \<leftarrow> uc_readers c. rs_recvBytes r),
      us_SendPackets = (\<Sum>w \<leftarrow> uc_sends c. ss_packets w), us_SendBytes = (\<Sum>w \<leftarrow> uc_sends c. ss_bytes w),
      us_Truncated = (\<Sum>r \<leftarrow> uc_readers c. rs_truncated r), us_RecvErrors = (\<Sum>r \<leftarrow> uc_readers c. rs_recvErrors r),
      us_SendErrors = (\<Sum>w \<leftarrow> uc_sends c. ss_errors w), us_KernelDrops = (\<Sum>d \<leftarrow> take (length (uc_sends c)) (uc_drops c). dc_total d),
      us_KernelDropsEnabled = uc_dropsOn c\<rparr>"

section \<open>Batches\<close>

lemma read_loop_append:
  "udp_read_loop pl hdl r sock (xs @ ys) b s =
     (let (stop, b1, s1) = udp_read_loop pl hdl r sock xs b s in if stop then (True, b1, s1) else udp_read_loop pl hdl r sock ys b1 s1)"
  by (induction xs arbitrary: b s) (auto simp: case_prod_beta Let_def)

text \<open>The read that returns the datagram of a slot.\<close>

definition slot_ev :: "(u32 \<Rightarrow> string option) \<Rightarrow> kslot \<Rightarrow> read_ev" where
  "slot_ev ifs s = RdMsg (ks_data s) (ks_control s) (ks_flags s) (net_addr ifs (ks_name s))"

text \<open>One batch as the reads it replaces.\<close>

fun singles :: "(u32 \<Rightarrow> string option) \<Rightarrow> batch_ev \<Rightarrow> read_ev list" where
  "singles ifs (BtErr err w) = [RdErr err w]"
| "singles ifs (BtRead script w) =
     (case last script of KGot ss \<Rightarrow> map (slot_ev ifs) ss | KErr e \<Rightarrow> [RdErr (SysErr e) w])"

text \<open>What the kernel may do during one call: delay it, then deliver some datagrams that fit, or fail.\<close>

definition batch_ok :: "nat \<Rightarrow> nat \<Rightarrow> nat \<Rightarrow> batch_ev \<Rightarrow> bool" where
  "batch_ok batch sz oobSize ev =
     (case ev of
        BtErr err w \<Rightarrow> True
      | BtRead script w \<Rightarrow>
          (script \<noteq> [] \<and> set (butlast script) \<subseteq> {KErr EINTR, KErr EAGAIN} \<and>
           (case last script of
              KErr e \<Rightarrow> e \<noteq> EINTR \<and> e \<noteq> EAGAIN
            | KGot ss \<Rightarrow> ss \<noteq> [] \<and> length ss \<le> batch \<and> (\<forall>s \<in> set ss. length (ks_data s) \<le> sz \<and> length (ks_control s) \<le> oobSize))))"

definition reader_for :: "(u32 \<Rightarrow> string option) \<Rightarrow> nat \<Rightarrow> nat \<Rightarrow> nat \<Rightarrow> breader \<Rightarrow> bool" where
  "reader_for ifs batch sz oobSize r \<longleftrightarrow> breader_ok r \<and> zones_ok ifs (br_zones r) \<and> length (br_msgs r) = batch \<and>
     br_oobSize r = oobSize \<and> (\<forall>j < batch. length (br_bufs r ! j) = sz)"

lemma reader_for_same: "reader_for ifs batch sz o1 r \<Longrightarrow> same_reader ifs r r' \<Longrightarrow> reader_for ifs batch sz o1 r'"
  by (simp add: reader_for_def same_reader_def)

lemma batch_msgs_singles:
  assumes "reader_for ifs batch sz o1 br" and "\<And>j. j < length ss \<Longrightarrow> slot_holds br j (ss ! j)"
    and "\<And>s. s \<in> set ss \<Longrightarrow> length (ks_control s) \<le> o1" and "set is \<subseteq> {..<length ss}"
  shows "\<exists>br' s'. batch_msgs pl ifs hdl r sock is br s = (br', s') \<and> reader_for ifs batch sz o1 br' \<and>
    udp_read_loop pl hdl r sock (map (\<lambda>i. slot_ev ifs (ss ! i)) is) b s = (False, if is = [] then b else 0, s')"
  using assms
proof (induction "is" arbitrary: br b s)
  case (Cons i "is")
  let ?s = "ss ! i"
  have i: "i < length ss" using Cons.prems(4) by simp
  have z: "zones_ok ifs (br_zones br)" and c: "length (ks_control ?s) \<le> br_oobSize br"
    using Cons.prems(1,3) i by (simp_all add: reader_for_def)
  have data: "take (length (ks_data ?s)) (br_bufs br ! i) = ks_data ?s" using Cons.prems(2) [OF i] by (simp add: slot_holds_def)
  from Cons.prems(2) [OF i] c z show ?case
  proof (cases rule: Message_of_slot)
    case (1 z)
    let ?br = "br\<lparr>br_zones := z\<rparr>"
    have br: "reader_for ifs batch sz o1 ?br" "\<And>j. j < length ss \<Longrightarrow> slot_holds ?br j (ss ! j)"
      using Cons.prems(1,2) 1(1) by (simp_all add: reader_for_def)
    obtain s1 where one: "read_one pl hdl r sock (slot_ev ifs ?s) b s = (False, 0, s1)"
      and bm: "batch_msgs pl ifs hdl r sock (i # is) br s = batch_msgs pl ifs hdl r sock is ?br s1"
      by (cases "ks_flags ?s AND MsgTrunc pl \<noteq> 0") (simp_all add: 1(2) data slot_ev_def read_one_def Let_def)
    obtain br' s' where "batch_msgs pl ifs hdl r sock is ?br s1 = (br', s')" "reader_for ifs batch sz o1 br'"
      "udp_read_loop pl hdl r sock (map (\<lambda>i. slot_ev ifs (ss ! i)) is) 0 s1 = (False, if is = [] then 0 else 0, s')"
      using Cons.IH [OF br Cons.prems(3), where b = 0 and s = s1] Cons.prems(4) by auto
    then show ?thesis using one bm by simp
  qed
qed simp

lemma batch_loop_singles:
  assumes "reader_for ifs batch sz o1 br" and "\<forall>ev \<in> set evs. batch_ok batch sz o1 ev"
  shows "batch_loop pl ifs hdl r sock evs br b s = udp_read_loop pl hdl r sock (concat (map (singles ifs) evs)) b s"
  using assms
proof (induction evs arbitrary: br b s)
  case (Cons ev evs)
  have ok: "batch_ok batch sz o1 ev" and oks: "\<forall>ev \<in> set evs. batch_ok batch sz o1 ev" using Cons.prems(2) by simp_all
  have ro: "breader_ok br" "zones_ok ifs (br_zones br)" using Cons.prems(1) by (simp_all add: reader_for_def)
  note IH = Cons.IH [OF _ oks]
  show ?case
  proof (cases ev)
    case (BtErr err w)
    then show ?thesis using IH [OF Cons.prems(1)] by (simp add: read_one_def case_prod_beta Let_def)
  next
    case (BtRead script w)
    then have sc: "script = butlast script @ last script # []" and pre: "set (butlast script) \<subseteq> {KErr EINTR, KErr EAGAIN}"
      using ok by (simp_all add: batch_ok_def)
    show ?thesis
    proof (cases "last script")
      case (KErr e)
      then have e: "e \<noteq> EINTR" "e \<noteq> EAGAIN" using ok BtRead by (simp_all add: batch_ok_def)
      from Read_err [OF ro pre e, of "[]"] obtain br' where
        "BatchReader_Read scripted poller br script = Some (Inl (SysErr e), br', [])" "same_reader ifs br br'"
        using sc KErr by metis
      then show ?thesis using IH [OF reader_for_same [OF Cons.prems(1)]] BtRead KErr
        by (simp add: read_one_def case_prod_beta Let_def)
    next
      case (KGot ss)
      have ss: "ss \<noteq> []" "length ss \<le> batch" "\<And>s. s \<in> set ss \<Longrightarrow> length (ks_data s) \<le> sz \<and> length (ks_control s) \<le> o1"
        using ok BtRead KGot by (auto simp: batch_ok_def)
      have so: "length ss \<le> length (br_msgs br)" "\<forall>j < length ss. slot_ok br j (ss ! j)"
        using ss Cons.prems(1) by (auto simp: reader_for_def slot_ok_def)
      from Read_got [OF ro pre so, of "[]"] obtain br1 where
        br1: "BatchReader_Read scripted poller br script = Some (Inr (int (length ss)), br1, [])" "same_reader ifs br br1"
          "\<And>j. j < length ss \<Longrightarrow> slot_holds br1 j (ss ! j)"
        using sc KGot by metis
      have sub: "set [0..<length ss] \<subseteq> {..<length ss}" by auto
      obtain br2 s2 where bm: "batch_msgs pl ifs hdl r sock [0..<length ss] br1 s = (br2, s2)" "reader_for ifs batch sz o1 br2"
        "udp_read_loop pl hdl r sock (map (\<lambda>i. slot_ev ifs (ss ! i)) [0..<length ss]) b s = (False, 0, s2)"
        using batch_msgs_singles [OF reader_for_same [OF Cons.prems(1) br1(2)] br1(3) conjunct2 [OF ss(3)] sub, of pl hdl r sock s b] ss(1)
        by auto
      have "map (\<lambda>i. slot_ev ifs (ss ! i)) [0..<length ss] = map (slot_ev ifs) ss"
        by (rule nth_equalityI) simp_all
      then show ?thesis using br1(1) bm BtRead KGot IH [OF bm(2)] by (simp add: read_loop_append)
    qed
  qed
qed simp

section \<open>The drop counter\<close>

text \<open>What a finished \<open>observe\<close> adds to the total.\<close>

fun reported :: "(u32, i32 option) cas_pc \<Rightarrow> nat" where
  "reported (CDone (Some d)) = nat (sint d)"
| "reported p = 0"

lemma sint32_diff:
  assumes "- (2 ^ 31) \<le> int a - int b" and "int a - int b < 2 ^ 31"
  shows "sint (of_nat a - of_nat b :: i32) = int a - int b"
proof -
  have "of_nat a - of_nat b = (of_int (int a - int b) :: i32)" by simp
  moreover have "sint (of_int (int a - int b) :: i32) = int a - int b"
    using assms by (simp add: signed_of_int signed_take_bit_int_eq_self del: of_int_diff)
  ultimately show ?thesis by metis
qed

text \<open>\<open>lo\<close> bounds the reports from below: all of them lie within \<open>2\<^sup>3\<^sup>1\<close> of each other.\<close>

lemma observe_body_forward:
  assumes "lo \<le> a" "a < lo + 2 ^ 31" "lo \<le> m" "m < lo + 2 ^ 31"
  shows "cas_atomic (observe_body (of_nat a)) (of_nat m) =
    (if m < a then Some (of_nat a - of_nat m) else None, of_nat (max m a))"
    and "m < a \<Longrightarrow> nat (sint (of_nat a - of_nat m :: i32)) = a - m"
proof -
  have "sint (of_nat a - of_nat m :: i32) = int a - int m" using assms by (intro sint32_diff) simp_all
  then show "cas_atomic (observe_body (of_nat a)) (of_nat m) =
    (if m < a then Some (of_nat a - of_nat m) else None, of_nat (max m a))"
    and "m < a \<Longrightarrow> nat (sint (of_nat a - of_nat m :: i32)) = a - m"
    by (auto simp: cas_atomic_def observe_body_def Let_def max_def)
qed

lemma observe_run:
  assumes "\<And>i. lo \<le> t i \<and> t i < lo + 2 ^ 31" and "lo \<le> m" and "m < lo + 2 ^ 31"
  shows "snd (run_ops (\<lambda>i. cas_atomic (observe_body (of_nat (t i)))) order (of_nat m)) = of_nat (fold max (map t order) m)"
    and "(\<Sum>r \<leftarrow> fst (run_ops (\<lambda>i. cas_atomic (observe_body (of_nat (t i)))) order (of_nat m)). reported (CDone r)) =
      fold max (map t order) m - m" and "m \<le> fold max (map t order) m"
proof -
  have "snd (run_ops (\<lambda>i. cas_atomic (observe_body (of_nat (t i)))) order (of_nat m)) = of_nat (fold max (map t order) m) \<and>
    (\<Sum>r \<leftarrow> fst (run_ops (\<lambda>i. cas_atomic (observe_body (of_nat (t i)))) order (of_nat m)). reported (CDone r)) =
      fold max (map t order) m - m \<and> m \<le> fold max (map t order) m"
    using assms(2,3)
  proof (induction order arbitrary: m)
    case (Cons i order)
    note o = observe_body_forward [OF conjunct1 [OF assms(1)] conjunct2 [OF assms(1)] Cons.prems, of i]
    have "lo \<le> max m (t i)" "max m (t i) < lo + 2 ^ 31" using assms(1) [of i] Cons.prems by auto
    note IH = Cons.IH [OF this]
    have f: "fold max (map t (i # order)) m = fold max (map t order) (max m (t i))" by (simp add: max.commute)
    have "reported (CDone (if m < t i then Some (of_nat (t i) - of_nat m) else None)) = max m (t i) - m"
      using o(2) by (auto simp: max_def)
    then show ?case unfolding f using IH o(1) by (simp only: run_ops_Cons fst_conv snd_conv list.map sum_list.Cons) auto
  qed simp
  then show "snd (run_ops (\<lambda>i. cas_atomic (observe_body (of_nat (t i)))) order (of_nat m)) = of_nat (fold max (map t order) m)"
    and "(\<Sum>r \<leftarrow> fst (run_ops (\<lambda>i. cas_atomic (observe_body (of_nat (t i)))) order (of_nat m)). reported (CDone r)) =
      fold max (map t order) m - m" and "m \<le> fold max (map t order) m" by blast+
qed

lemma fold_max_Max: "fold max (map t order) m = Max (insert m (t ` set order))"
proof (induction order arbitrary: m)
  case (Cons i order)
  have "Max (insert (max m (t i)) (t ` set order)) = Max (insert m (insert (t i) (t ` set order)))"
    by (cases "order = []") (simp_all add: max.assoc max.left_commute)
  then show ?case using Cons [of "max m (t i)"] by (simp add: max.commute)
qed simp

section \<open>All readers\<close>

text \<open>
  \<open>Serve\<close> with its readers in any order of their reads, and calls of \<open>Close\<close> in between. A reader that
  stopped reads no more. \<open>sv_log\<close> records the reads that took place.
\<close>

datatype serve_ev = SvRead nat read_ev | SvClose

record 'h serving =
  sv_conn :: udpConn
  sv_h :: 'h
  sv_stopped :: "nat set"
  sv_backoff :: "nat \<Rightarrow> i64"
  sv_log :: "(nat \<times> read_ev) list"

definition serve_step :: "platform \<Rightarrow> 'h handler \<Rightarrow> serve_ev \<Rightarrow> 'h serving \<Rightarrow> 'h serving" where
  "serve_step pl hdl e s =
     (case e of
        SvClose \<Rightarrow> s\<lparr>sv_conn := Conn_Close (sv_conn s)\<rparr>
      | SvRead i ev \<Rightarrow>
          (if i \<in> sv_stopped s \<or> i \<ge> length (uc_readers (sv_conn s)) then s
           else (let (stop, b, c, h) = read_one pl hdl i (reader_sock i (sv_conn s)) ev (sv_backoff s i) (sv_conn s, sv_h s)
                 in s\<lparr>sv_conn := c, sv_h := h, sv_stopped := (if stop then insert i (sv_stopped s) else sv_stopped s),
                      sv_backoff := (sv_backoff s)(i := b), sv_log := sv_log s @ [(i, ev)]\<rparr>)))"

definition serve_run :: "platform \<Rightarrow> 'h handler \<Rightarrow> serve_ev list \<Rightarrow> 'h serving \<Rightarrow> 'h serving" where
  "serve_run pl hdl es s = fold (serve_step pl hdl) es s"

text \<open>A handler that records its packets and makes any calls of the connection's methods.\<close>

datatype conn_call = CallWriteTo "byte list" addrport "int \<times> neterr option" | CallReply "packet option" "byte list" "int \<times> neterr option"
  | CallClose | CallShutdown bool string

fun do_call :: "conn_call \<Rightarrow> udpConn \<Rightarrow> udpConn" where
  "do_call (CallWriteTo b to res) c = snd (Conn_WriteTo b to res c)"
| "do_call (CallReply p b res) c = snd (Conn_Reply p b res c)"
| "do_call CallClose c = Conn_Close c"
| "do_call (CallShutdown d e) c = snd (Conn_Shutdown d e c)"

definition logging :: "(packet \<Rightarrow> udpConn \<Rightarrow> conn_call list) \<Rightarrow> packet list handler" where
  "logging calls p s = (fold do_call (calls p (fst s)) (fst s), snd s @ [p])"

fun udp_delivered :: "platform \<Rightarrow> nat \<times> read_ev \<Rightarrow> packet list" where
  "udp_delivered pl (i, RdErr err w) = []"
| "udp_delivered pl (i, RdMsg data oob flags from) =
     (if flags AND MsgTrunc pl \<noteq> 0 then [] else [\<lparr>pk_Data = data, pk_From = (Unmap (fst from), snd from), pk_Reader = int i\<rparr>])"

fun is_truncated :: "platform \<Rightarrow> nat \<times> read_ev \<Rightarrow> bool" where
  "is_truncated pl (i, RdErr err w) = (err \<noteq> NetClosed \<and> ClassifyRead pl err = Truncated)"
| "is_truncated pl (i, RdMsg data oob flags from) = (flags AND MsgTrunc pl \<noteq> 0)"

fun is_error :: "platform \<Rightarrow> nat \<times> read_ev \<Rightarrow> bool" where
  "is_error pl (i, RdErr err w) = (err \<noteq> NetClosed \<and> ClassifyRead pl err \<noteq> Truncated)"
| "is_error pl (i, RdMsg data oob flags from) = False"

text \<open>The reads of one reader, counted.\<close>

definition stats_of :: "platform \<Rightarrow> nat \<Rightarrow> (nat \<times> read_ev) list \<Rightarrow> readerStats" where
  "stats_of pl i xs =
     (let log = filter (\<lambda>x. fst x = i) xs; ps = concat (map (udp_delivered pl) log)
      in \<lparr>rs_recvPackets = of_nat (length ps), rs_recvBytes = (\<Sum>p \<leftarrow> ps. of_nat (length (pk_Data p))),
          rs_truncated = of_nat (length (filter (is_truncated pl) log)), rs_recvErrors = of_nat (length (filter (is_error pl) log))\<rparr>)"

lemma stats_of_other: "j \<noteq> i \<Longrightarrow> stats_of pl j (xs @ [(i, ev)]) = stats_of pl j xs"
  by (simp add: stats_of_def)

lemma readers_simps [simp]:
  "uc_readers (observe_oob pl sock oob c) = uc_readers c" "uc_readers (Conn_Close c) = uc_readers c"
  "uc_readers (c\<lparr>uc_fatal := e\<rparr>) = uc_readers c"
  by (auto simp: observe_oob_def Conn_Close_def closeSockets_def split: prod.splits bool.splits)

definition closed_ok :: "udpConn \<Rightarrow> bool" where
  "closed_ok c \<longleftrightarrow> (uc_closed c \<longleftrightarrow> uc_closing c)"

lemma status_simps [simp]:
  "closed_ok (observe_oob pl sock oob c) = closed_ok c" "uc_fatal (observe_oob pl sock oob c) = uc_fatal c"
  "uc_closed (observe_oob pl sock oob c) = uc_closed c" "closed_ok (upd_reader r g c) = closed_ok c"
  "uc_fatal (upd_reader r g c) = uc_fatal c" "uc_closed (upd_reader r g c) = uc_closed c"
  "closed_ok c \<Longrightarrow> closed_ok (Conn_Close c)" "uc_fatal (Conn_Close c) = uc_fatal c" "closed_ok c \<Longrightarrow> uc_closed (Conn_Close c)"
  by (auto simp: observe_oob_def Conn_Close_def closeSockets_def closed_ok_def upd_reader_def split: prod.splits bool.splits)

lemma do_call_keeps:
  "uc_readers (do_call x c) = uc_readers c \<and> uc_fatal (do_call x c) = uc_fatal c \<and> (closed_ok c \<longrightarrow> closed_ok (do_call x c)) \<and>
   (closed_ok c \<and> uc_closed c \<longrightarrow> uc_closed (do_call x c))"
  by (cases x) (auto simp: Conn_WriteTo_def Conn_Reply_def Conn_write_def upd_send_def Let_def Conn_Shutdown_def Conn_Close_def
      closeSockets_def closed_ok_def split: option.splits)

lemma do_calls_keep:
  "uc_readers (fold do_call xs c) = uc_readers c \<and> uc_fatal (fold do_call xs c) = uc_fatal c \<and>
   (closed_ok c \<longrightarrow> closed_ok (fold do_call xs c)) \<and> (closed_ok c \<and> uc_closed c \<longrightarrow> uc_closed (fold do_call xs c))"
proof (induction xs arbitrary: c)
  case (Cons x xs)
  show ?case using Cons [of "do_call x c"] do_call_keeps [of x c] by auto
qed simp

text \<open>One read changes the counters of its reader as the log says.\<close>

definition bump :: "platform \<Rightarrow> nat \<times> read_ev \<Rightarrow> readerStats \<Rightarrow> readerStats" where
  "bump pl x r =
     \<lparr>rs_recvPackets = rs_recvPackets r + of_nat (length (udp_delivered pl x)),
      rs_recvBytes = rs_recvBytes r + (\<Sum>p \<leftarrow> udp_delivered pl x. of_nat (length (pk_Data p))),
      rs_truncated = rs_truncated r + (if is_truncated pl x then 1 else 0),
      rs_recvErrors = rs_recvErrors r + (if is_error pl x then 1 else 0)\<rparr>"

lemma stats_of_snoc: "stats_of pl i (xs @ [(i, ev)]) = bump pl (i, ev) (stats_of pl i xs)"
  by (simp add: stats_of_def bump_def Let_def)

lemma bump_cases:
  "bump pl (i, RdErr NetClosed w) r = r"
  "err \<noteq> NetClosed \<Longrightarrow> ClassifyRead pl err = Truncated \<Longrightarrow> bump pl (i, RdErr err w) r = rs_truncated_update Counter_Inc r"
  "err \<noteq> NetClosed \<Longrightarrow> ClassifyRead pl err \<noteq> Truncated \<Longrightarrow> bump pl (i, RdErr err w) r = rs_recvErrors_update Counter_Inc r"
  "flags AND MsgTrunc pl \<noteq> 0 \<Longrightarrow> bump pl (i, RdMsg data oob flags from) r = rs_truncated_update Counter_Inc r"
  "\<not> flags AND MsgTrunc pl \<noteq> 0 \<Longrightarrow> bump pl (i, RdMsg data oob flags from) r =
     rs_recvBytes_update (Counter_Add (of_nat (length data))) (rs_recvPackets_update Counter_Inc r)"
  by (cases r; simp add: bump_def Counter_Inc_def Counter_Add_def)+

lemma readFailed_cases:
  assumes "readFailed pl i err w b c = (stop, b', c')"
  obtains (closed_net) "err = NetClosed" "stop" "c' = c"
  | (truncated) "err \<noteq> NetClosed" "ClassifyRead pl err = Truncated" "\<not> stop" "c' = upd_reader i (rs_truncated_update Counter_Inc) c"
  | (transient) "err \<noteq> NetClosed" "ClassifyRead pl err = Transient" "c' = upd_reader i (rs_recvErrors_update Counter_Inc) c"
  | (fatal) "err \<noteq> NetClosed" "ClassifyRead pl err = Fatal" "stop"
      "c' = Conn_Close (if uc_fatal c = None \<and> \<not> uc_closed c then (upd_reader i (rs_recvErrors_update Counter_Inc) c)\<lparr>uc_fatal := Some err\<rparr>
                        else upd_reader i (rs_recvErrors_update Counter_Inc) c)"
  using assms by (cases "err = NetClosed"; cases "ClassifyRead pl err") (simp_all add: readFailed_def Let_def)

lemma read_one_stats:
  assumes "read_one pl (logging calls) i sock ev b (c, h) = (stop, b', c', h')" and "i < length (uc_readers c)"
  shows "uc_readers c' = (uc_readers c)[i := bump pl (i, ev) (uc_readers c ! i)] \<and> h' = h @ udp_delivered pl (i, ev)"
proof (cases ev)
  case (RdErr err w)
  then have rf: "readFailed pl i err w b c = (stop, b', c')" and h: "h' = h" using assms(1) by (auto simp: read_one_def split: prod.splits)
  from rf show ?thesis
  proof (cases rule: readFailed_cases)
    case closed_net
    then show ?thesis using RdErr h by (simp add: bump_cases)
  next
    case truncated
    then show ?thesis using RdErr h by (simp add: bump_cases upd_reader_def)
  next
    case transient
    then show ?thesis using RdErr h by (simp add: bump_cases upd_reader_def)
  next
    case fatal
    then show ?thesis using RdErr h by (simp add: bump_cases upd_reader_def)
  qed
next
  case (RdMsg data oob flags frm)
  then show ?thesis using assms
    by (cases "flags AND MsgTrunc pl \<noteq> 0")
      (auto simp: read_one_def Let_def upd_reader_def bump_cases logging_def do_calls_keep)
qed

text \<open>A fatal error is remembered and closes the connection.\<close>

definition fatal_ok :: "platform \<Rightarrow> udpConn \<Rightarrow> (nat \<times> read_ev) list \<Rightarrow> bool" where
  "fatal_ok pl c log \<longleftrightarrow> closed_ok c \<and>
     (\<forall>e. uc_fatal c = Some e \<longrightarrow> uc_closed c \<and> (\<exists>i w. (i, RdErr e w) \<in> set log \<and> e \<noteq> NetClosed \<and> ClassifyRead pl e = Fatal))"

lemma fatal_ok_mono: "fatal_ok pl c xs \<Longrightarrow> closed_ok c' \<Longrightarrow> uc_fatal c' = uc_fatal c \<Longrightarrow> (uc_closed c \<longrightarrow> uc_closed c') \<Longrightarrow>
    set xs \<subseteq> set ys \<Longrightarrow> fatal_ok pl c' ys"
  unfolding fatal_ok_def by (metis subset_iff)

lemma Conn_Close_closed: "uc_closed c \<Longrightarrow> uc_closed (Conn_Close c)"
  by (simp add: Conn_Close_def closeSockets_def)

lemma read_one_fatal:
  assumes "read_one pl (logging calls) i sock ev b (c, h) = (stop, b', c', h')" and f: "fatal_ok pl c xs"
  shows "fatal_ok pl c' (xs @ [(i, ev)])"
proof (cases ev)
  case (RdErr err w)
  then have rf: "readFailed pl i err w b c = (stop, b', c')" using assms(1) by (auto simp: read_one_def split: prod.splits)
  have co: "closed_ok c" using f by (simp add: fatal_ok_def)
  from rf show ?thesis
  proof (cases rule: readFailed_cases)
    case fatal
    show ?thesis
    proof (cases "uc_fatal c = None \<and> \<not> uc_closed c")
      case True
      have "closed_ok ((upd_reader i (rs_recvErrors_update Counter_Inc) c)\<lparr>uc_fatal := Some err\<rparr>)"
        using co by (simp add: closed_ok_def upd_reader_def)
      then show ?thesis using True fatal RdErr by (auto simp: fatal_ok_def)
    next
      case False
      have "c' = Conn_Close (upd_reader i (rs_recvErrors_update Counter_Inc) c)" using fatal(4) unfolding if_not_P [OF False] .
      then show ?thesis using co by (intro fatal_ok_mono [OF f]) (auto simp: Conn_Close_closed)
    qed
  qed (use co in \<open>auto intro!: fatal_ok_mono [OF f]\<close>)
next
  case (RdMsg data oob flags frm)
  have co: "closed_ok c" using f by (simp add: fatal_ok_def)
  then have "closed_ok c' \<and> uc_fatal c' = uc_fatal c \<and> (uc_closed c \<longrightarrow> uc_closed c')"
    using RdMsg assms(1) by (cases "flags AND MsgTrunc pl \<noteq> 0") (auto simp: read_one_def Let_def logging_def do_calls_keep)
  then show ?thesis by (intro fatal_ok_mono [OF f]) auto
qed

definition serve_inv :: "platform \<Rightarrow> nat \<Rightarrow> packet list serving \<Rightarrow> bool" where
  "serve_inv pl n s \<longleftrightarrow> uc_readers (sv_conn s) = map (\<lambda>i. stats_of pl i (sv_log s)) [0..<n] \<and>
     sv_h s = concat (map (udp_delivered pl) (sv_log s)) \<and> (\<forall>x \<in> set (sv_log s). fst x < n) \<and> fatal_ok pl (sv_conn s) (sv_log s)"

lemma serve_step_inv:
  assumes inv: "serve_inv pl n s"
  shows "serve_inv pl n (serve_step pl (logging calls) e s)"
proof (cases e)
  case SvClose
  have "fatal_ok pl (Conn_Close (sv_conn s)) (sv_log s)"
    by (rule fatal_ok_mono [of pl "sv_conn s" "sv_log s"]) (use inv in \<open>simp_all add: serve_inv_def fatal_ok_def Conn_Close_closed\<close>)
  then show ?thesis using inv SvClose by (simp add: serve_step_def serve_inv_def)
next
  case (SvRead i ev)
  show ?thesis
  proof (cases "i \<in> sv_stopped s \<or> i \<ge> length (uc_readers (sv_conn s))")
    case False
    obtain stop b c h where r: "read_one pl (logging calls) i (reader_sock i (sv_conn s)) ev (sv_backoff s i) (sv_conn s, sv_h s) = (stop, b, c, h)"
      by (rule prod_cases4)
    have i: "i < length (uc_readers (sv_conn s))" and n: "i < n" using False inv by (simp_all add: serve_inv_def)
    have rd: "uc_readers (sv_conn s) = map (\<lambda>i. stats_of pl i (sv_log s)) [0..<n]" using inv by (simp add: serve_inv_def)
    have "uc_readers c = map (\<lambda>j. stats_of pl j (sv_log s @ [(i, ev)])) [0..<n]"
    proof (rule nth_equalityI)
      fix j assume "j < length (uc_readers c)"
      then have j: "j < n" using read_one_stats [OF r i] rd by simp
      show "uc_readers c ! j = map (\<lambda>j. stats_of pl j (sv_log s @ [(i, ev)])) [0..<n] ! j"
        using read_one_stats [OF r i] j n rd
        by (cases "j = i") (simp_all add: stats_of_snoc stats_of_other)
    qed (use read_one_stats [OF r i] rd in simp)
    moreover have "fatal_ok pl c (sv_log s @ [(i, ev)])"
      using inv by (intro read_one_fatal [OF r]) (simp add: serve_inv_def)
    moreover have "h = concat (map (udp_delivered pl) (sv_log s @ [(i, ev)]))"
      using read_one_stats [OF r i] inv by (simp add: serve_inv_def)
    ultimately show ?thesis using False SvRead r inv n by (simp add: serve_step_def serve_inv_def)
  qed (use inv SvRead in \<open>simp add: serve_step_def\<close>)
qed

lemma serve_run_inv: "serve_inv pl n s \<Longrightarrow> serve_inv pl n (serve_run pl (logging calls) es s)"
  unfolding serve_run_def by (induction es arbitrary: s) (simp_all add: serve_step_inv)

text \<open>Summing over the readers puts the log together again.\<close>

lemma sum_readers:
  assumes "\<forall>x \<in> set xs. fst x < n" and "\<And>i. g i [] = 0" and "\<And>i x xs. g i (x # xs) = (if fst x = i then w x else 0) + g i xs"
  shows "(\<Sum>i \<leftarrow> [0..<n]. g i xs) = (\<Sum>x \<leftarrow> xs. w x :: 'a :: comm_monoid_add)"
  using assms(1)
proof (induction xs)
  case Nil
  have "(\<Sum>i \<leftarrow> [0..<n]. g i []) = (\<Sum>i \<in> {0..<n}. 0)" by (simp add: assms(2) interv_sum_list_conv_sum_set_nat)
  then show ?case by simp
next
  case (Cons x xs)
  have "(\<Sum>i \<leftarrow> [0..<n]. g i (x # xs)) = (\<Sum>i \<in> {0..<n}. if fst x = i then w x else 0) + (\<Sum>i \<leftarrow> [0..<n]. g i xs)"
    by (simp add: assms(3) interv_sum_list_conv_sum_set_nat sum.distrib)
  also have "(\<Sum>i \<in> {0..<n}. if fst x = i then w x else 0) = w x" using Cons.prems by simp
  finally show ?case using Cons by simp
qed

lemma Stats_of_log:
  assumes "serve_inv pl n s"
  shows "us_RecvPackets (Conn_Stats (sv_conn s)) = of_nat (length (sv_h s))"
    and "us_RecvBytes (Conn_Stats (sv_conn s)) = (\<Sum>p \<leftarrow> sv_h s. of_nat (length (pk_Data p)))"
    and "us_Truncated (Conn_Stats (sv_conn s)) = of_nat (length (filter (is_truncated pl) (sv_log s)))"
    and "us_RecvErrors (Conn_Stats (sv_conn s)) = of_nat (length (filter (is_error pl) (sv_log s)))"
proof -
  have rd: "uc_readers (sv_conn s) = map (\<lambda>i. stats_of pl i (sv_log s)) [0..<n]"
    and h: "sv_h s = concat (map (udp_delivered pl) (sv_log s))" and n: "\<forall>x \<in> set (sv_log s). fst x < n"
    using assms by (simp_all add: serve_inv_def)
  have cnt: "(\<Sum>x \<leftarrow> xs. if P x then 1 else 0 :: u64) = of_nat (length (filter P xs))" for P :: "nat \<times> read_ev \<Rightarrow> bool" and xs
    by (induction xs) auto
  have len: "(\<Sum>x \<leftarrow> xs. of_nat (length (udp_delivered pl x)) :: u64) = of_nat (length (concat (map (udp_delivered pl) xs)))" for xs
    by (induction xs) auto
  have bytes: "(\<Sum>x \<leftarrow> xs. \<Sum>p \<leftarrow> udp_delivered pl x. of_nat (length (pk_Data p)) :: u64) =
    (\<Sum>p \<leftarrow> concat (map (udp_delivered pl) xs). of_nat (length (pk_Data p)))" for xs by (induction xs) auto
  note s = sum_readers [OF n]
  show "us_RecvPackets (Conn_Stats (sv_conn s)) = of_nat (length (sv_h s))"
    using s [of "\<lambda>i xs. rs_recvPackets (stats_of pl i xs)" "\<lambda>x. of_nat (length (udp_delivered pl x))"]
    by (simp add: Conn_Stats_def rd h comp_def len stats_of_def Let_def)
  show "us_RecvBytes (Conn_Stats (sv_conn s)) = (\<Sum>p \<leftarrow> sv_h s. of_nat (length (pk_Data p)))"
    using s [of "\<lambda>i xs. rs_recvBytes (stats_of pl i xs)" "\<lambda>x. \<Sum>p \<leftarrow> udp_delivered pl x. of_nat (length (pk_Data p))"]
    by (simp add: Conn_Stats_def rd h comp_def bytes stats_of_def Let_def)
  show "us_Truncated (Conn_Stats (sv_conn s)) = of_nat (length (filter (is_truncated pl) (sv_log s)))"
    using s [of "\<lambda>i xs. rs_truncated (stats_of pl i xs)" "\<lambda>x. if is_truncated pl x then 1 else 0"]
    by (simp add: Conn_Stats_def rd comp_def cnt stats_of_def Let_def)
  show "us_RecvErrors (Conn_Stats (sv_conn s)) = of_nat (length (filter (is_error pl) (sv_log s)))"
    using s [of "\<lambda>i xs. rs_recvErrors (stats_of pl i xs)" "\<lambda>x. if is_error pl x then 1 else 0"]
    by (simp add: Conn_Stats_def rd comp_def cnt stats_of_def Let_def)
qed

subsection \<open>A new connection\<close>

lemma Listen_loop_result:
  "Listen_loop bind dropOK is address c = (None, c') \<Longrightarrow>
     length (uc_socks c') = length (uc_socks c) + length is \<and> uc_max c' = uc_max c \<and> uc_batch c' = uc_batch c \<and>
     uc_closed c' = uc_closed c \<and> uc_closing c' = uc_closing c \<and> uc_fatal c' = uc_fatal c"
  by (induction "is" arbitrary: address c) (auto simp: Let_def split: sum.splits)

lemma Listen_options_bounds:
  assumes "Listen_options pl nh o1 = Inr (o2, nsock)"
  shows "1 \<le> uo_Batch o2" "uo_Batch o2 \<le> 1024" "1 \<le> uo_MaxPacket o2" "uo_MaxPacket o2 \<le> 65000" "1 \<le> uo_Readers o2"
    "0 < nsock" "int nsock \<le> uo_Readers o2" "\<not> BatchSupported pl \<Longrightarrow> uo_Batch o2 = 1"
proof -
  have v: "\<not> nh" "0 \<le> uo_Readers o1" "0 \<le> uo_MaxPacket o1" "uo_MaxPacket o1 \<le> 65000" "0 \<le> uo_Batch o1" "uo_Batch o1 \<le> 1024"
    using assms by (auto simp: Listen_options_def split: if_splits)
  have d: "1 \<le> DefaultBatch pl" "DefaultBatch pl \<le> 1024" by (simp_all add: DefaultBatch_def)
  show "1 \<le> uo_Batch o2" "uo_Batch o2 \<le> 1024" "1 \<le> uo_MaxPacket o2" "uo_MaxPacket o2 \<le> 65000" "1 \<le> uo_Readers o2"
    "0 < nsock" "int nsock \<le> uo_Readers o2" "\<not> BatchSupported pl \<Longrightarrow> uo_Batch o2 = 1"
    using assms v d by (auto simp: Listen_options_def Let_def split: if_splits)
qed

lemma Listen_result:
  assumes "Listen pl nh o1 address bind dropOK = (None, Some c)"
  obtains n where "uc_readers c = replicate n \<lparr>rs_recvPackets = 0, rs_recvBytes = 0, rs_truncated = 0, rs_recvErrors = 0\<rparr>" "0 < n"
    "closed_ok c" "uc_fatal c = None" "uc_socks c \<noteq> []" "1 \<le> uc_batch c" "uc_batch c \<le> 1024" "1 \<le> uc_max c" "uc_max c \<le> 65000"
proof -
  obtain o2 nsock where o: "Listen_options pl nh o1 = Inr (o2, nsock)"
    using assms by (auto simp: Listen_def split: sum.splits)
  let ?c = "\<lparr>uc_socks = [], uc_drops = [], uc_sends = [], uc_readers = [], uc_max = uo_MaxPacket o2, uc_batch = uo_Batch o2,
    uc_local = '''', uc_serving = False, uc_closed = False, uc_fatal = None, uc_closing = False, uc_dropsOn = True\<rparr>"
  obtain c1 where l: "Listen_loop bind dropOK [0..<nsock] address ?c = (None, c1)"
    and c: "c = c1\<lparr>uc_drops := replicate nsock \<lparr>dc_last = 0, dc_total = 0\<rparr>,
      uc_sends := replicate nsock \<lparr>ss_packets = 0, ss_bytes = 0, ss_errors = 0\<rparr>,
      uc_readers := replicate (nat (uo_Readers o2)) \<lparr>rs_recvPackets = 0, rs_recvBytes = 0, rs_truncated = 0, rs_recvErrors = 0\<rparr>\<rparr>"
    using assms o by (auto simp: Listen_def Let_def split: prod.splits option.splits)
  note b = Listen_options_bounds [OF o]
  have "length (uc_socks c1) = nsock" using Listen_loop_result [OF l] by simp
  then have "uc_socks c \<noteq> []" using b(6) c by auto
  then show thesis using that [of "nat (uo_Readers o2)"] Listen_loop_result [OF l] b c by (simp add: closed_ok_def)
qed

definition serve_start :: "udpConn \<Rightarrow> packet list serving" where
  "serve_start c = \<lparr>sv_conn = c, sv_h = [], sv_stopped = {}, sv_backoff = (\<lambda>i. 0), sv_log = []\<rparr>"

lemma serve_start_inv:
  assumes "uc_readers c = replicate n \<lparr>rs_recvPackets = 0, rs_recvBytes = 0, rs_truncated = 0, rs_recvErrors = 0\<rparr>"
    and "closed_ok c" and "uc_fatal c = None"
  shows "serve_inv pl n (serve_start c)"
proof -
  have "map (\<lambda>i. stats_of pl i []) [0..<n] = replicate n \<lparr>rs_recvPackets = 0, rs_recvBytes = 0, rs_truncated = 0, rs_recvErrors = 0\<rparr>"
    by (rule nth_equalityI) (simp_all add: stats_of_def Let_def)
  then show ?thesis using assms by (simp add: serve_inv_def serve_start_def fatal_ok_def)
qed

section \<open>Properties\<close>

text \<open>
  C8: Reading in batches changes nothing but the number of system calls: for every handler, every
  sequence of calls to \<open>recvmmsg\<close> (delayed by interruptions, delivering any number of datagrams that
  fit, or failing), a reader in \<open>readBatch\<close> ends in the same state, with the same handler calls,
  statistics, drop counts and backoff, as a reader in \<open>read\<close> that receives the same datagrams and
  errors one at a time.
\<close>

theorem batching_changes_nothing:
  assumes "1 \<le> uc_max c" and "uc_max c \<le> 65000"
    and "\<forall>ev \<in> set evs. batch_ok (nat (uc_batch c)) (nat (uc_max c)) (OOBSize pl) ev"
  shows "readBatch pl ifs hdl r sock (None, w) evs (c, h) = udp_read_loop pl hdl r sock (concat (map (singles ifs) evs)) 0 (c, h)"
proof -
  let ?bufs = "replicate (nat (uc_batch c)) (replicate (nat (uc_max c)) 0)"
  have "nat (uc_max c) < 4294967296" using assms(2) by (simp add: nat_less_iff)
  moreover have "[] \<notin> set ?bufs" using assms(1) by auto
  ultimately obtain br where br: "NewBatchReader ?bufs (OOBSize pl) = Ret br ()"
    and "reader_for ifs (nat (uc_batch c)) (nat (uc_max c)) (OOBSize pl) br"
    by (auto simp: NewBatchReader_def reader_for_def breader_ok_def zones_ok_def)
  from batch_loop_singles [OF this(2) assms(3)] show ?thesis using br by (simp add: readBatch_def)
qed

definition demo_conn :: udpConn where
  "demo_conn = \<lparr>uc_socks = [True], uc_drops = [\<lparr>dc_last = 0, dc_total = 0\<rparr>],
     uc_sends = [\<lparr>ss_packets = 0, ss_bytes = 0, ss_errors = 0\<rparr>],
     uc_readers = [\<lparr>rs_recvPackets = 0, rs_recvBytes = 0, rs_truncated = 0, rs_recvErrors = 0\<rparr>], uc_max = 4, uc_batch = 2,
     uc_local = '''', uc_serving = True, uc_closed = False, uc_fatal = None, uc_closing = False, uc_dropsOn = True\<rparr>"

definition demo_batch :: "batch_ev list" where
  "demo_batch = [BtRead [KErr EINTR, KGot [\<lparr>ks_data = [1, 2], ks_name = SaInet 0x3500 [10, 0, 0, 1], ks_control = [], ks_flags = 0\<rparr>,
      \<lparr>ks_data = [3, 4, 5, 6], ks_name = SaInet 0x3500 [10, 0, 0, 2], ks_control = [], ks_flags = 0x20\<rparr>]] TimerFires]"

theorem batching_changes_nothing_witness:
  "uc_readers (fst (snd (snd (readBatch LinuxOS (\<lambda>i. None) (logging (\<lambda>p c. [])) 0 0 (None, TimerFires) demo_batch (demo_conn, []))))) =
     [\<lparr>rs_recvPackets = 1, rs_recvBytes = 2, rs_truncated = 1, rs_recvErrors = 0\<rparr>]"
proof -
  have ok: "\<forall>ev \<in> set demo_batch. batch_ok (nat (uc_batch demo_conn)) (nat (uc_max demo_conn)) (OOBSize LinuxOS) ev"
    by (simp add: demo_batch_def demo_conn_def batch_ok_def OOBSize_def)
  have "readBatch LinuxOS (\<lambda>i. None) (logging (\<lambda>p c. [])) 0 0 (None, TimerFires) demo_batch (demo_conn, []) =
    udp_read_loop LinuxOS (logging (\<lambda>p c. [])) 0 0 (concat (map (singles (\<lambda>i. None)) demo_batch)) 0 (demo_conn, [])"
    using batching_changes_nothing [OF _ _ ok] by (simp add: demo_conn_def)
  then show ?thesis
    by (simp add: demo_batch_def slot_ev_def read_one_def observe_oob_def MsgTrunc_def upd_reader_def logging_def demo_conn_def
        Counter_Inc_def Counter_Add_def Let_def)
qed

text \<open>
  C23: Readers that share a socket report the kernel's 32-bit drop count concurrently and out of
  order. As long as the true counts lie within \<open>2\<^sup>3\<^sup>1\<close> of each other, under every interleaving of
  \<open>observe\<close> the calls that returned have moved the counter from the true count \<open>m\<close> to the largest
  true count among them, and the amounts they add to the total sum up to exactly that difference:
  no drop is counted twice or lost, whether or not the 32-bit count wrapped in between.
\<close>

theorem drops_are_counted_once:
  assumes "\<forall>i. lo \<le> t i \<and> t i < lo + 2 ^ 31" and "lo \<le> m" and "m < lo + 2 ^ 31"
    and "s = cas_run (\<lambda>i. observe_body (of_nat (t i))) sched (of_nat m)" and "D = {i. \<exists>r. snd s i = CDone r}"
  shows "fst s = of_nat (Max (insert m (t ` D))) \<and> (\<Sum>i \<in> D. reported (snd s i)) = Max (insert m (t ` D)) - m"
proof -
  let ?fs = "\<lambda>i. observe_body (of_nat (t i))"
  obtain order where l: "linearized ?fs (of_nat m) order s" using cas_run_linearized [of ?fs sched "of_nat m"] assms(4) by blast
  let ?run = "run_ops (\<lambda>i. cas_atomic (?fs i)) order (of_nat m)"
  have d: "distinct order" and D: "set order = D" and v: "snd ?run = fst s"
    and r: "\<And>k. k < length order \<Longrightarrow> snd s (order ! k) = CDone (fst ?run ! k)"
    using l assms(5) by (auto simp: linearized_def)
  have "(\<Sum>i \<in> D. reported (snd s i)) = (\<Sum>i \<leftarrow> order. reported (snd s i))"
    using d D by (simp add: sum_list_distinct_conv_sum_set)
  also have "map (\<lambda>i. reported (snd s i)) order = map (\<lambda>r. reported (CDone r)) (fst ?run)"
    by (rule nth_equalityI) (simp_all add: r length_run_ops)
  finally have sum: "(\<Sum>i \<in> D. reported (snd s i)) = (\<Sum>r \<leftarrow> fst ?run. reported (CDone r))" .
  have w: "\<And>i. lo \<le> t i \<and> t i < lo + 2 ^ 31" using assms(1) by blast
  note o = observe_run [where t = t and m = m and lo = lo and order = order, OF w assms(2,3)]
  show ?thesis using o(1,2) v sum fold_max_Max [of t order m] D by simp
qed

text \<open>Two readers, across the wrap of the 32-bit count.\<close>

theorem drops_are_counted_once_witness:
  "\<exists>s. s = cas_run (\<lambda>i. observe_body (of_nat (if i = 0 then 4294967298 else 4294967299))) [0, 1, 1, 0, 0] (of_nat 4294967290) \<and>
     reported (snd s 0) + reported (snd s 1) = 9 \<and> fst s = 3"
proof -
  let ?t = "\<lambda>i :: nat. if i = 0 then 4294967298 else 4294967299 :: nat"
  let ?s = "cas_run (\<lambda>i. observe_body (of_nat (?t i))) [0, 1, 1, 0, 0] (of_nat 4294967290)"
  let ?D = "{i. \<exists>r. snd ?s i = CDone r}"
  have w: "\<forall>i. 4294967290 \<le> ?t i \<and> ?t i < 4294967290 + 2 ^ 31" by simp
  have D: "?D = {0, 1}"
    by (auto simp: cas_run_def cas_move_def observe_body_def Let_def split: if_splits)
  have "fst ?s = of_nat (Max (insert 4294967290 (?t ` ?D))) \<and> (\<Sum>i \<in> ?D. reported (snd ?s i)) = Max (insert 4294967290 (?t ` ?D)) - 4294967290"
    by (rule drops_are_counted_once [OF w _ _ refl refl]) simp_all
  then have "fst ?s = 3" "reported (snd ?s 0) + reported (snd ?s 1) = 9" unfolding D by simp_all
  then show ?thesis by blast
qed


definition demo_listen :: "uerr option \<times> udpConn option" where
  "demo_listen = Listen LinuxOS False \<lparr>uo_Readers = 2, uo_MaxPacket = 0, uo_Batch = 0, uo_Socket = zero_Options\<rparr> '':0''
     (\<lambda>i a. Inr ''127.0.0.1:5353'') (\<lambda>i. True)"

definition demo_reads :: "serve_ev list" where
  "demo_reads = [SvRead 1 (RdMsg [7] [] 0 (Addr0, 0)), SvRead 0 (RdErr NetClosed TimerFires), SvRead 0 (RdMsg [8] [] 0 (Addr0, 0))]"


end
