(* ===== verification/Tcp.thy ===== *)
theory Tcp
  imports Limit Socket
begin

unbundle bit_operations_syntax

text \<open>
  Package \<open>tcp\<close> (\<open>src/tcp/server.go\<close>, \<open>src/tcp/dialer.go\<close>): the stream transport.

  The server is modelled with every goroutine it has: the one in \<open>Serve\<close>, one per connection in
  \<open>serveConn\<close>, and any number of callers of \<open>Shutdown\<close> and \<open>Close\<close>. A step is one action on shared
  state (a locked region, an atomic operation, a call of a limiter, a channel operation), and a run
  is any sequence of steps, so every interleaving is covered. What \<open>Accept\<close> and the handlers do is
  chosen by the run. \<open>Admit\<close> is any limiter: its two operations are parameters.

  This theory holds the definitions; the invariants of their runs are in \<open>Tcp_Run\<close>.
\<close>

section \<open>Client addresses\<close>

text \<open>A \<open>net.Addr\<close>: a \<open>*net.TCPAddr\<close> with its \<open>IP\<close> slice, or another implementation.\<close>

datatype netaddr = TCPAddr "byte list" | OtherAddr string

definition AddrFromSlice :: "byte list \<Rightarrow> ipaddr \<times> bool" where
  "AddrFromSlice b =
     (if length b = 4 then (Addr4 b, True)
      else if length b = 16 then (Addr6 b '''', True)
      else (Addr0, False))"

definition mask_byte :: "nat \<Rightarrow> byte \<Rightarrow> byte" where
  "mask_byte k x = x AND NOT (mask (8 - k))"

fun mask_bytes :: "nat \<Rightarrow> byte list \<Rightarrow> byte list" where
  "mask_bytes n [] = []"
| "mask_bytes n (x # xs) = mask_byte (min 8 n) x # mask_bytes (n - 8) xs"

text \<open>\<open>netip.Addr.Prefix(b)\<close> followed by \<open>Prefix.Addr\<close>; \<open>None\<close> is its error.\<close>

definition Prefix_Addr :: "int \<Rightarrow> ipaddr \<Rightarrow> ipaddr option" where
  "Prefix_Addr b a =
     (case a of
        Addr0 \<Rightarrow> Some Addr0
      | Addr4 xs \<Rightarrow> (if b < 0 \<or> 32 < b then None else Some (Addr4 (mask_bytes (nat b) xs)))
      | Addr6 xs z \<Rightarrow> (if b < 0 \<or> 128 < b then None else Some (Addr6 (mask_bytes (nat b) xs) '''')))"

definition ipKey :: "netaddr \<Rightarrow> int \<Rightarrow> ipaddr \<times> bool" where
  "ipKey a v6bits =
     (case a of
        OtherAddr nm \<Rightarrow> (Addr0, False)
      | TCPAddr IP \<Rightarrow>
          (let (ip, ok) = AddrFromSlice IP
           in if \<not> ok then (Addr0, False)
              else (let ip = Unmap ip
                    in if Is6 ip \<and> v6bits < 128
                       then (case Prefix_Addr v6bits ip of None \<Rightarrow> (Addr0, False) | Some p \<Rightarrow> (p, True))
                       else (ip, True))))"

section \<open>Server\<close>

datatype terr = TErrClosed | TMsg string | TAccept string | TListen serr | TCtx string

record 'l tcpOptions =
  to_Admit :: "'l option"
  to_MaxConnsPerIP :: i64
  to_IPv6PrefixBits :: int
  to_Socket :: Options

record tcpStats =
  st_Accepted :: u64
  st_Rejected :: u64
  st_RejectedPerIP :: u64
  st_Active :: u64
  st_Closed :: u64
  st_AcceptErrors :: u64

text \<open>
  Where a connection is. Up to \<open>PSpawn\<close> the accept loop is about to consult \<open>Admit\<close>, to track the
  connection, to count it as accepted, as active, and to start its goroutine. From \<open>PHandler\<close> on that
  goroutine is in the handler, about to close the connection, to release its slots, to untrack it,
  to lower \<open>active\<close>, to raise \<open>closed\<close>, to call \<open>wg.Done\<close>, and finished. The last three phases are
  those of a connection refused by \<open>MaxConnsPerIP\<close>, by \<open>Admit\<close>, and because the server has stopped.
\<close>

datatype phase = PAdmit | PTrack | PCount | PActive | PSpawn
  | PHandler | PClose | PRelease | PUntrack | PDec | PInc | PDone | PGone
  | PRejectedPerIP | PRejected | PRefused

record tcpConn =
  tc_addr :: netaddr
  tc_id :: u64
  tc_ipKey :: ipaddr
  tc_keyed :: bool
  tc_closed :: bool
  tc_phase :: phase

text \<open>
  Where \<open>Serve\<close> is: not called yet, in \<open>Accept\<close>, in \<open>backoff.Wait\<close>, before \<open>stopAccept\<close> after a permanent
  error, at work on the connection at an index of \<open>ts_heap\<close>, before \<open>abortAll\<close>, in \<open>wg.Wait\<close>, returned.
\<close>

datatype servepc = NotServing | Accepting | Backoff | Failed string | Admitting nat
  | Aborting terr | Draining "terr option" | Returned "terr option"

text \<open>
  \<open>ts_heap\<close> holds every \<open>Conn\<close> ever allocated; its indices are the pointers in \<open>ts_conns\<close>. \<open>ts_ctxDone\<close>
  says that the handler context is cancelled, \<open>ts_draining\<close> and \<open>ts_lnClosed\<close> that the channel and the
  listener are closed, \<open>ts_delay\<close> is the local of \<open>acceptLoop\<close>.
\<close>

record 'l tcpServer =
  ts_admit :: "'l option"
  ts_perIP :: "ipaddr perkey option"
  ts_v6bits :: int
  ts_accepted :: u64
  ts_rejected :: u64
  ts_rejectedPerIP :: u64
  ts_active :: u64
  ts_closed :: u64
  ts_acceptErrors :: u64
  ts_lastConnID :: u64
  ts_serving :: bool
  ts_stopped :: bool
  ts_lnClosed :: bool
  ts_draining :: bool
  ts_ctxDone :: bool
  ts_conns :: "nat set"
  ts_wg :: nat
  ts_delay :: i64
  ts_serve :: servepc
  ts_heap :: "tcpConn list"

text \<open>\<open>lastID\<close> is the value of the process-wide \<open>lastConnID\<close>.\<close>

definition Tcp_NewServer :: "bool \<Rightarrow> bool \<Rightarrow> 'l tcpOptions \<Rightarrow> u64 \<Rightarrow> terr + 'l tcpServer" where
  "Tcp_NewServer nilLn nilHandler opts lastID =
     (if nilLn \<or> nilHandler then Inl (TMsg ''tcp: nil listener or handler'')
      else if sint (to_MaxConnsPerIP opts) < 0 then Inl (TMsg ''tcp: MaxConnsPerIP must not be negative'')
      else if to_IPv6PrefixBits opts < 0 \<or> 128 < to_IPv6PrefixBits opts
        then Inl (TMsg ''tcp: IPv6PrefixBits must be within 0..128'')
      else
        (let s = \<lparr>ts_admit = to_Admit opts, ts_perIP = None, ts_v6bits = 0, ts_accepted = 0, ts_rejected = 0,
                  ts_rejectedPerIP = 0, ts_active = 0, ts_closed = 0, ts_acceptErrors = 0, ts_lastConnID = lastID,
                  ts_serving = False, ts_stopped = False, ts_lnClosed = False, ts_draining = False,
                  ts_ctxDone = False, ts_conns = {}, ts_wg = 0, ts_delay = 0, ts_serve = NotServing, ts_heap = []\<rparr>
         in if 0 < sint (to_MaxConnsPerIP opts)
            then (case NewPerKey (to_MaxConnsPerIP opts) of
                    Ret p u \<Rightarrow> Inr (s\<lparr>ts_perIP := Some p,
                                     ts_v6bits := (if to_IPv6PrefixBits opts = 0 then 64 else to_IPv6PrefixBits opts)\<rparr>)
                  | Panic m u \<Rightarrow> Inl (TMsg m))
            else Inr s))"

text \<open>
  \<open>listen\<close> is \<open>net.ListenConfig.Listen\<close>: its error, or a listener. The second result says that the
  listener was opened and closed again.
\<close>

definition Tcp_Listen ::
    "goos \<Rightarrow> 'k sockops \<Rightarrow> ('k listenConfig \<Rightarrow> string \<Rightarrow> string \<Rightarrow> serr option) \<Rightarrow> string \<Rightarrow> string \<Rightarrow> bool
      \<Rightarrow> 'l tcpOptions \<Rightarrow> u64 \<Rightarrow> (terr + 'l tcpServer) \<times> bool" where
  "Tcp_Listen os ops listen network address nilHandler opts lastID =
     (let lc = ListenConfig os ops (to_Socket opts)
      in case listen lc network address of
           Some e \<Rightarrow> (Inl (TListen e), False)
         | None \<Rightarrow>
             (case Tcp_NewServer False nilHandler opts lastID of
                Inl e \<Rightarrow> (Inl e, True)
              | Inr s \<Rightarrow> (Inr s, False)))"

definition Tcp_Stats :: "'l tcpServer \<Rightarrow> tcpStats" where
  "Tcp_Stats s =
     \<lparr>st_Accepted = Counter_Load (ts_accepted s), st_Rejected = Counter_Load (ts_rejected s),
      st_RejectedPerIP = Counter_Load (ts_rejectedPerIP s), st_Active = Counter_Load (ts_active s),
      st_Closed = Counter_Load (ts_closed s), st_AcceptErrors = Counter_Load (ts_acceptErrors s)\<rparr>"

section \<open>Connections\<close>

definition upd_conn :: "nat \<Rightarrow> (tcpConn \<Rightarrow> tcpConn) \<Rightarrow> 'l tcpServer \<Rightarrow> 'l tcpServer" where
  "upd_conn i f s = s\<lparr>ts_heap := (ts_heap s)[i := f (ts_heap s ! i)]\<rparr>"

definition at_phase :: "nat \<Rightarrow> phase \<Rightarrow> 'l tcpServer \<Rightarrow> 'l tcpServer" where
  "at_phase i p = upd_conn i (\<lambda>c. c\<lparr>tc_phase := p\<rparr>)"

definition netConn_Close :: "nat \<Rightarrow> 'l tcpServer \<Rightarrow> 'l tcpServer" where
  "netConn_Close i = upd_conn i (\<lambda>c. c\<lparr>tc_closed := True\<rparr>)"

definition releasePerIP :: "nat \<Rightarrow> 'l tcpServer \<Rightarrow> (unit, 'l tcpServer) res" where
  "releasePerIP i s =
     (if tc_keyed (ts_heap s ! i)
      then (let s1 = upd_conn i (\<lambda>c. c\<lparr>tc_keyed := False\<rparr>) s
            in case ts_perIP s1 of
                 None \<Rightarrow> Panic nil_deref s1
               | Some p \<Rightarrow>
                   (case PerKey_Release (tc_ipKey (ts_heap s ! i)) p of
                      Ret u p' \<Rightarrow> Ret () (s1\<lparr>ts_perIP := Some p'\<rparr>)
                    | Panic m p' \<Rightarrow> Panic m (s1\<lparr>ts_perIP := Some p'\<rparr>)))
      else Ret () s)"

definition tcp_release :: "('l \<Rightarrow> (unit, 'l) res) \<Rightarrow> nat \<Rightarrow> 'l tcpServer \<Rightarrow> (unit, 'l tcpServer) res" where
  "tcp_release rel i s =
     (case ts_admit s of
        None \<Rightarrow> releasePerIP i s
      | Some l \<Rightarrow>
          (case rel l of
             Panic m l' \<Rightarrow> Panic m (s\<lparr>ts_admit := Some l'\<rparr>)
           | Ret u l' \<Rightarrow> releasePerIP i (s\<lparr>ts_admit := Some l'\<rparr>)))"

definition track :: "nat \<Rightarrow> 'l tcpServer \<Rightarrow> bool \<times> 'l tcpServer" where
  "track i s = (if ts_stopped s then (False, s) else (True, s\<lparr>ts_conns := insert i (ts_conns s)\<rparr>))"

text \<open>\<open>untrack\<close> has three effects, which other goroutines can see one by one.\<close>

definition untrack_conns :: "nat \<Rightarrow> 'l tcpServer \<Rightarrow> 'l tcpServer" where
  "untrack_conns i s = s\<lparr>ts_conns := ts_conns s - {i}\<rparr>"

definition untrack_active :: "'l tcpServer \<Rightarrow> 'l tcpServer" where
  "untrack_active s = s\<lparr>ts_active := Counter_Dec (ts_active s)\<rparr>"

definition untrack_closed :: "'l tcpServer \<Rightarrow> 'l tcpServer" where
  "untrack_closed s = s\<lparr>ts_closed := Counter_Inc (ts_closed s)\<rparr>"

definition wg_Done :: "'l tcpServer \<Rightarrow> (unit, 'l tcpServer) res" where
  "wg_Done s =
     (if ts_wg s = 0 then Panic ''sync: negative WaitGroup counter'' s else Ret () (s\<lparr>ts_wg := ts_wg s - 1\<rparr>))"

text \<open>
  The next action of the goroutine in \<open>serveConn\<close>: the handler returns, then the deferred calls run
  in reverse order. A connection without such a goroutine has no next action.
\<close>

definition serveConn :: "('l \<Rightarrow> (unit, 'l) res) \<Rightarrow> nat \<Rightarrow> 'l tcpServer \<Rightarrow> (unit, 'l tcpServer) res" where
  "serveConn rel i s =
     (case tc_phase (ts_heap s ! i) of
        PHandler \<Rightarrow> Ret () (at_phase i PClose s)
      | PClose \<Rightarrow> Ret () (at_phase i PRelease (netConn_Close i s))
      | PRelease \<Rightarrow> tcp_release rel i (at_phase i PUntrack s)
      | PUntrack \<Rightarrow> Ret () (at_phase i PDec (untrack_conns i s))
      | PDec \<Rightarrow> Ret () (at_phase i PInc (untrack_active s))
      | PInc \<Rightarrow> Ret () (at_phase i PDone (untrack_closed s))
      | PDone \<Rightarrow> wg_Done (at_phase i PGone s)
      | _ \<Rightarrow> Ret () s)"

section \<open>Stopping\<close>

text \<open>\<open>stopOnce\<close> has run exactly when \<open>stopped\<close> is set.\<close>

definition stopAccept :: "'l tcpServer \<Rightarrow> 'l tcpServer" where
  "stopAccept s =
     (if ts_stopped s then s else s\<lparr>ts_stopped := True, ts_lnClosed := True, ts_draining := True\<rparr>)"

definition close_conns :: "nat set \<Rightarrow> tcpConn list \<Rightarrow> tcpConn list" where
  "close_conns cs h = map (\<lambda>i. if i \<in> cs then (h ! i)\<lparr>tc_closed := True\<rparr> else h ! i) [0..<length h]"

definition abortAll :: "'l tcpServer \<Rightarrow> 'l tcpServer" where
  "abortAll s = s\<lparr>ts_ctxDone := True, ts_heap := close_conns (ts_conns s) (ts_heap s)\<rparr>"

definition Tcp_Close :: "'l tcpServer \<Rightarrow> 'l tcpServer" where
  "Tcp_Close s = abortAll (stopAccept s)"

text \<open>
  \<open>Shutdown\<close>: first it stops accepting, and returns if nothing is served; then it waits for one of
  the channels, with the argument \<open>Some e\<close> when its context ended with \<open>e\<close>.
\<close>

definition Tcp_Shutdown_begin :: "'l tcpServer \<Rightarrow> bool \<times> 'l tcpServer" where
  "Tcp_Shutdown_begin s = (let s1 = stopAccept s in (\<not> ts_serving s1, s1))"

definition Tcp_Shutdown_wait :: "string option \<Rightarrow> 'l tcpServer \<Rightarrow> terr option \<times> 'l tcpServer" where
  "Tcp_Shutdown_wait ctx s = (case ctx of None \<Rightarrow> (None, s) | Some e \<Rightarrow> (Some (TCtx e), abortAll s))"

section \<open>Serve\<close>

text \<open>The call of \<open>Serve\<close>: its error, or the accept loop begins.\<close>

definition Tcp_Serve_begin :: "'l tcpServer \<Rightarrow> terr option \<times> 'l tcpServer" where
  "Tcp_Serve_begin s =
     (if ts_stopped s then (Some TErrClosed, s)
      else if ts_serving s then (Some (TMsg ''tcp: Serve called more than once''), s)
      else (None, s\<lparr>ts_serving := True, ts_ctxDone := False, ts_delay := 0, ts_serve := Accepting\<rparr>))"

text \<open>\<open>Accept\<close> failed, with an error that is temporary or not.\<close>

definition accept_error :: "string \<Rightarrow> bool \<Rightarrow> 'l tcpServer \<Rightarrow> 'l tcpServer" where
  "accept_error e temp s =
     (if ts_stopped s then s\<lparr>ts_serve := Draining None\<rparr>
      else if temp
      then s\<lparr>ts_acceptErrors := Counter_Inc (ts_acceptErrors s), ts_delay := Backoff_Next (ts_delay s),
             ts_serve := Backoff\<rparr>
      else s\<lparr>ts_serve := Failed e\<rparr>)"

definition accept_wait :: "wake \<Rightarrow> 'l tcpServer \<Rightarrow> 'l tcpServer" where
  "accept_wait w s = s\<lparr>ts_serve := (if \<not> Backoff_Wait (ts_delay s) w then Draining None else Accepting)\<rparr>"

text \<open>\<open>Accept\<close> returned a connection; the per-address limit is asked.\<close>

definition accept_conn :: "netaddr \<Rightarrow> 'l tcpServer \<Rightarrow> 'l tcpServer" where
  "accept_conn a s =
     (let i = length (ts_heap s);
          c = \<lparr>tc_addr = a, tc_id = 0, tc_ipKey = Addr0, tc_keyed = False, tc_closed = False, tc_phase = PAdmit\<rparr>;
          s0 = s\<lparr>ts_delay := 0\<rparr>
      in case ts_perIP s0 of
           None \<Rightarrow> s0\<lparr>ts_heap := ts_heap s0 @ [c], ts_serve := Admitting i\<rparr>
         | Some p \<Rightarrow>
             (let (k, keyed) = ipKey a (ts_v6bits s0); c1 = c\<lparr>tc_ipKey := k, tc_keyed := keyed\<rparr>
              in if keyed
                 then (let (ok, p') = PerKey_TryAcquire k p; s1 = s0\<lparr>ts_perIP := Some p'\<rparr>
                       in if \<not> ok
                          then s1\<lparr>ts_heap := ts_heap s1 @ [c1\<lparr>tc_keyed := False, tc_closed := True, tc_phase := PRejectedPerIP\<rparr>],
                                  ts_rejectedPerIP := Counter_Inc (ts_rejectedPerIP s1)\<rparr>
                          else s1\<lparr>ts_heap := ts_heap s1 @ [c1], ts_serve := Admitting i\<rparr>)
                 else s0\<lparr>ts_heap := ts_heap s0 @ [c1], ts_serve := Admitting i\<rparr>))"

text \<open>The next action of the accept loop on the connection it admits.\<close>

definition accept_admit ::
    "('l \<Rightarrow> bool \<times> 'l) \<Rightarrow> nat \<Rightarrow> 'l tcpServer \<Rightarrow> (unit, 'l tcpServer) res" where
  "accept_admit acq i s =
     (let (ok, s1) = (case ts_admit s of
                        None \<Rightarrow> (True, s)
                      | Some l \<Rightarrow> (let (ok, l') = acq l in (ok, s\<lparr>ts_admit := Some l'\<rparr>)))
      in if \<not> ok
         then (case releasePerIP i s1 of
                 Panic m s2 \<Rightarrow> Panic m s2
               | Ret u s2 \<Rightarrow>
                   Ret () (at_phase i PRejected (netConn_Close i
                     (s2\<lparr>ts_rejected := Counter_Inc (ts_rejected s2), ts_serve := Accepting\<rparr>))))
         else (let s2 = s1\<lparr>ts_lastConnID := ts_lastConnID s1 + 1\<rparr>
               in Ret () (at_phase i PTrack (upd_conn i (\<lambda>c. c\<lparr>tc_id := ts_lastConnID s2\<rparr>) s2))))"

definition accept_track ::
    "('l \<Rightarrow> (unit, 'l) res) \<Rightarrow> nat \<Rightarrow> 'l tcpServer \<Rightarrow> (unit, 'l tcpServer) res" where
  "accept_track rel i s =
     (let (ok, s1) = track i s
      in if \<not> ok
         then (case tcp_release rel i s1 of
                 Panic m s2 \<Rightarrow> Panic m s2
               | Ret u s2 \<Rightarrow> Ret () (at_phase i PRefused (netConn_Close i (s2\<lparr>ts_serve := Draining None\<rparr>))))
         else Ret () (at_phase i PCount s1))"

definition acceptLoop ::
    "('l \<Rightarrow> bool \<times> 'l) \<Rightarrow> ('l \<Rightarrow> (unit, 'l) res) \<Rightarrow> nat \<Rightarrow> 'l tcpServer \<Rightarrow> (unit, 'l tcpServer) res" where
  "acceptLoop acq rel i s =
     (case tc_phase (ts_heap s ! i) of
        PAdmit \<Rightarrow> accept_admit acq i s
      | PTrack \<Rightarrow> accept_track rel i s
      | PCount \<Rightarrow> Ret () (at_phase i PActive (s\<lparr>ts_accepted := Counter_Inc (ts_accepted s)\<rparr>))
      | PActive \<Rightarrow> Ret () (at_phase i PSpawn (s\<lparr>ts_active := Counter_Inc (ts_active s)\<rparr>))
      | PSpawn \<Rightarrow> Ret () (at_phase i PHandler (s\<lparr>ts_wg := ts_wg s + 1, ts_serve := Accepting\<rparr>))
      | _ \<Rightarrow> Ret () s)"

text \<open>
  The next action of the goroutine in \<open>Serve\<close> where it does not depend on \<open>Accept\<close> or a timer. In
  \<open>wg.Wait\<close> it blocks until the count is zero; \<open>Returned\<close> is after \<open>close(s.done)\<close>.
\<close>

definition Tcp_Serve ::
    "('l \<Rightarrow> bool \<times> 'l) \<Rightarrow> ('l \<Rightarrow> (unit, 'l) res) \<Rightarrow> 'l tcpServer \<Rightarrow> (unit, 'l tcpServer) res" where
  "Tcp_Serve acq rel s =
     (case ts_serve s of
        Admitting i \<Rightarrow> acceptLoop acq rel i s
      | Failed e \<Rightarrow> Ret () ((stopAccept s)\<lparr>ts_serve := Aborting (TAccept e)\<rparr>)
      | Aborting e \<Rightarrow> Ret () ((abortAll s)\<lparr>ts_serve := Draining (Some e)\<rparr>)
      | Draining r \<Rightarrow> Ret () (if ts_wg s = 0 then s\<lparr>ts_ctxDone := True, ts_serve := Returned r\<rparr> else s)
      | _ \<Rightarrow> Ret () s)"

text \<open>
  One step of the process. A step that its goroutine cannot take changes nothing: \<open>Accept\<close> returns
  only to the accept loop, the \<open>select\<close> in \<open>backoff.Wait\<close> sees the draining channel only when it is
  closed, a handler closes its own connection, and \<open>abortAll\<close> is called after \<open>stopAccept\<close> has returned
  (in \<open>Close\<close>, and in \<open>Shutdown\<close> when its context ends; a cancelled context of \<open>Serve\<close> calls \<open>Close\<close>).
  \<open>EvOtherServer\<close> is a connection of another server of the process.
\<close>

datatype tcp_ev = EvServe | EvAccept netaddr | EvAcceptErr string bool | EvWait wake | EvLoop
  | EvConn nat | EvHandlerClose nat | EvStop | EvAbort string | EvOtherServer

definition tcp_do ::
    "('l \<Rightarrow> bool \<times> 'l) \<Rightarrow> ('l \<Rightarrow> (unit, 'l) res) \<Rightarrow> tcp_ev \<Rightarrow> 'l tcpServer \<Rightarrow> (unit, 'l tcpServer) res" where
  "tcp_do acq rel e s =
     (case e of
        EvServe \<Rightarrow> Ret () (snd (Tcp_Serve_begin s))
      | EvAccept a \<Rightarrow> Ret () (if ts_serve s = Accepting then accept_conn a s else s)
      | EvAcceptErr m temp \<Rightarrow> Ret () (if ts_serve s = Accepting then accept_error m temp s else s)
      | EvWait w \<Rightarrow> Ret () (if ts_serve s = Backoff \<and> (w = StopFires \<longrightarrow> ts_draining s) then accept_wait w s else s)
      | EvLoop \<Rightarrow> Tcp_Serve acq rel s
      | EvConn i \<Rightarrow> (if i < length (ts_heap s) then serveConn rel i s else Ret () s)
      | EvHandlerClose i \<Rightarrow>
          Ret () (if i < length (ts_heap s) \<and> tc_phase (ts_heap s ! i) = PHandler then netConn_Close i s else s)
      | EvStop \<Rightarrow> Ret () (snd (Tcp_Shutdown_begin s))
      | EvAbort m \<Rightarrow> Ret () (if ts_stopped s then snd (Tcp_Shutdown_wait (Some m) s) else s)
      | EvOtherServer \<Rightarrow> Ret () (s\<lparr>ts_lastConnID := ts_lastConnID s + 1\<rparr>))"

text \<open>The output of a step says whether it panicked.\<close>

definition tcp_step ::
    "('l \<Rightarrow> bool \<times> 'l) \<Rightarrow> ('l \<Rightarrow> (unit, 'l) res) \<Rightarrow> tcp_ev \<Rightarrow> 'l tcpServer \<Rightarrow> bool \<times> 'l tcpServer" where
  "tcp_step acq rel e s = (panics (tcp_do acq rel e s), res_state (tcp_do acq rel e s))"

section \<open>Dialer\<close>

record dialEvent =
  de_Network :: string
  de_Address :: string
  de_StartedAt :: int
  de_Duration :: int
  de_LocalAddr :: "netaddr option"
  de_RemoteAddr :: "netaddr option"
  de_Err :: "terr option"

text \<open>\<open>'h\<close> is the state on which the \<open>OnDial\<close> callback works.\<close>

record 'h dialOptions =
  do_Timeout :: int
  do_KeepAlive :: int
  do_Socket :: Options
  do_OnDial :: "(dialEvent \<Rightarrow> 'h \<Rightarrow> 'h) option"

record ('k, 'h) tcpDialer =
  td_Timeout :: int
  td_inner :: "'k netDialer"
  td_onDial :: "(dialEvent \<Rightarrow> 'h \<Rightarrow> 'h) option"

definition NewDialer :: "goos \<Rightarrow> 'k sockops \<Rightarrow> 'h dialOptions \<Rightarrow> ('k, 'h) tcpDialer" where
  "NewDialer os ops opts =
     (let base = \<lparr>nd_Control = None, nd_ControlContext = None, nd_KeepAlive = do_KeepAlive opts,
                  nd_KeepAliveConfig = zero_config\<rparr>
      in \<lparr>td_Timeout = do_Timeout opts, td_inner = Socket_Dialer os ops base (do_Socket opts), td_onDial = do_OnDial opts\<rparr>)"

text \<open>
  \<open>dial\<close> is \<open>net.Dialer.DialContext\<close>: the local and remote address of a connection if there is one, and
  the error if there is one. \<open>t0\<close> and \<open>t1\<close> are the clock before and after.
\<close>

definition DialContext ::
    "(int \<Rightarrow> 'k netDialer \<Rightarrow> string \<Rightarrow> string \<Rightarrow> (netaddr \<times> netaddr) option \<times> terr option) \<Rightarrow> int \<Rightarrow> int \<Rightarrow>
      ('k, 'h) tcpDialer \<Rightarrow> string \<Rightarrow> string \<Rightarrow> 'h \<Rightarrow> ((netaddr \<times> netaddr) option \<times> terr option) \<times> 'h" where
  "DialContext dial t0 t1 d network address h =
     (let (conn, err) = dial (td_Timeout d) (td_inner d) network address
      in case td_onDial d of
           None \<Rightarrow> ((conn, err), h)
         | Some f \<Rightarrow>
             (let ev = \<lparr>de_Network = network, de_Address = address, de_StartedAt = t0, de_Duration = t1 - t0,
                        de_LocalAddr = None, de_RemoteAddr = None, de_Err = err\<rparr>;
                  ev' = (case conn of None \<Rightarrow> ev | Some (la, ra) \<Rightarrow> ev\<lparr>de_LocalAddr := Some la, de_RemoteAddr := Some ra\<rparr>)
              in ((conn, err), f ev' h)))"

end
