(* ===== verification/Tcp_Key.thy ===== *)
theory Tcp_Key
  imports Tcp
begin

unbundle bit_operations_syntax

text \<open>
  The key under which \<open>MaxConnsPerIP\<close> counts a client (\<open>ipKey\<close> in \<open>src/tcp/server.go\<close>): which addresses
  share one.
\<close>

definition byte_bits :: "byte \<Rightarrow> bool list" where
  "byte_bits x = map (\<lambda>i. bit x (7 - i)) [0..<8]"

text \<open>The bits of an address, the most significant first.\<close>

definition addr_bits :: "byte list \<Rightarrow> bool list" where
  "addr_bits b = concat (map byte_bits b)"

definition mapped :: "byte list \<Rightarrow> bool" where
  "mapped b \<longleftrightarrow> take 12 b = replicate 10 0 @ [255, 255]"

lemma length_byte_bits [simp]: "length (byte_bits x) = 8"
  by (simp add: byte_bits_def)

lemma byte_eq_iff: "(x :: byte) = y \<longleftrightarrow> (\<forall>n < 8. bit x n = bit y n)"
  by (auto intro: bit_word_eqI)

lemma mask_byte_eq:
  assumes "k \<le> 8"
  shows "mask_byte k x = mask_byte k y \<longleftrightarrow> take k (byte_bits x) = take k (byte_bits y)"
proof -
  have "mask_byte k x = mask_byte k y \<longleftrightarrow> (\<forall>n < 8. 8 - k \<le> n \<longrightarrow> bit x n = bit y n)"
    by (auto simp: byte_eq_iff mask_byte_def bit_simps)
  also have "\<dots> \<longleftrightarrow> (\<forall>i < k. bit x (7 - i) = bit y (7 - i))"
  proof safe
    fix i assume all: "\<forall>n < 8. 8 - k \<le> n \<longrightarrow> bit x n = bit y n" and "i < k"
    then have "bit x (7 - i) = bit y (7 - i)" using assms by simp
    then show "bit x (7 - i) \<Longrightarrow> bit y (7 - i)" "bit y (7 - i) \<Longrightarrow> bit x (7 - i)" by simp_all
  next
    fix n :: nat assume all: "\<forall>i < k. bit x (7 - i) = bit y (7 - i)" and n: "n < 8" "8 - k \<le> n"
    have "7 - n < k" "7 - (7 - n) = n" using n assms by arith+
    with all have "bit x n = bit y n" by metis
    then show "bit x n \<Longrightarrow> bit y n" "bit y n \<Longrightarrow> bit x n" by simp_all
  qed
  also have "\<dots> \<longleftrightarrow> take k (byte_bits x) = take k (byte_bits y)"
    using assms by (auto simp: byte_bits_def list_eq_iff_nth_eq)
  finally show ?thesis .
qed

lemma mask_bytes_eq:
  "length a = length b \<Longrightarrow>
     mask_bytes n a = mask_bytes n b \<longleftrightarrow> take n (addr_bits a) = take n (addr_bits b)"
proof (induction a b arbitrary: n rule: list_induct2)
  case Nil
  then show ?case by simp
next
  case (Cons x xs y ys)
  have "take n (byte_bits x) = take (min 8 n) (byte_bits x)" "take n (byte_bits y) = take (min 8 n) (byte_bits y)"
    by (simp_all add: min_def)
  with Cons.IH [of "n - 8"] mask_byte_eq [of "min 8 n" x y] show ?case
    by (simp add: addr_bits_def)
qed

lemma ipKey_v4: "length a = 4 \<Longrightarrow> ipKey (TCPAddr a) v = (Addr4 a, True)"
  by (simp add: ipKey_def AddrFromSlice_def Unmap_def Is6_def)

lemma length_addr_bits [simp]: "length (addr_bits b) = 8 * length b"
  by (induction b) (simp_all add: addr_bits_def)

lemma ipKey_v6:
  assumes "length a = 16" and "\<not> mapped a" and "0 \<le> v" "v \<le> 128"
  shows "ipKey (TCPAddr a) v = (Addr6 (if v < 128 then mask_bytes (nat v) a else a) '''', True)"
  using assms by (simp add: ipKey_def AddrFromSlice_def Unmap_def Is4In6_def Is6_def Prefix_Addr_def mapped_def)

lemma addr_bits_inj:
  assumes "length a = length b" and "addr_bits a = addr_bits b"
  shows "a = b"
  using assms
proof (induction a b rule: list_induct2)
  case (Cons x xs y ys)
  have "x = y" if "byte_bits x = byte_bits y" using that mask_byte_eq [of 8 x y] by (simp add: mask_byte_def)
  with Cons show ?case by (simp add: addr_bits_def)
qed simp

text \<open>
  C28: For MaxConnsPerIP, IPv4 clients share a slot count exactly when their addresses are equal, also
  when one of them arrives as an IPv4-mapped IPv6 address; IPv6 clients share one exactly when their
  first v6bits bits agree; an IPv4 and an IPv6 client never share one; and addresses that are not TCP
  addresses or have no valid IP have no key.
\<close>

theorem ipKey_groups_clients:
  assumes "0 \<le> v6bits" and "v6bits \<le> 128" and "length a4 = 4" and "length b4 = 4"
    and "length a6 = 16" and "length b6 = 16" and "\<not> mapped a6" and "\<not> mapped b6"
    and "length bad \<notin> {4, 16}"
  shows "(ipKey (TCPAddr a4) v6bits = ipKey (TCPAddr b4) v6bits \<longleftrightarrow> a4 = b4) \<and>
    ipKey (TCPAddr (replicate 10 0 @ [255, 255] @ a4)) v6bits = ipKey (TCPAddr a4) v6bits \<and>
    (ipKey (TCPAddr a6) v6bits = ipKey (TCPAddr b6) v6bits \<longleftrightarrow>
       take (nat v6bits) (addr_bits a6) = take (nat v6bits) (addr_bits b6)) \<and>
    fst (ipKey (TCPAddr a4) v6bits) \<noteq> fst (ipKey (TCPAddr a6) v6bits) \<and>
    snd (ipKey (TCPAddr a4) v6bits) \<and> snd (ipKey (TCPAddr a6) v6bits) \<and>
    \<not> snd (ipKey (TCPAddr bad) v6bits) \<and> \<not> snd (ipKey (OtherAddr nm) v6bits)"
proof -
  have "ipKey (TCPAddr (replicate 10 0 @ [255, 255] @ a4)) v6bits = (Addr4 a4, True)"
    using assms(3) by (simp add: ipKey_def AddrFromSlice_def Unmap_def Is4In6_def Is6_def)
  moreover have "ipKey (TCPAddr a6) v6bits = ipKey (TCPAddr b6) v6bits \<longleftrightarrow>
      take (nat v6bits) (addr_bits a6) = take (nat v6bits) (addr_bits b6)"
    using assms mask_bytes_eq [of a6 b6 "nat v6bits"] addr_bits_inj [of a6 b6] by (auto simp: ipKey_v6)
  moreover have "\<not> snd (ipKey (TCPAddr bad) v6bits)" "\<not> snd (ipKey (OtherAddr nm) v6bits)"
    using assms(9) by (simp_all add: ipKey_def AddrFromSlice_def)
  ultimately show ?thesis using assms by (simp add: ipKey_v4 ipKey_v6)
qed

definition demo_v6 :: "byte \<Rightarrow> byte \<Rightarrow> byte list" where
  "demo_v6 subnet host = [32, 1, 13, 184, 0, 0, 0, subnet, 0, 0, 0, 0, 0, 0, 0, host]"

theorem ipKey_groups_clients_witness:
  "ipKey (TCPAddr (demo_v6 1 1)) 64 = ipKey (TCPAddr (demo_v6 1 2)) 64 \<and>
   ipKey (TCPAddr (replicate 10 0 @ [255, 255] @ [10, 0, 0, 1])) 64 = ipKey (TCPAddr [10, 0, 0, 1]) 64 \<and>
   \<not> snd (ipKey (TCPAddr [10]) 64)"
proof -
  have "\<not> mapped (demo_v6 1 h)" for h by (simp add: mapped_def demo_v6_def)
  then show ?thesis
    using ipKey_groups_clients [of 64 "[10, 0, 0, 1]" "[10, 0, 0, 2]" "demo_v6 1 1" "demo_v6 1 2" "[10]" "''x''"]
    by (simp add: demo_v6_def addr_bits_def)
qed

end
