(* ===== verification/Tcp_Run.thy ===== *)
theory Tcp_Run
  imports Tcp
begin

unbundle bit_operations_syntax

text \<open>
  The runs of the server of \<open>Tcp\<close>, for every interleaving of its goroutines: admission slots are held
  by exactly the connections between their admission and their release; the statistics count the
  connections by where they are; \<open>Serve\<close> returns only when every connection is closed and gone; and
  a server that has stopped can always finish.
\<close>

section \<open>Where the connections are\<close>

definition phases :: "'l tcpServer \<Rightarrow> phase list" where "phases s = map tc_phase (ts_heap s)"
definition closeds :: "'l tcpServer \<Rightarrow> bool list" where "closeds s = map tc_closed (ts_heap s)"

definition num_in :: "phase set \<Rightarrow> phase list \<Rightarrow> nat" where
  "num_in S ps = length (filter (\<lambda>p. p \<in> S) ps)"

definition accepting :: "phase set" where "accepting = {PAdmit, PTrack, PCount, PActive, PSpawn}"
definition admitted :: "phase set" where "admitted = {PTrack, PCount, PActive, PSpawn, PHandler, PClose, PRelease}"
definition tracked :: "phase set" where
  "tracked = {PCount, PActive, PSpawn, PHandler, PClose, PRelease, PUntrack}"
definition running :: "phase set" where
  "running = {PHandler, PClose, PRelease, PUntrack, PDec, PInc, PDone}"
definition was_accepted :: "phase set" where "was_accepted = insert PActive (insert PSpawn (insert PGone running))"
definition is_active :: "phase set" where "is_active = {PSpawn, PHandler, PClose, PRelease, PUntrack, PDec}"
definition is_closed :: "phase set" where "is_closed = {PDone, PGone}"
definition shut :: "phase set" where
  "shut = {PRelease, PUntrack, PDec, PInc, PDone, PGone, PRejectedPerIP, PRejected, PRefused}"

lemmas phase_sets = accepting_def admitted_def tracked_def running_def was_accepted_def is_active_def
  is_closed_def shut_def

lemma in_phases:
  "p \<in> accepting \<longleftrightarrow> p = PAdmit \<or> p = PTrack \<or> p = PCount \<or> p = PActive \<or> p = PSpawn"
  "p \<in> admitted \<longleftrightarrow>
     p = PTrack \<or> p = PCount \<or> p = PActive \<or> p = PSpawn \<or> p = PHandler \<or> p = PClose \<or> p = PRelease"
  "p \<in> tracked \<longleftrightarrow>
     p = PCount \<or> p = PActive \<or> p = PSpawn \<or> p = PHandler \<or> p = PClose \<or> p = PRelease \<or> p = PUntrack"
  "p \<in> running \<longleftrightarrow>
     p = PHandler \<or> p = PClose \<or> p = PRelease \<or> p = PUntrack \<or> p = PDec \<or> p = PInc \<or> p = PDone"
  "p \<in> was_accepted \<longleftrightarrow> p = PActive \<or> p = PSpawn \<or> p = PGone \<or> p \<in> running"
  "p \<in> is_active \<longleftrightarrow> p = PSpawn \<or> p = PHandler \<or> p = PClose \<or> p = PRelease \<or> p = PUntrack \<or> p = PDec"
  "p \<in> is_closed \<longleftrightarrow> p = PDone \<or> p = PGone"
  "p \<in> shut \<longleftrightarrow> p = PRelease \<or> p = PUntrack \<or> p = PDec \<or> p = PInc \<or> p = PDone \<or> p = PGone \<or>
     p = PRejectedPerIP \<or> p = PRejected \<or> p = PRefused"
  by (auto simp: phase_sets)

lemma num_in_Nil [simp]: "num_in S [] = 0"
  by (simp add: num_in_def)

lemma num_in_snoc [simp]: "num_in S (ps @ [p]) = num_in S ps + of_bool (p \<in> S)"
  by (simp add: num_in_def)

lemma length_filter_update:
  "i < length xs \<Longrightarrow>
     length (filter P (xs[i := x])) + of_bool (P (xs ! i)) = length (filter P xs) + of_bool (P x)"
proof (induction xs arbitrary: i)
  case Nil
  then show ?case by simp
next
  case (Cons y xs)
  then show ?case by (cases i) auto
qed

lemma num_in_update:
  "i < length ps \<Longrightarrow> num_in S (ps[i := p]) + of_bool (ps ! i \<in> S) = num_in S ps + of_bool (p \<in> S)"
  unfolding num_in_def by (rule length_filter_update)

lemma of_nat_num_in_update:
  assumes "i < length ps"
  shows "(of_nat (num_in S (ps[i := p])) :: u64) = of_nat (num_in S ps) + of_bool (p \<in> S) - of_bool (ps ! i \<in> S)"
proof -
  have "(of_nat (num_in S (ps[i := p]) + of_bool (ps ! i \<in> S)) :: u64) = of_nat (num_in S ps + of_bool (p \<in> S))"
    by (simp only: num_in_update [OF assms])
  then show ?thesis by (simp add: algebra_simps)
qed

lemma num_running_update:
  assumes "i < length ps"
  shows "num_in running (ps[i := p]) = num_in running ps + of_bool (p \<in> running) - of_bool (ps ! i \<in> running)"
  using num_in_update [OF assms, of running p] by simp

lemma num_in_pos: "i < length ps \<Longrightarrow> ps ! i \<in> S \<Longrightarrow> 0 < num_in S ps"
  by (auto simp: num_in_def filter_empty_conv intro: nth_mem)

lemma num_in_0: "num_in S ps = 0 \<longleftrightarrow> (\<forall>i < length ps. ps ! i \<notin> S)"
  by (auto simp: num_in_def filter_empty_conv all_set_conv_all_nth)

text \<open>What the operations change of the phases and of the closed connections.\<close>

lemma length_closeds [simp]: "length (closeds s) = length (ts_heap s)" "length (phases s) = length (ts_heap s)"
  by (simp_all add: closeds_def phases_def)

lemma nth_phases: "i < length (ts_heap s) \<Longrightarrow> tc_phase (ts_heap s ! i) = phases s ! i"
  by (simp add: phases_def)

lemma map_update_same [simp]: "(map f xs)[i := f (xs ! i)] = map f xs"
  by (metis list_update_id map_update)

lemma upd_conn_views:
  "(\<And>c. tc_phase (f c) = tc_phase c) \<Longrightarrow> phases (upd_conn i f s) = phases s"
  "(\<And>c. tc_closed (f c) = tc_closed c) \<Longrightarrow> closeds (upd_conn i f s) = closeds s"
  "phases (at_phase i p s) = (phases s)[i := p]"
  "closeds (at_phase i p s) = closeds s"
  "phases (netConn_Close i s) = phases s"
  "closeds (netConn_Close i s) = (closeds s)[i := True]"
  by (simp_all add: upd_conn_def phases_def closeds_def at_phase_def netConn_Close_def map_update)

lemma upd_conn_frame [simp]:
  "length (ts_heap (upd_conn i f s)) = length (ts_heap s)"
  "ts_admit (upd_conn i f s) = ts_admit s" "ts_perIP (upd_conn i f s) = ts_perIP s"
  "ts_v6bits (upd_conn i f s) = ts_v6bits s" "ts_conns (upd_conn i f s) = ts_conns s"
  "ts_accepted (upd_conn i f s) = ts_accepted s" "ts_rejected (upd_conn i f s) = ts_rejected s"
  "ts_rejectedPerIP (upd_conn i f s) = ts_rejectedPerIP s" "ts_active (upd_conn i f s) = ts_active s"
  "ts_closed (upd_conn i f s) = ts_closed s" "ts_wg (upd_conn i f s) = ts_wg s"
  "ts_serving (upd_conn i f s) = ts_serving s" "ts_stopped (upd_conn i f s) = ts_stopped s"
  "ts_lnClosed (upd_conn i f s) = ts_lnClosed s" "ts_draining (upd_conn i f s) = ts_draining s"
  "ts_ctxDone (upd_conn i f s) = ts_ctxDone s" "ts_serve (upd_conn i f s) = ts_serve s"
  by (simp_all add: upd_conn_def)

lemmas at_phase_frame [simp] = upd_conn_frame [where f = "\<lambda>c. c\<lparr>tc_phase := p\<rparr>" for p, folded at_phase_def]
lemmas netConn_Close_frame [simp] = upd_conn_frame [where f = "\<lambda>c. c\<lparr>tc_closed := True\<rparr>", folded netConn_Close_def]

text \<open>Everything but the slots and the keys.\<close>

definition same_control :: "'l tcpServer \<Rightarrow> 'l tcpServer \<Rightarrow> bool" where
  "same_control s t \<longleftrightarrow> phases t = phases s \<and> closeds t = closeds s \<and> ts_v6bits t = ts_v6bits s \<and>
     ts_conns t = ts_conns s \<and> ts_accepted t = ts_accepted s \<and> ts_rejected t = ts_rejected s \<and>
     ts_rejectedPerIP t = ts_rejectedPerIP s \<and> ts_active t = ts_active s \<and> ts_closed t = ts_closed s \<and>
     ts_wg t = ts_wg s \<and> ts_serving t = ts_serving s \<and> ts_stopped t = ts_stopped s \<and>
     ts_lnClosed t = ts_lnClosed s \<and> ts_draining t = ts_draining s \<and> ts_ctxDone t = ts_ctxDone s \<and>
     ts_serve t = ts_serve s \<and> length (ts_heap t) = length (ts_heap s)"

lemma releasePerIP_control: "same_control s (res_state (releasePerIP i s))"
  by (auto simp: releasePerIP_def same_control_def Let_def upd_conn_views phases_def closeds_def upd_conn_def map_update
      split: option.splits res.splits)

lemma same_control_refl: "same_control s s"
  by (simp add: same_control_def)

lemma tcp_release_control: "same_control s (res_state (tcp_release rel i s))"
proof (cases "ts_admit s")
  case None
  then show ?thesis using releasePerIP_control [of s i] by (simp add: tcp_release_def)
next
  case (Some l)
  have "same_control s (s\<lparr>ts_admit := x\<rparr>)" for x by (simp add: same_control_def phases_def closeds_def)
  then show ?thesis using Some releasePerIP_control [of "s\<lparr>ts_admit := x\<rparr>" i for x]
    by (auto simp: tcp_release_def same_control_def split: res.splits)
qed

text \<open>The statistics count the connections by where they are.\<close>

definition counts_ok :: "'l tcpServer \<Rightarrow> bool" where
  "counts_ok s \<longleftrightarrow> ts_accepted s = of_nat (num_in was_accepted (phases s)) \<and>
     ts_active s = of_nat (num_in is_active (phases s)) \<and>
     ts_closed s = of_nat (num_in is_closed (phases s)) \<and>
     ts_rejected s = of_nat (num_in {PRejected} (phases s)) \<and>
     ts_rejectedPerIP s = of_nat (num_in {PRejectedPerIP} (phases s)) \<and>
     ts_wg s = num_in running (phases s)"

lemma counts_ok_cong:
  "phases t = phases s \<Longrightarrow> ts_accepted t = ts_accepted s \<Longrightarrow> ts_active t = ts_active s \<Longrightarrow> ts_closed t = ts_closed s \<Longrightarrow>
   ts_rejected t = ts_rejected s \<Longrightarrow> ts_rejectedPerIP t = ts_rejectedPerIP s \<Longrightarrow> ts_wg t = ts_wg s \<Longrightarrow>
   counts_ok t = counts_ok s"
  by (simp add: counts_ok_def)

lemma counts_ok_control: "same_control s t \<Longrightarrow> counts_ok t = counts_ok s"
  by (simp add: counts_ok_def same_control_def)

lemmas counting = counts_ok_def upd_conn_views of_nat_num_in_update num_running_update in_phases
  Counter_Inc_def Counter_Dec_eq

lemma view_simps [simp]:
  "phases (ts_serve_update g s) = phases s" "closeds (ts_serve_update g s) = closeds s"
  "phases (ts_accepted_update f s) = phases s" "closeds (ts_accepted_update f s) = closeds s"
  "phases (ts_rejected_update f s) = phases s" "closeds (ts_rejected_update f s) = closeds s"
  "phases (ts_active_update f s) = phases s" "closeds (ts_active_update f s) = closeds s"
  "phases (ts_closed_update f s) = phases s" "closeds (ts_closed_update f s) = closeds s"
  "phases (ts_acceptErrors_update f s) = phases s" "closeds (ts_acceptErrors_update f s) = closeds s"
  "phases (ts_lastConnID_update f s) = phases s" "closeds (ts_lastConnID_update f s) = closeds s"
  "phases (ts_conns_update h s) = phases s" "closeds (ts_conns_update h s) = closeds s"
  "phases (ts_wg_update w s) = phases s" "closeds (ts_wg_update w s) = closeds s"
  "phases (ts_admit_update a s) = phases s" "closeds (ts_admit_update a s) = closeds s"
  "phases (ts_serving_update b s) = phases s" "closeds (ts_serving_update b s) = closeds s"
  "phases (ts_delay_update d s) = phases s" "closeds (ts_delay_update d s) = closeds s"
  "phases (ts_ctxDone_update b s) = phases s" "closeds (ts_ctxDone_update b s) = closeds s"
  by (simp_all add: phases_def closeds_def)

lemma stop_views [simp]:
  "phases (stopAccept s) = phases s" "closeds (stopAccept s) = closeds s" "phases (abortAll s) = phases s"
  by (auto simp: phases_def closeds_def stopAccept_def abortAll_def close_conns_def intro: nth_equalityI)

lemma stop_frame [simp]:
  "ts_heap (stopAccept s) = ts_heap s" "length (ts_heap (abortAll s)) = length (ts_heap s)"
  "ts_admit (stopAccept s) = ts_admit s" "ts_admit (abortAll s) = ts_admit s"
  "ts_perIP (stopAccept s) = ts_perIP s" "ts_perIP (abortAll s) = ts_perIP s"
  "ts_v6bits (stopAccept s) = ts_v6bits s" "ts_v6bits (abortAll s) = ts_v6bits s"
  "ts_conns (stopAccept s) = ts_conns s" "ts_conns (abortAll s) = ts_conns s"
  "ts_serve (stopAccept s) = ts_serve s" "ts_serve (abortAll s) = ts_serve s"
  "ts_serving (stopAccept s) = ts_serving s" "ts_serving (abortAll s) = ts_serving s"
  "ts_ctxDone (stopAccept s) = ts_ctxDone s" "ts_ctxDone (abortAll s)"
  "ts_stopped (stopAccept s)" "ts_stopped (abortAll s) = ts_stopped s"
  "ts_lnClosed (abortAll s) = ts_lnClosed s" "ts_draining (abortAll s) = ts_draining s"
  "ts_accepted (stopAccept s) = ts_accepted s" "ts_accepted (abortAll s) = ts_accepted s"
  "ts_rejected (stopAccept s) = ts_rejected s" "ts_rejected (abortAll s) = ts_rejected s"
  "ts_rejectedPerIP (stopAccept s) = ts_rejectedPerIP s" "ts_rejectedPerIP (abortAll s) = ts_rejectedPerIP s"
  "ts_active (stopAccept s) = ts_active s" "ts_active (abortAll s) = ts_active s"
  "ts_closed (stopAccept s) = ts_closed s" "ts_closed (abortAll s) = ts_closed s"
  "ts_wg (stopAccept s) = ts_wg s" "ts_wg (abortAll s) = ts_wg s"
  by (simp_all add: stopAccept_def abortAll_def close_conns_def)

lemma serveConn_counts:
  assumes "counts_ok s" and i: "i < length (ts_heap s)"
  shows "counts_ok (res_state (serveConn rel i s))"
proof (cases "phases s ! i = PRelease")
  case True
  have "counts_ok (at_phase i PUntrack s)" using assms True by (simp add: counting)
  then show ?thesis using True i
    by (simp add: serveConn_def nth_phases counts_ok_control [OF tcp_release_control])
next
  case False
  have "phases s ! i = PDone \<Longrightarrow> 0 < ts_wg s"
    using assms num_in_pos [of i "phases s" running] by (simp add: counts_ok_def in_phases)
  then show ?thesis using assms False
    by (auto simp: serveConn_def nth_phases counting wg_Done_def untrack_conns_def untrack_active_def untrack_closed_def
        split: phase.splits)
qed

text \<open>The three ways the admission and the tracking of a connection can go; the first is a panic.\<close>

definition rejected_conn :: "nat \<Rightarrow> 'l tcpServer \<Rightarrow> 'l tcpServer" where
  "rejected_conn i s =
     at_phase i PRejected (netConn_Close i (s\<lparr>ts_rejected := Counter_Inc (ts_rejected s), ts_serve := Accepting\<rparr>))"

definition refused_conn :: "nat \<Rightarrow> 'l tcpServer \<Rightarrow> 'l tcpServer" where
  "refused_conn i s = at_phase i PRefused (netConn_Close i (s\<lparr>ts_serve := Draining None\<rparr>))"

lemma accept_admit_control:
  obtains t where "same_control s t"
    and "if panics (accept_admit acq i s) then res_state (accept_admit acq i s) = t
      else res_state (accept_admit acq i s) \<in> {rejected_conn i t, at_phase i PTrack t}"
proof -
  define s1 where "s1 x = (if ts_admit s = None then s else s\<lparr>ts_admit := Some x\<rparr>)" for x
  have s1: "same_control s (s1 x)" for x by (simp add: s1_def same_control_def)
  have s2: "same_control s (res_state (releasePerIP i (s1 x)))" for x
    using s1 [of x] releasePerIP_control [of "s1 x" i] by (simp add: same_control_def)
  have s3: "same_control s (upd_conn i (\<lambda>c. c\<lparr>tc_id := n\<rparr>) ((s1 x)\<lparr>ts_lastConnID := n\<rparr>))" for x n
    using s1 [of x] by (simp add: same_control_def upd_conn_views)
  show ?thesis
  proof (cases "ts_admit s")
    case None
    then show ?thesis using s3 [where n = "ts_lastConnID s + 1"] that
      by (auto simp: accept_admit_def Let_def s1_def)
  next
    case (Some l)
    show ?thesis
    proof (cases "fst (acq l)")
      case True
      then have "accept_admit acq i s = Ret () (at_phase i PTrack
          (upd_conn i (\<lambda>c. c\<lparr>tc_id := ts_lastConnID s + 1\<rparr>) ((s1 (snd (acq l)))\<lparr>ts_lastConnID := ts_lastConnID s + 1\<rparr>)))"
        using Some by (simp add: accept_admit_def s1_def case_prod_beta)
      with that [OF s3 [where x = "snd (acq l)" and n = "ts_lastConnID s + 1"]] show ?thesis by simp
    next
      case False
      then have "accept_admit acq i s =
          (case releasePerIP i (s1 (snd (acq l))) of Panic m t \<Rightarrow> Panic m t | Ret u t \<Rightarrow> Ret () (rejected_conn i t))"
        using Some by (simp add: accept_admit_def s1_def rejected_conn_def case_prod_beta split: res.splits)
      with that [OF s2 [of "snd (acq l)"]] show ?thesis by (cases "releasePerIP i (s1 (snd (acq l)))") simp_all
    qed
  qed
qed

lemma accept_track_control:
  obtains t where "same_control s t"
    and "res_state (accept_track rel i s) =
      (if \<not> ts_stopped s then at_phase i PCount (s\<lparr>ts_conns := insert i (ts_conns s)\<rparr>)
       else if panics (accept_track rel i s) then t else refused_conn i t)"
  using tcp_release_control [of s rel i] that
  by (cases "tcp_release rel i s") (auto simp: accept_track_def track_def refused_conn_def)

lemma accept_admit_counts:
  assumes "counts_ok s" and i: "i < length (ts_heap s)" "phases s ! i = PAdmit"
  shows "counts_ok (res_state (accept_admit acq i s))"
proof -
  obtain t where t: "same_control s t"
    and e: "if panics (accept_admit acq i s) then res_state (accept_admit acq i s) = t
      else res_state (accept_admit acq i s) \<in> {rejected_conn i t, at_phase i PTrack t}"
    by (rule accept_admit_control)
  have "counts_ok t" "i < length (ts_heap t)" "phases t ! i = PAdmit"
    using t assms by (simp_all add: counts_ok_control [OF t]) (simp_all add: same_control_def)
  then show ?thesis using e by (auto simp: rejected_conn_def counting split: if_splits)
qed

lemma accept_track_counts:
  assumes "counts_ok s" and i: "i < length (ts_heap s)" "phases s ! i = PTrack"
  shows "counts_ok (res_state (accept_track rel i s))"
proof -
  obtain t where t: "same_control s t"
    and e: "res_state (accept_track rel i s) =
      (if \<not> ts_stopped s then at_phase i PCount (s\<lparr>ts_conns := insert i (ts_conns s)\<rparr>)
       else if panics (accept_track rel i s) then t else refused_conn i t)"
    by (rule accept_track_control)
  have "counts_ok t" "i < length (ts_heap t)" "phases t ! i = PTrack"
    using t assms by (simp_all add: counts_ok_control [OF t]) (simp_all add: same_control_def)
  then show ?thesis using e assms by (auto simp: refused_conn_def counting)
qed

lemma acceptLoop_counts:
  assumes "counts_ok s" and "i < length (ts_heap s)"
  shows "counts_ok (res_state (acceptLoop acq rel i s))"
  using assms accept_admit_counts [OF assms] accept_track_counts [OF assms]
  by (auto simp: acceptLoop_def nth_phases split: phase.splits) (simp_all add: counting)

lemma accept_conn_phases:
  obtains p b where "phases (accept_conn a s) = phases s @ [p]" and "closeds (accept_conn a s) = closeds s @ [b]"
    and "if p = PRejectedPerIP then b \<and> ts_serve (accept_conn a s) = ts_serve s
      else p = PAdmit \<and> ts_serve (accept_conn a s) = Admitting (length (ts_heap s))"
proof
  let ?c = "last (ts_heap (accept_conn a s))"
  show "phases (accept_conn a s) = phases s @ [tc_phase ?c]" "closeds (accept_conn a s) = closeds s @ [tc_closed ?c]"
    "if tc_phase ?c = PRejectedPerIP then tc_closed ?c \<and> ts_serve (accept_conn a s) = ts_serve s
      else tc_phase ?c = PAdmit \<and> ts_serve (accept_conn a s) = Admitting (length (ts_heap s))"
    by (simp_all add: accept_conn_def phases_def closeds_def Let_def split: option.splits prod.splits)
qed

lemma accept_conn_counts: "counts_ok s \<Longrightarrow> counts_ok (accept_conn a s)"
  by (auto simp: accept_conn_def phases_def Let_def counting split: option.splits prod.splits)

text \<open>
  Which connections are tracked, which one the accept loop works on, which are closed, and what
  has happened once the server stops, aborts and returns.
\<close>

fun leaving_pc :: "servepc \<Rightarrow> bool" where
  "leaving_pc (Aborting e) \<longleftrightarrow> True"
| "leaving_pc (Draining r) \<longleftrightarrow> True"
| "leaving_pc (Returned r) \<longleftrightarrow> True"
| "leaving_pc pc \<longleftrightarrow> False"

fun aborted_pc :: "servepc \<Rightarrow> bool" where
  "aborted_pc (Draining r) \<longleftrightarrow> r \<noteq> None"
| "aborted_pc (Returned r) \<longleftrightarrow> True"
| "aborted_pc pc \<longleftrightarrow> False"

definition where_ok :: "'l tcpServer \<Rightarrow> bool" where
  "where_ok s \<longleftrightarrow>
     ts_conns s = {i. i < length (ts_heap s) \<and> phases s ! i \<in> tracked} \<and>
     (\<forall>i. ts_serve s = Admitting i \<longleftrightarrow> i < length (ts_heap s) \<and> phases s ! i \<in> accepting) \<and>
     (\<forall>i < length (ts_heap s). phases s ! i \<in> shut \<longrightarrow> closeds s ! i) \<and>
     (ts_serving s \<longleftrightarrow> ts_serve s \<noteq> NotServing) \<and> (ts_serve s = NotServing \<longrightarrow> ts_heap s = []) \<and>
     ts_lnClosed s = ts_stopped s \<and> ts_draining s = ts_stopped s"

definition stop_ok :: "'l tcpServer \<Rightarrow> bool" where
  "stop_ok s \<longleftrightarrow>
     (leaving_pc (ts_serve s) \<longrightarrow> ts_stopped s) \<and> (aborted_pc (ts_serve s) \<longrightarrow> ts_ctxDone s) \<and>
     (ts_ctxDone s \<longrightarrow> ts_stopped s \<and> (\<forall>i < length (ts_heap s). phases s ! i \<in> tracked \<longrightarrow> closeds s ! i)) \<and>
     (\<forall>r. ts_serve s = Returned r \<longrightarrow> ts_wg s = 0)"

lemma where_ok_control: "same_control s t \<Longrightarrow> where_ok t = where_ok s"
  unfolding where_ok_def by (simp add: same_control_def length_0_conv [symmetric] del: length_0_conv)

lemma stop_ok_control: "same_control s t \<Longrightarrow> stop_ok t = stop_ok s"
  unfolding stop_ok_def by (simp add: same_control_def)

lemma where_okD:
  assumes "where_ok s"
  shows "i \<in> ts_conns s \<longleftrightarrow> i < length (ts_heap s) \<and> phases s ! i \<in> tracked"
    and "ts_serve s = Admitting i \<longleftrightarrow> i < length (ts_heap s) \<and> phases s ! i \<in> accepting"
    and "i < length (ts_heap s) \<Longrightarrow> phases s ! i \<in> shut \<Longrightarrow> closeds s ! i"
    and "ts_serving s \<longleftrightarrow> ts_serve s \<noteq> NotServing"
    and "i < length (ts_heap s) \<Longrightarrow> ts_serve s \<noteq> NotServing"
    and "ts_lnClosed s = ts_stopped s" and "ts_draining s = ts_stopped s"
  using assms unfolding where_ok_def by simp_all force?

lemma running_not_accepting: "p \<in> running \<Longrightarrow> p \<notin> accepting"
  by (auto simp: in_phases)

text \<open>One connection moves to another phase.\<close>

lemma where_ok_move:
  assumes "where_ok s" and "i < length (ts_heap s)" and "length (ts_heap t) = length (ts_heap s)"
    and "phases t = (phases s)[i := p]" and "closeds t = closeds s \<or> closeds t = (closeds s)[i := True]"
    and "p \<in> shut \<longrightarrow> closeds t ! i"
    and "ts_conns t = (if p \<in> tracked then insert i (ts_conns s) else ts_conns s - {i})"
    and "\<forall>j. ts_serve t = Admitting j \<longleftrightarrow> (if j = i then p \<in> accepting else ts_serve s = Admitting j)"
    and "ts_serve t \<noteq> NotServing" and "ts_serving t = ts_serving s"
    and "ts_lnClosed t = ts_lnClosed s" "ts_draining t = ts_draining s" "ts_stopped t = ts_stopped s"
  shows "where_ok t"
proof -
  have "closeds s ! j \<Longrightarrow> closeds t ! j" for j using assms(5) by (cases "j = i"; cases "j < length (closeds s)") (auto simp: list_update_beyond)
  moreover have "ts_serving s" using assms(1,2) unfolding where_ok_def by auto
  moreover have "{j. j < length (ts_heap t) \<and> phases t ! j \<in> tracked} = ts_conns t"
    using assms(1-4,7) unfolding where_ok_def by (auto simp: nth_list_update)
  ultimately show ?thesis using assms(1-4,6,8-) unfolding where_ok_def by (auto simp: nth_list_update)
qed

lemma stop_ok_move:
  assumes "stop_ok s" and "i < length (ts_heap s)" and "length (ts_heap t) = length (ts_heap s)"
    and "phases t = (phases s)[i := p]" and "closeds t = closeds s \<or> closeds t = (closeds s)[i := True]"
    and "p \<in> tracked \<longrightarrow> phases s ! i \<in> tracked \<or> \<not> ts_stopped s"
    and "leaving_pc (ts_serve t) \<longrightarrow> ts_stopped s" and "aborted_pc (ts_serve t) \<longrightarrow> ts_ctxDone s"
    and "\<forall>r. ts_serve t = Returned r \<longrightarrow> ts_wg t = 0"
    and "ts_ctxDone t = ts_ctxDone s" "ts_stopped t = ts_stopped s"
  shows "stop_ok t"
proof -
  have "closeds s ! j \<Longrightarrow> closeds t ! j" for j using assms(5) by (cases "j = i"; cases "j < length (closeds s)") (auto simp: list_update_beyond)
  then show ?thesis using assms(1-4,6-) unfolding stop_ok_def by (auto simp: nth_list_update)
qed

fun next_phase :: "phase \<Rightarrow> phase" where
  "next_phase PHandler = PClose"
| "next_phase PClose = PRelease"
| "next_phase PRelease = PUntrack"
| "next_phase PUntrack = PDec"
| "next_phase PDec = PInc"
| "next_phase PInc = PDone"
| "next_phase PDone = PGone"
| "next_phase p = p"

lemma serveConn_idle: "i < length (ts_heap s) \<Longrightarrow> phases s ! i \<notin> running \<Longrightarrow> serveConn rel i s = Ret () s"
  by (auto simp: serveConn_def nth_phases in_phases split: phase.splits)

lemma serveConn_moves:
  assumes i: "i < length (ts_heap s)" and r: "phases s ! i \<in> running" and t: "t = res_state (serveConn rel i s)"
  shows "phases t = (phases s)[i := next_phase (phases s ! i)] \<and> length (ts_heap t) = length (ts_heap s) \<and>
    closeds t = (if phases s ! i = PClose then (closeds s)[i := True] else closeds s) \<and>
    ts_conns t = (if phases s ! i = PUntrack then ts_conns s - {i} else ts_conns s) \<and>
    ts_serve t = ts_serve s \<and> ts_serving t = ts_serving s \<and> ts_lnClosed t = ts_lnClosed s \<and>
    ts_draining t = ts_draining s \<and> ts_stopped t = ts_stopped s \<and> ts_ctxDone t = ts_ctxDone s \<and> ts_wg t \<le> ts_wg s"
proof (cases "phases s ! i = PRelease")
  case True
  then show ?thesis using tcp_release_control [of "at_phase i PUntrack s" rel i] unfolding t
    by (simp add: serveConn_def nth_phases [OF i] upd_conn_views same_control_def)
next
  case False
  then show ?thesis using r unfolding t serveConn_def nth_phases [OF i]
    by (cases "phases s ! i")
       (simp_all add: in_phases upd_conn_views untrack_conns_def untrack_active_def untrack_closed_def wg_Done_def)
qed

lemma next_phase_facts:
  assumes "p \<in> running"
  shows "next_phase p \<notin> accepting" and "next_phase p \<in> tracked \<longleftrightarrow> p \<in> tracked \<and> p \<noteq> PUntrack"
    and "p = PClose \<or> (next_phase p \<in> shut \<longrightarrow> p \<in> shut)" and "p = PUntrack \<or> (p \<in> tracked \<longleftrightarrow> next_phase p \<in> tracked)"
  using assms by (cases p; simp add: in_phases)+

definition control_ok :: "'l tcpServer \<Rightarrow> bool" where
  "control_ok s \<longleftrightarrow> counts_ok s \<and> where_ok s \<and> stop_ok s"

lemma control_ok_control: "same_control s t \<Longrightarrow> control_ok t = control_ok s"
  by (simp add: control_ok_def counts_ok_control where_ok_control stop_ok_control)

lemma serveConn_ok:
  assumes "control_ok s" and i: "i < length (ts_heap s)"
  shows "control_ok (res_state (serveConn rel i s))"
proof (cases "phases s ! i \<in> running")
  case True
  have s: "counts_ok s" "where_ok s" "stop_ok s" using assms(1) by (simp_all add: control_ok_def)
  have t: "i \<in> ts_conns s \<longleftrightarrow> phases s ! i \<in> tracked" and a: "ts_serve s \<noteq> Admitting i"
    and n: "ts_serve s \<noteq> NotServing" and c: "phases s ! i \<in> shut \<longrightarrow> closeds s ! i"
    using where_okD(1-3,5) [OF s(2), of i] i running_not_accepting [OF True] by simp_all
  define u where "u = res_state (serveConn rel i s)"
  note m = serveConn_moves [OF i True u_def]
  note f = next_phase_facts [OF True]
  have conns: "ts_conns u = (if next_phase (phases s ! i) \<in> tracked then insert i (ts_conns s) else ts_conns s - {i})"
    using m t f(2) by (auto simp: insert_absorb)
  have shut: "next_phase (phases s ! i) \<in> shut \<longrightarrow> closeds u ! i"
    using m f(3) c i by auto
  have "where_ok u"
    by (rule where_ok_move [OF s(2) i, where p = "next_phase (phases s ! i)"])
       (use m shut f(1) a n in \<open>auto simp: conns\<close>)
  moreover have "stop_ok u"
    by (rule stop_ok_move [OF s(3) i, where p = "next_phase (phases s ! i)"])
       (use m f(2) s(3) in \<open>auto simp: stop_ok_def\<close>)
  ultimately show ?thesis using serveConn_counts [OF s(1) i] by (simp add: control_ok_def u_def)
next
  case False
  then show ?thesis using assms serveConn_idle [OF i] by simp
qed

lemma accept_ok_move:
  assumes "where_ok s" "stop_ok s" and a: "ts_serve s = Admitting i"
    and "length (ts_heap t) = length (ts_heap s)" "phases t = (phases s)[i := p]"
    and "closeds t = closeds s \<or> closeds t = (closeds s)[i := True]" "p \<in> shut \<longrightarrow> closeds t = (closeds s)[i := True]"
    and "ts_conns t = (if p \<in> tracked then insert i (ts_conns s) else ts_conns s)"
    and "p \<in> tracked \<longrightarrow> phases s ! i \<in> tracked \<or> \<not> ts_stopped s" and "phases s ! i \<in> tracked \<longrightarrow> p \<in> tracked"
    and pc: "p \<in> accepting \<and> ts_serve t = Admitting i \<or> p \<notin> accepting \<and> ts_serve t = Accepting \<or>
      p \<notin> accepting \<and> ts_serve t = Draining None \<and> ts_stopped s"
    and "ts_serving t = ts_serving s" "ts_lnClosed t = ts_lnClosed s" "ts_draining t = ts_draining s"
      "ts_stopped t = ts_stopped s" "ts_ctxDone t = ts_ctxDone s"
  shows "where_ok t \<and> stop_ok t"
proof
  have i: "i < length (ts_heap s)" using where_okD(2) [OF assms(1)] a by blast
  have c: "ts_conns t = (if p \<in> tracked then insert i (ts_conns s) else ts_conns s - {i})"
    using assms(8,10) where_okD(1) [OF assms(1), of i] by auto
  show "where_ok t"
  proof (rule where_ok_move [OF assms(1) i assms(4-6) _ c])
    show "p \<in> shut \<longrightarrow> closeds t ! i" using assms(7) i by simp
    show "\<forall>j. ts_serve t = Admitting j \<longleftrightarrow> (if j = i then p \<in> accepting else ts_serve s = Admitting j)"
      using pc a by auto
    show "ts_serve t \<noteq> NotServing" using pc by auto
  qed (use assms(12-15) in simp_all)
  show "stop_ok t"
    by (rule stop_ok_move [OF assms(2) i assms(4-6) assms(9)]) (use pc assms(15,16) in auto)
qed

lemma accept_admit_ok:
  assumes "control_ok s" and a: "ts_serve s = Admitting i" and p: "phases s ! i = PAdmit"
  shows "control_ok (res_state (accept_admit acq i s))"
proof -
  have s: "counts_ok s" "where_ok s" "stop_ok s" using assms(1) by (simp_all add: control_ok_def)
  have i: "i < length (ts_heap s)" using where_okD(2) [OF s(2)] a by blast
  obtain t where t: "same_control s t"
    and e: "if panics (accept_admit acq i s) then res_state (accept_admit acq i s) = t
      else res_state (accept_admit acq i s) \<in> {rejected_conn i t, at_phase i PTrack t}"
    by (rule accept_admit_control)
  note u = t [unfolded same_control_def]
  have t': "where_ok t" "stop_ok t" "ts_serve t = Admitting i" "phases t ! i = PAdmit"
    using s a p by (simp_all add: where_ok_control [OF t] stop_ok_control [OF t] u)
  have "where_ok (rejected_conn i t) \<and> stop_ok (rejected_conn i t)"
    by (rule accept_ok_move [OF t'(1-3), where p = PRejected]) (simp_all add: t' rejected_conn_def upd_conn_views in_phases)
  moreover have "where_ok (at_phase i PTrack t) \<and> stop_ok (at_phase i PTrack t)"
    by (rule accept_ok_move [OF t'(1-3), where p = PTrack]) (simp_all add: t' upd_conn_views in_phases)
  ultimately show ?thesis using e t' accept_admit_counts [OF s(1) i p, of acq] by (auto simp: control_ok_def split: if_splits)
qed

lemma accept_track_ok:
  assumes "control_ok s" and a: "ts_serve s = Admitting i" and p: "phases s ! i = PTrack"
  shows "control_ok (res_state (accept_track rel i s))"
proof -
  have s: "counts_ok s" "where_ok s" "stop_ok s" using assms(1) by (simp_all add: control_ok_def)
  have i: "i < length (ts_heap s)" using where_okD(2) [OF s(2)] a by blast
  obtain t where t: "same_control s t"
    and e: "res_state (accept_track rel i s) =
      (if \<not> ts_stopped s then at_phase i PCount (s\<lparr>ts_conns := insert i (ts_conns s)\<rparr>)
       else if panics (accept_track rel i s) then t else refused_conn i t)"
    by (rule accept_track_control)
  note u = t [unfolded same_control_def]
  have t': "where_ok t" "stop_ok t" "ts_serve t = Admitting i" "phases t ! i = PTrack" "ts_stopped t = ts_stopped s"
    using s a p by (simp_all add: where_ok_control [OF t] stop_ok_control [OF t] u)
  have "ts_stopped t \<Longrightarrow> where_ok (refused_conn i t) \<and> stop_ok (refused_conn i t)"
    by (rule accept_ok_move [OF t'(1-3), where p = PRefused]) (simp_all add: t' refused_conn_def upd_conn_views in_phases)
  moreover have "\<not> ts_stopped s \<Longrightarrow> where_ok (at_phase i PCount (s\<lparr>ts_conns := insert i (ts_conns s)\<rparr>)) \<and>
      stop_ok (at_phase i PCount (s\<lparr>ts_conns := insert i (ts_conns s)\<rparr>))"
    by (rule accept_ok_move [OF s(2,3) a, where p = PCount]) (simp_all add: p a upd_conn_views in_phases)
  ultimately show ?thesis using e t' accept_track_counts [OF s(1) i p, of rel] by (auto simp: control_ok_def)
qed

lemma acceptLoop_ok:
  assumes "control_ok s" and a: "ts_serve s = Admitting i"
  shows "control_ok (res_state (acceptLoop acq rel i s))"
proof -
  have s: "counts_ok s" "where_ok s" "stop_ok s" using assms(1) by (simp_all add: control_ok_def)
  have i: "i < length (ts_heap s)" and p: "phases s ! i \<in> accepting" using where_okD(2) [OF s(2), of i] a by blast+
  have c: "phases s ! i \<in> tracked \<Longrightarrow> insert i (ts_conns s) = ts_conns s"
    using where_okD(1) [OF s(2), of i] i by blast
  let ?t = "res_state (acceptLoop acq rel i s)"
  have m: "where_ok ?t \<and> stop_ok ?t"
    if "phases s ! i = p" "p \<in> tracked" "q \<in> tracked" "q \<notin> shut" "phases ?t = (phases s)[i := q]" "closeds ?t = closeds s"
      "ts_conns ?t = ts_conns s" "ts_serving ?t = ts_serving s" "ts_lnClosed ?t = ts_lnClosed s"
      "ts_draining ?t = ts_draining s" "ts_stopped ?t = ts_stopped s" "ts_ctxDone ?t = ts_ctxDone s" "length (ts_heap ?t) = length (ts_heap s)"
      "ts_serve ?t = (if q \<in> accepting then Admitting i else Accepting)" for p q
    by (rule accept_ok_move [OF s(2,3) a, where p = q])
       (use that c in \<open>simp_all split: if_splits\<close>)
  have "where_ok ?t \<and> stop_ok ?t" if "phases s ! i = PCount"
    by (rule m [OF that, where q = PActive])
       (use that in \<open>simp_all add: acceptLoop_def nth_phases [OF i] a upd_conn_views in_phases\<close>)
  moreover have "where_ok ?t \<and> stop_ok ?t" if "phases s ! i = PActive"
    by (rule m [OF that, where q = PSpawn])
       (use that in \<open>simp_all add: acceptLoop_def nth_phases [OF i] a upd_conn_views in_phases\<close>)
  moreover have "where_ok ?t \<and> stop_ok ?t" if "phases s ! i = PSpawn"
    by (rule m [OF that, where q = PHandler])
       (use that in \<open>simp_all add: acceptLoop_def nth_phases [OF i] a upd_conn_views in_phases\<close>)
  ultimately have "phases s ! i \<notin> {PAdmit, PTrack} \<Longrightarrow> control_ok ?t"
    using acceptLoop_counts [OF s(1) i, of acq rel] p by (auto simp: in_phases(1) control_ok_def)
  with accept_admit_ok [OF assms, of acq] accept_track_ok [OF assms, of rel]
  show ?thesis by (cases "phases s ! i \<in> {PAdmit, PTrack}") (auto simp: acceptLoop_def nth_phases [OF i])
qed

lemma abortAll_closeds:
  "i < length (ts_heap s) \<Longrightarrow> closeds (abortAll s) ! i \<longleftrightarrow> i \<in> ts_conns s \<or> closeds s ! i"
  by (auto simp: closeds_def abortAll_def close_conns_def)

lemma abortAll_ok:
  assumes "control_ok s" and "ts_stopped s"
  shows "control_ok (abortAll s)"
proof -
  have s: "counts_ok s" "where_ok s" "stop_ok s" using assms(1) by (simp_all add: control_ok_def)
  have "counts_ok (abortAll s)" using s(1) by (simp add: counts_ok_def)
  moreover have "where_ok (abortAll s)"
    using s(2) unfolding where_ok_def by (simp add: abortAll_closeds length_0_conv [symmetric] del: length_0_conv)
  moreover have "stop_ok (abortAll s)"
    using s(3) assms(2) where_okD(1) [OF s(2)] unfolding stop_ok_def by (simp add: abortAll_closeds)
  ultimately show ?thesis by (simp add: control_ok_def)
qed

lemma stopAccept_flags [simp]:
  "ts_lnClosed (stopAccept s) = (if ts_stopped s then ts_lnClosed s else True)"
  "ts_draining (stopAccept s) = (if ts_stopped s then ts_draining s else True)"
  by (simp_all add: stopAccept_def)

lemma stopAccept_ok: "control_ok s \<Longrightarrow> control_ok (stopAccept s)"
proof -
  assume "control_ok s"
  moreover have "counts_ok (stopAccept s) = counts_ok s" by (simp add: counts_ok_def)
  moreover have "where_ok s \<Longrightarrow> where_ok (stopAccept s)" by (simp add: where_ok_def)
  moreover have "stop_ok s \<Longrightarrow> stop_ok (stopAccept s)" by (simp add: stop_ok_def)
  ultimately show ?thesis by (simp add: control_ok_def)
qed

text \<open>\<open>Serve\<close> goes on to a place that is not at work on a connection.\<close>

lemma control_ok_goto:
  assumes "control_ok s" and "\<And>i. ts_serve s \<noteq> Admitting i" and "ts_serve s \<noteq> NotServing"
    and "pc \<noteq> NotServing" and "\<And>i. pc \<noteq> Admitting i" and "leaving_pc pc \<longrightarrow> ts_stopped s"
    and "aborted_pc pc \<longrightarrow> ts_ctxDone s" and "\<And>r. pc = Returned r \<Longrightarrow> ts_wg s = 0"
  shows "control_ok (s\<lparr>ts_serve := pc\<rparr>)"
  using assms by (simp add: control_ok_def counts_ok_def where_ok_def stop_ok_def)

lemma control_ok_locals [simp]:
  "control_ok (s\<lparr>ts_acceptErrors := n\<rparr>) = control_ok s" "control_ok (s\<lparr>ts_delay := d\<rparr>) = control_ok s"
  "control_ok (s\<lparr>ts_lastConnID := n\<rparr>) = control_ok s"
  by (simp_all add: control_ok_def counts_ok_def where_ok_def stop_ok_def)

lemma accept_conn_ok:
  assumes "control_ok s" and a: "ts_serve s = Accepting"
  shows "control_ok (accept_conn a s)"
proof -
  have s: "counts_ok s" "where_ok s" "stop_ok s" using assms(1) by (simp_all add: control_ok_def)
  let ?t = "accept_conn a s"
  obtain p b where p: "phases ?t = phases s @ [p]" "closeds ?t = closeds s @ [b]"
    and pc: "if p = PRejectedPerIP then b \<and> ts_serve ?t = ts_serve s
      else p = PAdmit \<and> ts_serve ?t = Admitting (length (ts_heap s))"
    by (rule accept_conn_phases)
  have f: "ts_conns ?t = ts_conns s" "ts_serving ?t = ts_serving s" "ts_lnClosed ?t = ts_lnClosed s"
    "ts_draining ?t = ts_draining s" "ts_stopped ?t = ts_stopped s" "ts_ctxDone ?t = ts_ctxDone s" "ts_wg ?t = ts_wg s"
    by (simp_all add: accept_conn_def Let_def split: option.splits prod.splits)
  have l: "length (ts_heap ?t) = Suc (length (ts_heap s))" using arg_cong [OF p(1), of length] by simp
  have n: "\<And>i. i < length (ts_heap s) \<Longrightarrow> phases s ! i \<notin> accepting" using where_okD(2) [OF s(2)] a by auto
  have serving: "ts_serving s" using where_okD(4) [OF s(2)] a by simp
  have old: "i < length (ts_heap s) \<Longrightarrow> phases ?t ! i = phases s ! i \<and> closeds ?t ! i = closeds s ! i"
    and new: "phases ?t ! length (ts_heap s) = p" "closeds ?t ! length (ts_heap s) = b" for i
    by (simp_all add: p nth_append)
  have px: "p \<notin> tracked" "p \<in> accepting \<longleftrightarrow> p \<noteq> PRejectedPerIP" "p \<in> shut \<longrightarrow> b"
    using pc by (cases "p = PRejectedPerIP"; simp add: in_phases)+
  have 1: "ts_serve ?t = Admitting i \<longleftrightarrow> i < length (ts_heap ?t) \<and> phases ?t ! i \<in> accepting" for i
    using pc a n [of i] old [of i] new px(2) unfolding l by (cases "i = length (ts_heap s)") (auto split: if_splits)
  have 2: "phases ?t ! i \<in> shut \<longrightarrow> closeds ?t ! i" if "i < length (ts_heap ?t)" for i
    using where_okD(3) [OF s(2), of i] old [of i] new px(3) that unfolding l by (cases "i = length (ts_heap s)") auto
  have 3: "i \<in> ts_conns ?t \<longleftrightarrow> i < length (ts_heap ?t) \<and> phases ?t ! i \<in> tracked" for i
    using where_okD(1) [OF s(2), of i] old [of i] new px(1) unfolding l f by (cases "i = length (ts_heap s)") auto
  have "where_ok ?t"
    unfolding where_ok_def using 1 2 3 where_okD(6,7) [OF s(2)] serving a pc by (auto simp: f split: if_splits)
  moreover have "stop_ok ?t"
    using s(3) pc a unfolding stop_ok_def p f l by (auto simp: nth_append less_Suc_eq in_phases split: if_splits)
  ultimately show ?thesis using accept_conn_counts [OF s(1), of a] by (simp add: control_ok_def)
qed

lemma accept_error_ok:
  assumes "control_ok s" and a: "ts_serve s = Accepting"
  shows "control_ok (accept_error e temp s)"
proof -
  have "accept_error e temp s =
      (if ts_stopped s then s\<lparr>ts_serve := Draining None\<rparr>
       else if temp then (s\<lparr>ts_acceptErrors := Counter_Inc (ts_acceptErrors s)\<rparr>\<lparr>ts_delay := Backoff_Next (ts_delay s)\<rparr>)\<lparr>ts_serve := Backoff\<rparr>
       else s\<lparr>ts_serve := Failed e\<rparr>)"
    by (simp add: accept_error_def)
  then show ?thesis using assms by (auto intro: control_ok_goto)
qed

lemma Tcp_Serve_ok:
  assumes "control_ok s"
  shows "control_ok (res_state (Tcp_Serve acq rel s))"
proof (cases "ts_serve s")
  case (Admitting i)
  then show ?thesis using acceptLoop_ok [OF assms] by (simp add: Tcp_Serve_def)
next
  case (Failed e)
  have "control_ok ((stopAccept s)\<lparr>ts_serve := Aborting (TAccept e)\<rparr>)"
    by (rule control_ok_goto [OF stopAccept_ok [OF assms]]) (simp_all add: Failed)
  then show ?thesis by (simp add: Tcp_Serve_def Failed)
next
  case (Aborting e)
  then have "ts_stopped s" using assms by (simp add: control_ok_def stop_ok_def)
  then have "control_ok ((abortAll s)\<lparr>ts_serve := Draining (Some e)\<rparr>)"
    by (intro control_ok_goto [OF abortAll_ok [OF assms]]) (simp_all add: Aborting)
  then show ?thesis by (simp add: Tcp_Serve_def Aborting)
next
  case (Draining r)
  show ?thesis
  proof (cases "ts_wg s = 0")
    case True
    have s: "counts_ok s" "where_ok s" "stop_ok s" using assms by (simp_all add: control_ok_def)
    have st: "ts_stopped s" using s(3) Draining by (simp add: stop_ok_def)
    have "phases s ! i \<notin> tracked" if i: "i < length (ts_heap s)" for i
    proof
      assume "phases s ! i \<in> tracked"
      moreover have "phases s ! i \<notin> running" using s(1) True i by (simp add: counts_ok_def num_in_0)
      moreover have "phases s ! i \<notin> accepting" using where_okD(2) [OF s(2), of i] Draining i by simp
      ultimately show False by (auto simp: in_phases)
    qed
    then have "control_ok (s\<lparr>ts_ctxDone := True\<rparr>)"
      using s st by (simp add: control_ok_def counts_ok_def where_ok_def stop_ok_def)
    then have "control_ok ((s\<lparr>ts_ctxDone := True\<rparr>)\<lparr>ts_serve := Returned r\<rparr>)"
      by (rule control_ok_goto) (simp_all add: Draining st True)
    with True show ?thesis by (simp add: Tcp_Serve_def Draining)
  next
    case False
    then show ?thesis using assms by (simp add: Tcp_Serve_def Draining)
  qed
qed (use assms in \<open>simp_all add: Tcp_Serve_def\<close>)

lemma Tcp_Serve_begin_ok:
  assumes "control_ok s"
  shows "control_ok (snd (Tcp_Serve_begin s))"
proof (cases "ts_stopped s \<or> ts_serving s")
  case True
  then show ?thesis using assms by (auto simp: Tcp_Serve_begin_def)
next
  case False
  have s: "counts_ok s" "where_ok s" "stop_ok s" using assms by (simp_all add: control_ok_def)
  have h: "ts_heap s = []" and "ts_serve s = NotServing" using s(2) False by (simp_all add: where_ok_def)
  moreover have "phases s = []" using h by (simp add: phases_def)
  ultimately show ?thesis using s False
    by (simp add: Tcp_Serve_begin_def control_ok_def counts_ok_def where_ok_def stop_ok_def)
qed

lemma handler_close_ok:
  assumes "control_ok s" and i: "i < length (ts_heap s)"
  shows "control_ok (netConn_Close i s)"
proof -
  have s: "counts_ok s" "where_ok s" "stop_ok s" using assms by (simp_all add: control_ok_def)
  have c: "closeds s ! j \<Longrightarrow> closeds (netConn_Close i s) ! j" for j
    by (cases "j = i") (simp_all add: upd_conn_views i)
  have "counts_ok (netConn_Close i s)" using s(1) by (simp add: counts_ok_def upd_conn_views)
  moreover have "where_ok (netConn_Close i s)"
    using s(2) c unfolding where_ok_def by (simp add: upd_conn_views(5) length_0_conv [symmetric] del: length_0_conv)
  moreover have "stop_ok (netConn_Close i s)"
    using s(3) c unfolding stop_ok_def by (simp add: upd_conn_views(5))
  ultimately show ?thesis by (simp add: control_ok_def)
qed

lemma tcp_do_ok:
  assumes "control_ok s"
  shows "control_ok (res_state (tcp_do acq rel e s))"
proof (cases e)
  case (EvWait w)
  have "ts_draining s = ts_stopped s" using assms by (simp add: control_ok_def where_ok_def)
  then have "ts_serve s = Backoff \<Longrightarrow> (w = StopFires \<longrightarrow> ts_draining s) \<Longrightarrow> control_ok (accept_wait w s)"
    unfolding accept_wait_def by (intro control_ok_goto [OF assms]) (auto simp: Backoff_Wait_def split: wake.splits)
  then show ?thesis using assms EvWait by (simp add: tcp_do_def)
qed (use assms in \<open>simp_all add: tcp_do_def Tcp_Serve_begin_ok accept_conn_ok accept_error_ok Tcp_Serve_ok serveConn_ok
      handler_close_ok Tcp_Shutdown_begin_def Tcp_Shutdown_wait_def Let_def stopAccept_ok abortAll_ok\<close>)

section \<open>Who holds which slots\<close>

definition slots :: "ipaddr \<Rightarrow> tcpConn list \<Rightarrow> nat" where
  "slots k h = length (filter (\<lambda>c. tc_keyed c \<and> tc_ipKey c = k) h)"

definition perip_ok :: "'l tcpServer \<Rightarrow> bool" where
  "perip_ok s \<longleftrightarrow>
     (case ts_perIP s of
        None \<Rightarrow> (\<forall>i < length (ts_heap s). \<not> tc_keyed (ts_heap s ! i))
      | Some p \<Rightarrow> perkey_inv p \<and> (\<forall>k. perkey_held k p = slots k (ts_heap s)))"

definition key_ok :: "'l tcpServer \<Rightarrow> tcpConn \<Rightarrow> bool" where
  "key_ok s c \<longleftrightarrow>
     (tc_keyed c \<longrightarrow> tc_phase c \<in> insert PAdmit admitted) \<and>
     (ts_perIP s \<noteq> None \<and> tc_phase c \<in> insert PAdmit admitted \<longrightarrow> (tc_ipKey c, tc_keyed c) = ipKey (tc_addr c) (ts_v6bits s))"

definition admit_ok :: "('l \<Rightarrow> bool) \<Rightarrow> ('l \<Rightarrow> nat) \<Rightarrow> 'l tcpServer \<Rightarrow> bool" where
  "admit_ok linv held s \<longleftrightarrow>
     (case ts_admit s of None \<Rightarrow> True | Some l \<Rightarrow> linv l \<and> held l = num_in admitted (phases s))"

definition slots_ok :: "('l \<Rightarrow> bool) \<Rightarrow> ('l \<Rightarrow> nat) \<Rightarrow> 'l tcpServer \<Rightarrow> bool" where
  "slots_ok linv held s \<longleftrightarrow> admit_ok linv held s \<and> perip_ok s \<and> (\<forall>i < length (ts_heap s). key_ok s (ts_heap s ! i))"

lemma slots_update:
  "i < length h \<Longrightarrow> slots k (h[i := c]) + of_bool (tc_keyed (h ! i) \<and> tc_ipKey (h ! i) = k) =
     slots k h + of_bool (tc_keyed c \<and> tc_ipKey c = k)"
  unfolding slots_def by (rule length_filter_update)

lemma slots_pos: "i < length h \<Longrightarrow> tc_keyed (h ! i) \<Longrightarrow> 0 < slots (tc_ipKey (h ! i)) h"
  by (auto simp: slots_def filter_empty_conv intro: nth_mem)

text \<open>The configured limits, which no step changes.\<close>

definition limits :: "('l \<Rightarrow> nat) \<Rightarrow> 'l tcpServer \<Rightarrow> nat option \<times> i64 option \<times> int" where
  "limits cap s = (map_option cap (ts_admit s), map_option pk_max (ts_perIP s), ts_v6bits s)"

lemma releasePerIP_result:
  assumes "perip_ok s" and i: "i < length (ts_heap s)"
  obtains q where
    "releasePerIP i s = Ret () (s\<lparr>ts_perIP := q, ts_heap := (ts_heap s)[i := (ts_heap s ! i)\<lparr>tc_keyed := False\<rparr>]\<rparr>)"
    and "perip_ok (s\<lparr>ts_perIP := q, ts_heap := (ts_heap s)[i := (ts_heap s ! i)\<lparr>tc_keyed := False\<rparr>]\<rparr>)"
    and "map_option pk_max q = map_option pk_max (ts_perIP s)"
proof (cases "tc_keyed (ts_heap s ! i)")
  case False
  then have c: "(ts_heap s ! i)\<lparr>tc_keyed := False\<rparr> = ts_heap s ! i" by simp
  have "s\<lparr>ts_perIP := ts_perIP s, ts_heap := ts_heap s\<rparr> = s" by simp
  with that [of "ts_perIP s"] False assms(1) show thesis by (simp add: c releasePerIP_def)
next
  case True
  define k where "k = tc_ipKey (ts_heap s ! i)"
  obtain p where p: "ts_perIP s = Some p" using assms True by (auto simp: perip_ok_def split: option.splits)
  have inv: "perkey_inv p" and held: "\<And>k. perkey_held k p = slots k (ts_heap s)"
    using assms(1) p by (simp_all add: perip_ok_def)
  have "0 < perkey_held k p" using slots_pos [OF i True] held by (simp add: k_def)
  then obtain p' where p': "PerKey_Release k p = Ret () p'"
    using perkey.release_panics [OF inv, of k] by (cases "PerKey_Release k p") auto
  have "perkey_held j p' = slots j ((ts_heap s)[i := (ts_heap s ! i)\<lparr>tc_keyed := False\<rparr>])" for j
    using held [of j] slots_update [OF i, of j "(ts_heap s ! i)\<lparr>tc_keyed := False\<rparr>"] True
      perkey.release_counts [OF inv, of k] perkey_other_key(2) [of k j p] p'
    by (cases "j = k") (auto simp: k_def)
  moreover have "perkey_inv p'" using PerKey_Release_inv [OF inv, of k] p' by simp
  moreover have "pk_max p' = pk_max p" using perkey_max_frame(2) [of k p] p' by simp
  ultimately show thesis using that [of "Some p'"] True p p'
    by (simp add: releasePerIP_def upd_conn_def perip_ok_def k_def)
qed

lemma slots_ok_cong:
  assumes "ts_admit t = ts_admit s" "ts_perIP t = ts_perIP s" "ts_v6bits t = ts_v6bits s" "ts_heap t = ts_heap s"
  shows "slots_ok linv held t = slots_ok linv held s"
  unfolding slots_ok_def admit_ok_def perip_ok_def key_ok_def phases_def assms ..

lemma slots_ok_fields [simp]:
  "slots_ok linv held (s\<lparr>ts_conns := a\<rparr>) = slots_ok linv held s"
  "slots_ok linv held (s\<lparr>ts_accepted := b\<rparr>) = slots_ok linv held s"
  "slots_ok linv held (s\<lparr>ts_rejected := b\<rparr>) = slots_ok linv held s"
  "slots_ok linv held (s\<lparr>ts_active := b\<rparr>) = slots_ok linv held s"
  "slots_ok linv held (s\<lparr>ts_closed := b\<rparr>) = slots_ok linv held s"
  "slots_ok linv held (s\<lparr>ts_acceptErrors := b\<rparr>) = slots_ok linv held s"
  "slots_ok linv held (s\<lparr>ts_lastConnID := b\<rparr>) = slots_ok linv held s"
  "slots_ok linv held (s\<lparr>ts_serving := d\<rparr>) = slots_ok linv held s"
  "slots_ok linv held (s\<lparr>ts_ctxDone := d\<rparr>) = slots_ok linv held s"
  "slots_ok linv held (s\<lparr>ts_wg := n\<rparr>) = slots_ok linv held s"
  "slots_ok linv held (s\<lparr>ts_delay := b\<rparr>) = slots_ok linv held s"
  "slots_ok linv held (s\<lparr>ts_serve := pc\<rparr>) = slots_ok linv held s"
  "slots_ok linv held (stopAccept s) = slots_ok linv held s"
  by (rule slots_ok_cong; simp)+

lemma slots_ok_freed:
  assumes "slots_ok linv held s" and i: "i < length (ts_heap s)"
    and c: "\<not> tc_keyed c" "tc_phase c \<notin> insert PAdmit admitted"
    and q: "perip_ok (s\<lparr>ts_perIP := q, ts_heap := (ts_heap s)[i := (ts_heap s ! i)\<lparr>tc_keyed := False\<rparr>]\<rparr>)"
      "map_option pk_max q = map_option pk_max (ts_perIP s)"
    and l: "case l of None \<Rightarrow> True
      | Some l' \<Rightarrow> linv l' \<and> held l' + of_bool (phases s ! i \<in> admitted) = num_in admitted (phases s)"
  shows "slots_ok linv held (s\<lparr>ts_admit := l, ts_perIP := q, ts_heap := (ts_heap s)[i := c]\<rparr>)"
proof -
  let ?t = "s\<lparr>ts_admit := l, ts_perIP := q, ts_heap := (ts_heap s)[i := c]\<rparr>"
  have "slots k ((ts_heap s)[i := c]) = slots k ((ts_heap s)[i := (ts_heap s ! i)\<lparr>tc_keyed := False\<rparr>])" for k
    using slots_update [OF i, of k c] slots_update [OF i, of k "(ts_heap s ! i)\<lparr>tc_keyed := False\<rparr>"] c by simp
  then have "perip_ok ?t" using q(1) c(1) by (auto simp: perip_ok_def nth_list_update i split: option.splits)
  moreover have "phases ?t = (phases s)[i := tc_phase c]" by (simp add: phases_def map_update)
  then have "admit_ok linv held ?t"
    using l num_in_update [of i "phases s" admitted "tc_phase c"] i c(2) by (auto simp: admit_ok_def split: option.splits)
  moreover have "q = None \<longleftrightarrow> ts_perIP s = None" using q(2) by (cases q; cases "ts_perIP s") simp_all
  then have "key_ok ?t (ts_heap ?t ! j)" if "j < length (ts_heap ?t)" for j
    using assms(1) c that by (cases "j = i") (auto simp: slots_ok_def key_ok_def)
  ultimately show ?thesis by (simp add: slots_ok_def)
qed

text \<open>A connection that keeps its slots.\<close>

lemma slots_ok_kept:
  assumes "slots_ok linv held s" and i: "i < length (ts_heap s)"
    and c: "tc_keyed c = tc_keyed (ts_heap s ! i)" "tc_ipKey c = tc_ipKey (ts_heap s ! i)" "tc_addr c = tc_addr (ts_heap s ! i)"
      "tc_phase c = PAdmit \<or> tc_phase c \<in> admitted \<longleftrightarrow> phases s ! i = PAdmit \<or> phases s ! i \<in> admitted"
    and l: "case l of None \<Rightarrow> True
      | Some l' \<Rightarrow> linv l' \<and> held l' + of_bool (phases s ! i \<in> admitted) = num_in admitted (phases s) + of_bool (tc_phase c \<in> admitted)"
  shows "slots_ok linv held (s\<lparr>ts_admit := l, ts_heap := (ts_heap s)[i := c]\<rparr>)"
proof -
  let ?t = "s\<lparr>ts_admit := l, ts_heap := (ts_heap s)[i := c]\<rparr>"
  have "slots k ((ts_heap s)[i := c]) = slots k (ts_heap s)" for k using slots_update [OF i, of k c] c by simp
  then have "perip_ok ?t" using assms(1) c(1) i by (auto simp: slots_ok_def perip_ok_def nth_list_update split: option.splits)
  moreover have "phases ?t = (phases s)[i := tc_phase c]" by (simp add: phases_def map_update)
  then have "admit_ok linv held ?t"
    using l num_in_update [of i "phases s" admitted "tc_phase c"] i by (auto simp: admit_ok_def split: option.splits)
  moreover have "key_ok s (ts_heap s ! i)" using assms(1) i by (simp add: slots_ok_def)
  then have "key_ok ?t c" using c by (simp add: key_ok_def nth_phases [OF i])
  then have "key_ok ?t (ts_heap ?t ! j)" if "j < length (ts_heap ?t)" for j
    using assms(1) that by (cases "j = i") (auto simp: slots_ok_def key_ok_def)
  ultimately show ?thesis by (simp add: slots_ok_def)
qed

lemma slots_ok_upd:
  assumes "slots_ok linv held s" and i: "i < length (ts_heap s)"
    and "tc_keyed (f (ts_heap s ! i)) = tc_keyed (ts_heap s ! i)" "tc_ipKey (f (ts_heap s ! i)) = tc_ipKey (ts_heap s ! i)"
      "tc_addr (f (ts_heap s ! i)) = tc_addr (ts_heap s ! i)"
      "tc_phase (f (ts_heap s ! i)) = PAdmit \<longleftrightarrow> phases s ! i = PAdmit"
      "tc_phase (f (ts_heap s ! i)) \<in> admitted \<longleftrightarrow> phases s ! i \<in> admitted"
  shows "slots_ok linv held (upd_conn i f s)"
proof -
  have "slots_ok linv held (s\<lparr>ts_admit := ts_admit s, ts_heap := (ts_heap s)[i := f (ts_heap s ! i)]\<rparr>)"
    using assms by (intro slots_ok_kept) (auto simp: slots_ok_def admit_ok_def split: option.splits)
  then show ?thesis by (simp add: upd_conn_def)
qed

lemma limits_fields [simp]:
  "limits cap (s\<lparr>ts_conns := a\<rparr>) = limits cap s" "limits cap (s\<lparr>ts_accepted := b\<rparr>) = limits cap s"
  "limits cap (s\<lparr>ts_rejected := b\<rparr>) = limits cap s" "limits cap (s\<lparr>ts_active := b\<rparr>) = limits cap s"
  "limits cap (s\<lparr>ts_closed := b\<rparr>) = limits cap s" "limits cap (s\<lparr>ts_acceptErrors := b\<rparr>) = limits cap s"
  "limits cap (s\<lparr>ts_lastConnID := b\<rparr>) = limits cap s" "limits cap (s\<lparr>ts_serving := d\<rparr>) = limits cap s"
  "limits cap (s\<lparr>ts_ctxDone := d\<rparr>) = limits cap s" "limits cap (s\<lparr>ts_wg := n\<rparr>) = limits cap s"
  "limits cap (s\<lparr>ts_delay := b\<rparr>) = limits cap s" "limits cap (s\<lparr>ts_serve := pc\<rparr>) = limits cap s"
  "limits cap (stopAccept s) = limits cap s" "limits cap (abortAll s) = limits cap s"
  "limits cap (upd_conn i f s) = limits cap s" "limits cap (at_phase i p s) = limits cap s"
  "limits cap (netConn_Close i s) = limits cap s"
  by (simp_all add: limits_def)

text \<open>
  What the server needs of the limiter behind \<open>Admit\<close> is the contract of \<open>limit.Concurrency\<close>; the
  lemmas hold for every limiter with that contract.
\<close>

lemma at_phase_fields:
  "at_phase i p (s\<lparr>ts_conns := a\<rparr>) = (at_phase i p s)\<lparr>ts_conns := a\<rparr>"
  "at_phase i p (s\<lparr>ts_accepted := b\<rparr>) = (at_phase i p s)\<lparr>ts_accepted := b\<rparr>"
  "at_phase i p (s\<lparr>ts_rejected := b\<rparr>) = (at_phase i p s)\<lparr>ts_rejected := b\<rparr>"
  "at_phase i p (s\<lparr>ts_active := b\<rparr>) = (at_phase i p s)\<lparr>ts_active := b\<rparr>"
  "at_phase i p (s\<lparr>ts_closed := b\<rparr>) = (at_phase i p s)\<lparr>ts_closed := b\<rparr>"
  "at_phase i p (s\<lparr>ts_wg := n\<rparr>) = (at_phase i p s)\<lparr>ts_wg := n\<rparr>"
  "at_phase i p (s\<lparr>ts_serve := pc\<rparr>) = (at_phase i p s)\<lparr>ts_serve := pc\<rparr>"
  "netConn_Close i (s\<lparr>ts_rejected := b\<rparr>) = (netConn_Close i s)\<lparr>ts_rejected := b\<rparr>"
  "netConn_Close i (s\<lparr>ts_serve := pc\<rparr>) = (netConn_Close i s)\<lparr>ts_serve := pc\<rparr>"
  by (simp_all add: at_phase_def netConn_Close_def upd_conn_def)

lemma update_order:
  "c\<lparr>tc_closed := b, tc_phase := p\<rparr> = c\<lparr>tc_phase := p, tc_closed := b\<rparr>"
  "c\<lparr>tc_keyed := b, tc_phase := p\<rparr> = c\<lparr>tc_phase := p, tc_keyed := b\<rparr>"
  "s\<lparr>ts_heap := h, ts_perIP := q\<rparr> = s\<lparr>ts_perIP := q, ts_heap := h\<rparr>"
  "s\<lparr>ts_heap := h, ts_admit := l\<rparr> = s\<lparr>ts_admit := l, ts_heap := h\<rparr>"
  by simp_all

lemma phase_close_commute: "at_phase i p (netConn_Close i s) = netConn_Close i (at_phase i p s)"
  by (cases "i < length (ts_heap s)") (simp_all add: at_phase_def netConn_Close_def upd_conn_def list_update_beyond update_order)

lemma tcp_release_phase:
  assumes "tcp_release rel i s = Ret () u" and i: "i < length (ts_heap s)"
  shows "tcp_release rel i (at_phase i p s) = Ret () (at_phase i p u)"
proof -
  have r: "releasePerIP i (at_phase i p s) = Ret () (at_phase i p u)" if "releasePerIP i s = Ret () u" "i < length (ts_heap s)"
    for s u :: "'a tcpServer"
    using that
    by (auto simp: releasePerIP_def Let_def at_phase_def upd_conn_def update_order split: if_splits option.splits res.splits)
  then show ?thesis using assms r [of "s\<lparr>ts_admit := Some x\<rparr>" u for x]
    by (auto simp: tcp_release_def at_phase_def upd_conn_def update_order split: option.splits res.splits)
qed

lemma slots_ok_close:
  "slots_ok linv held s \<Longrightarrow> i < length (ts_heap s) \<Longrightarrow> slots_ok linv held (netConn_Close i s)"
  unfolding netConn_Close_def by (rule slots_ok_upd) (simp_all add: nth_phases)

lemma slots_ok_abortAll: "slots_ok linv held s \<Longrightarrow> slots_ok linv held (abortAll s)"
proof -
  assume s: "slots_ok linv held s"
  have h: "ts_heap (abortAll s) ! i =
      (if i \<in> ts_conns s then (ts_heap s ! i)\<lparr>tc_closed := True\<rparr> else ts_heap s ! i)"
    if "i < length (ts_heap s)" for i
    using that by (simp add: abortAll_def close_conns_def)
  have "slots k (ts_heap (abortAll s)) = slots k (ts_heap s)" for k
    unfolding slots_def length_filter_conv_card by (rule arg_cong [of _ _ card]) (auto simp: h split: if_splits)
  then show ?thesis using s h
    by (auto simp: slots_ok_def admit_ok_def perip_ok_def key_ok_def split: option.splits)
qed

lemma slots_snoc: "slots k (h @ [c]) = slots k h + of_bool (tc_keyed c \<and> tc_ipKey c = k)"
  by (simp add: slots_def)

lemma slots_ok_snoc:
  assumes s: "slots_ok linv held s" and c: "tc_phase c \<notin> admitted" "key_ok t c"
    and t: "ts_heap t = ts_heap s @ [c]" "ts_admit t = ts_admit s" "ts_v6bits t = ts_v6bits s"
    and p: "case ts_perIP t of None \<Rightarrow> ts_perIP s = None \<and> \<not> tc_keyed c
      | Some p' \<Rightarrow> perkey_inv p' \<and> (\<exists>p. ts_perIP s = Some p \<and>
          (\<forall>k. perkey_held k p' = perkey_held k p + of_bool (tc_keyed c \<and> tc_ipKey c = k)))"
  shows "slots_ok linv held t"
proof -
  have "phases t = phases s @ [tc_phase c]" by (simp add: phases_def t)
  then have "admit_ok linv held t"
    using s c(1) by (simp add: slots_ok_def admit_ok_def t cong: option.case_cong)
  moreover have "perip_ok t"
    using s p by (auto simp: slots_ok_def perip_ok_def t slots_snoc nth_append less_Suc_eq split: option.splits)
  moreover have "ts_perIP t = None \<longleftrightarrow> ts_perIP s = None" using p by (auto split: option.splits)
  then have "key_ok t (ts_heap t ! i)" if "i < length (ts_heap t)" for i
    using s c(2) that by (cases "i = length (ts_heap s)") (auto simp: slots_ok_def key_ok_def t nth_append)
  ultimately show ?thesis by (simp add: slots_ok_def)
qed

lemma accept_conn_slots:
  assumes s: "slots_ok linv held s"
  shows "slots_ok linv held (accept_conn a s) \<and> limits cap (accept_conn a s) = limits cap s"
proof (cases "ts_perIP s")
  case None
  let ?c = "\<lparr>tc_addr = a, tc_id = 0, tc_ipKey = Addr0, tc_keyed = False, tc_closed = False, tc_phase = PAdmit\<rparr>"
  have "slots_ok linv held (accept_conn a s)"
    by (rule slots_ok_snoc [OF s, where c = ?c]) (simp_all add: None accept_conn_def key_ok_def in_phases)
  then show ?thesis by (simp add: None accept_conn_def limits_def)
next
  case (Some p)
  obtain k kd where k: "ipKey a (ts_v6bits s) = (k, kd)" by fastforce
  have inv: "perkey_inv p" using s Some by (simp add: slots_ok_def perip_ok_def)
  let ?p = "if kd then snd (PerKey_TryAcquire k p) else p"
  let ?ok = "kd \<longrightarrow> fst (PerKey_TryAcquire k p)"
  let ?c = "\<lparr>tc_addr = a, tc_id = 0, tc_ipKey = k, tc_keyed = (kd \<and> ?ok), tc_closed = (\<not> ?ok),
    tc_phase = (if ?ok then PAdmit else PRejectedPerIP)\<rparr>"
  have t: "ts_heap (accept_conn a s) = ts_heap s @ [?c]" "ts_admit (accept_conn a s) = ts_admit s"
    "ts_v6bits (accept_conn a s) = ts_v6bits s" "ts_perIP (accept_conn a s) = Some ?p"
    by (cases "PerKey_TryAcquire k p"; cases kd; simp add: accept_conn_def Some k Let_def)+
  have "perkey_inv ?p" using inv by (simp add: PerKey_TryAcquire_inv)
  moreover have "perkey_held j ?p = perkey_held j p + of_bool (tc_keyed ?c \<and> tc_ipKey ?c = j)" for j
    using perkey.try_counts [OF inv, of k] perkey_other_key(1) [of k j p] by (cases "j = k") auto
  ultimately have "slots_ok linv held (accept_conn a s)"
    by (intro slots_ok_snoc [OF s _ _ t(1-3)]) (auto simp: t Some key_ok_def k in_phases)
  moreover have "pk_max ?p = pk_max p" by simp
  ultimately show ?thesis by (simp add: limits_def t Some)
qed

locale admission = permit_limiter acq rel linv held cap
  for acq :: "'l \<Rightarrow> bool \<times> 'l" and rel :: "'l \<Rightarrow> (unit, 'l) res" and linv :: "'l \<Rightarrow> bool"
    and held :: "'l \<Rightarrow> nat" and cap :: "'l \<Rightarrow> nat"
begin

lemma tcp_release_result:
  assumes "perip_ok s" and i: "i < length (ts_heap s)"
    and l: "\<And>l. ts_admit s = Some l \<Longrightarrow> linv l \<and> 0 < held l"
  obtains l q where "tcp_release rel i s =
      Ret () (s\<lparr>ts_admit := l, ts_perIP := q, ts_heap := (ts_heap s)[i := (ts_heap s ! i)\<lparr>tc_keyed := False\<rparr>]\<rparr>)"
    and "perip_ok (s\<lparr>ts_perIP := q, ts_heap := (ts_heap s)[i := (ts_heap s ! i)\<lparr>tc_keyed := False\<rparr>]\<rparr>)"
    and "map_option pk_max q = map_option pk_max (ts_perIP s)" and "map_option cap l = map_option cap (ts_admit s)"
    and "case l of None \<Rightarrow> True | Some l' \<Rightarrow> linv l' \<and> (\<forall>l0. ts_admit s = Some l0 \<longrightarrow> Suc (held l') = held l0)"
proof -
  define l' where "l' = map_option (\<lambda>l0. res_state (rel l0)) (ts_admit s)"
  have ok: "\<not> panics (rel l0)" if "ts_admit s = Some l0" for l0
    using l [OF that] release_panics [of l0] by simp
  have rel: "tcp_release rel i s = releasePerIP i (s\<lparr>ts_admit := l'\<rparr>)"
  proof (cases "ts_admit s")
    case None
    then have "s\<lparr>ts_admit := l'\<rparr> = s" by (simp add: l'_def)
    with None show ?thesis by (simp add: tcp_release_def)
  next
    case (Some l0)
    with ok [OF Some] show ?thesis by (cases "rel l0") (simp_all add: tcp_release_def l'_def)
  qed
  have "case l' of None \<Rightarrow> True | Some l1 \<Rightarrow> linv l1 \<and> (\<forall>l0. ts_admit s = Some l0 \<longrightarrow> Suc (held l1) = held l0)"
    and c: "map_option cap l' = map_option cap (ts_admit s)"
    using l release_keeps release_counts by (cases "ts_admit s"; simp add: l'_def)+
  moreover let ?u = "s\<lparr>ts_admit := l'\<rparr>"
  have "perip_ok ?u" "i < length (ts_heap ?u)" using assms(1) i by (simp_all add: perip_ok_def cong: option.case_cong)
  then obtain q where
    "releasePerIP i ?u = Ret () (?u\<lparr>ts_perIP := q, ts_heap := (ts_heap ?u)[i := (ts_heap ?u ! i)\<lparr>tc_keyed := False\<rparr>]\<rparr>)"
    "perip_ok (?u\<lparr>ts_perIP := q, ts_heap := (ts_heap ?u)[i := (ts_heap ?u ! i)\<lparr>tc_keyed := False\<rparr>]\<rparr>)"
    "map_option pk_max q = map_option pk_max (ts_perIP ?u)"
    by (rule releasePerIP_result)
  ultimately show thesis using that [where l = l' and q = q] rel by (simp add: perip_ok_def cong: option.case_cong)
qed

text \<open>A connection gives its slots back and goes to a phase in which it holds none.\<close>

lemma released_slots:
  assumes s: "slots_ok linv held s" and i: "i < length (ts_heap s)" and a: "phases s ! i \<in> admitted"
  obtains u where "tcp_release rel i s = Ret () u" and "length (ts_heap u) = length (ts_heap s)"
    and "limits cap u = limits cap s" and "\<forall>p. p \<notin> insert PAdmit admitted \<longrightarrow> slots_ok linv held (at_phase i p u)"
proof -
  have "0 < num_in admitted (phases s)" using num_in_pos [of i "phases s"] i a by simp
  then have l: "ts_admit s = Some l \<Longrightarrow> linv l \<and> 0 < held l" for l
    using s by (simp add: slots_ok_def admit_ok_def)
  have p: "perip_ok s" using s by (simp add: slots_ok_def)
  obtain l q where r: "tcp_release rel i s =
      Ret () (s\<lparr>ts_admit := l, ts_perIP := q, ts_heap := (ts_heap s)[i := (ts_heap s ! i)\<lparr>tc_keyed := False\<rparr>]\<rparr>)"
    and q: "perip_ok (s\<lparr>ts_perIP := q, ts_heap := (ts_heap s)[i := (ts_heap s ! i)\<lparr>tc_keyed := False\<rparr>]\<rparr>)"
      "map_option pk_max q = map_option pk_max (ts_perIP s)" and m: "map_option cap l = map_option cap (ts_admit s)"
    and h: "case l of None \<Rightarrow> True | Some l' \<Rightarrow> linv l' \<and> (\<forall>l0. ts_admit s = Some l0 \<longrightarrow> Suc (held l') = held l0)"
    by (rule tcp_release_result [OF p i l])
  have d: "case l of None \<Rightarrow> True | Some l' \<Rightarrow> linv l' \<and> held l' + of_bool (phases s ! i \<in> admitted) = num_in admitted (phases s)"
    using h m s a by (cases l; cases "ts_admit s") (simp_all add: slots_ok_def admit_ok_def)
  show thesis
  proof (rule that [OF r])
    have "slots_ok linv held (at_phase i p
        (s\<lparr>ts_admit := l, ts_perIP := q, ts_heap := (ts_heap s)[i := (ts_heap s ! i)\<lparr>tc_keyed := False\<rparr>]\<rparr>))"
      if "p \<notin> insert PAdmit admitted" for p
      using slots_ok_freed [OF s i _ _ q d, of "(ts_heap s ! i)\<lparr>tc_keyed := False, tc_phase := p\<rparr>"] that
      by (simp add: at_phase_def upd_conn_def i)
    then show "\<forall>p. p \<notin> insert PAdmit admitted \<longrightarrow> slots_ok linv held (at_phase i p
        (s\<lparr>ts_admit := l, ts_perIP := q, ts_heap := (ts_heap s)[i := (ts_heap s ! i)\<lparr>tc_keyed := False\<rparr>]\<rparr>))"
      by blast
  qed (simp_all add: limits_def q(2) m)
qed

lemma serveConn_slots:
  assumes "control_ok s" and s: "slots_ok linv held s" and i: "i < length (ts_heap s)"
  shows "\<not> panics (serveConn rel i s) \<and> slots_ok linv held (res_state (serveConn rel i s)) \<and>
    limits cap (res_state (serveConn rel i s)) = limits cap s"
proof (cases "phases s ! i = PRelease")
  case True
  then have "phases s ! i \<in> admitted" by (simp add: in_phases)
  then obtain u where u: "tcp_release rel i s = Ret () u" and "length (ts_heap u) = length (ts_heap s)"
    and "limits cap u = limits cap s"
    and "\<forall>p. p \<notin> insert PAdmit admitted \<longrightarrow> slots_ok linv held (at_phase i p u)"
    by (rule released_slots [OF s i])
  then show ?thesis using True by (simp add: serveConn_def nth_phases [OF i] tcp_release_phase [OF u i] in_phases)
next
  case False
  have "phases s ! i = PDone \<Longrightarrow> 0 < ts_wg s"
    using assms(1) i num_in_pos [of i "phases s" running] by (simp add: control_ok_def counts_ok_def in_phases)
  moreover have n: "slots_ok linv held (at_phase i (next_phase (phases s ! i)) s)"
    unfolding at_phase_def using False
    by (intro slots_ok_upd [OF s i]; cases "phases s ! i") (simp_all add: in_phases)
  moreover have "slots_ok linv held (netConn_Close i (at_phase i (next_phase (phases s ! i)) s))"
    unfolding netConn_Close_def by (rule slots_ok_upd [OF n]) (simp_all add: i nth_phases)
  ultimately show ?thesis using False s
    by (cases "phases s ! i")
       (simp_all add: serveConn_def nth_phases [OF i] untrack_conns_def untrack_active_def untrack_closed_def wg_Done_def
         at_phase_fields phase_close_commute)
qed

lemma accept_track_slots:
  assumes s: "slots_ok linv held s" and i: "i < length (ts_heap s)" and p: "phases s ! i = PTrack"
  shows "\<not> panics (accept_track rel i s) \<and> slots_ok linv held (res_state (accept_track rel i s)) \<and>
    limits cap (res_state (accept_track rel i s)) = limits cap s"
proof -
  have "slots_ok linv held (at_phase i PCount s)"
    unfolding at_phase_def by (rule slots_ok_upd [OF s i]) (simp_all add: p in_phases)
  moreover have "phases s ! i \<in> admitted" using p by (simp add: in_phases)
  then obtain u where "tcp_release rel i s = Ret () u" and "length (ts_heap u) = length (ts_heap s)"
    and "limits cap u = limits cap s"
    and "\<forall>p. p \<notin> insert PAdmit admitted \<longrightarrow> slots_ok linv held (at_phase i p u)"
    by (rule released_slots [OF s i])
  moreover from this(2,4) i have "slots_ok linv held (netConn_Close i (at_phase i PRefused u))"
    by (simp add: slots_ok_close in_phases)
  ultimately show ?thesis by (simp add: accept_track_def track_def at_phase_fields phase_close_commute)
qed

lemma accept_admit_slots:
  assumes s: "slots_ok linv held s" and i: "i < length (ts_heap s)" and p: "phases s ! i = PAdmit"
  shows "\<not> panics (accept_admit acq i s) \<and> slots_ok linv held (res_state (accept_admit acq i s)) \<and>
    limits cap (res_state (accept_admit acq i s)) = limits cap s"
proof -
  define l where "l = map_option (\<lambda>l. snd (acq l)) (ts_admit s)"
  define ok where "ok = (case ts_admit s of None \<Rightarrow> True | Some l \<Rightarrow> fst (acq l))"
  define u where "u = s\<lparr>ts_admit := l\<rparr>"
  have lim: "limits cap u = limits cap s" and len: "length (ts_heap u) = length (ts_heap s)" and ph: "phases u = phases s"
    using s try_keeps by (auto simp: u_def l_def limits_def slots_ok_def admit_ok_def split: option.splits)
  have eq: "accept_admit acq i s =
      (if \<not> ok then (case releasePerIP i u of Panic m t \<Rightarrow> Panic m t | Ret x t \<Rightarrow> Ret () (rejected_conn i t))
       else Ret () (at_phase i PTrack (upd_conn i (\<lambda>c. c\<lparr>tc_id := ts_lastConnID u + 1\<rparr>) (u\<lparr>ts_lastConnID := ts_lastConnID u + 1\<rparr>))))"
  proof (cases "ts_admit s")
    case None
    then have "u = s" by (simp add: u_def l_def)
    with None show ?thesis by (simp add: accept_admit_def ok_def)
  next
    case (Some l0)
    then show ?thesis
      by (simp add: accept_admit_def u_def l_def ok_def rejected_conn_def case_prod_beta split: res.splits)
  qed
  have linv: "case l of None \<Rightarrow> True | Some l' \<Rightarrow> linv l' \<and> held l' = num_in admitted (phases s) + of_bool ok"
    using s try_keeps try_counts by (cases "ts_admit s") (auto simp: l_def ok_def slots_ok_def admit_ok_def)
  show ?thesis
  proof (cases ok)
    case True
    let ?c = "(ts_heap s ! i)\<lparr>tc_id := ts_lastConnID u + 1, tc_phase := PTrack\<rparr>"
    have "slots_ok linv held (s\<lparr>ts_admit := l, ts_heap := (ts_heap s)[i := ?c]\<rparr>)"
      using linv p True by (intro slots_ok_kept [OF s i]) (simp_all add: in_phases cong: option.case_cong)
    moreover have "at_phase i PTrack (upd_conn i (\<lambda>c. c\<lparr>tc_id := ts_lastConnID u + 1\<rparr>) (u\<lparr>ts_lastConnID := ts_lastConnID u + 1\<rparr>)) =
        (s\<lparr>ts_admit := l, ts_heap := (ts_heap s)[i := ?c]\<rparr>)\<lparr>ts_lastConnID := ts_lastConnID u + 1\<rparr>"
      by (simp add: at_phase_def upd_conn_def u_def i)
    ultimately show ?thesis using True lim by (simp add: eq) (simp add: limits_def u_def)
  next
    case False
    have "perip_ok u" using s by (simp add: slots_ok_def perip_ok_def u_def cong: option.case_cong)
    moreover have "i < length (ts_heap u)" using i len by simp
    ultimately obtain q where r: "releasePerIP i u =
        Ret () (u\<lparr>ts_perIP := q, ts_heap := (ts_heap u)[i := (ts_heap u ! i)\<lparr>tc_keyed := False\<rparr>]\<rparr>)"
      and q: "perip_ok (u\<lparr>ts_perIP := q, ts_heap := (ts_heap u)[i := (ts_heap u ! i)\<lparr>tc_keyed := False\<rparr>]\<rparr>)"
        "map_option pk_max q = map_option pk_max (ts_perIP u)"
      by (rule releasePerIP_result)
    let ?c = "(ts_heap s ! i)\<lparr>tc_keyed := False, tc_closed := True, tc_phase := PRejected\<rparr>"
    have "slots_ok linv held (s\<lparr>ts_admit := l, ts_perIP := q, ts_heap := (ts_heap s)[i := ?c]\<rparr>)"
      using q linv p False
      by (intro slots_ok_freed [OF s i]) (simp_all add: in_phases u_def perip_ok_def cong: option.case_cong)
    then show ?thesis using False lim q(2) i
      by (simp add: eq r rejected_conn_def at_phase_fields) (simp add: at_phase_def netConn_Close_def upd_conn_def u_def limits_def)
  qed
qed

lemma acceptLoop_slots:
  assumes "control_ok s" and s: "slots_ok linv held s" and a: "ts_serve s = Admitting i"
  shows "\<not> panics (acceptLoop acq rel i s) \<and> slots_ok linv held (res_state (acceptLoop acq rel i s)) \<and>
    limits cap (res_state (acceptLoop acq rel i s)) = limits cap s"
proof -
  have i: "i < length (ts_heap s)" and p: "phases s ! i \<in> accepting"
    using where_okD(2) [of s i] assms(1) a by (auto simp: control_ok_def)
  have "slots_ok linv held (at_phase i q s)" if "q \<in> admitted" "phases s ! i \<in> admitted" for q
    unfolding at_phase_def using that by (intro slots_ok_upd [OF s i]) (auto simp: in_phases)
  then show ?thesis using accept_admit_slots [OF s i] accept_track_slots [OF s i] p
    by (cases "phases s ! i") (simp_all add: in_phases acceptLoop_def nth_phases [OF i] at_phase_fields)
qed

lemma tcp_do_slots:
  assumes "control_ok s" and s: "slots_ok linv held s"
  shows "\<not> panics (tcp_do acq rel e s) \<and> slots_ok linv held (res_state (tcp_do acq rel e s)) \<and>
    limits cap (res_state (tcp_do acq rel e s)) = limits cap s"
proof (cases e)
  case EvLoop
  then show ?thesis using s acceptLoop_slots [OF assms]
    by (cases "ts_serve s") (simp_all add: tcp_do_def Tcp_Serve_def slots_ok_abortAll)
next
  case (EvConn i)
  then show ?thesis using s serveConn_slots [OF assms] by (simp add: tcp_do_def)
next
  case (EvHandlerClose i)
  then show ?thesis using s by (simp add: tcp_do_def slots_ok_close)
qed (use s in \<open>simp_all add: tcp_do_def Tcp_Serve_begin_def accept_conn_slots accept_error_def accept_wait_def
      Tcp_Shutdown_begin_def Tcp_Shutdown_wait_def Let_def slots_ok_abortAll\<close>)

end

text \<open>The invariant of every run: control, slots and limits.\<close>

definition tcp_inv :: "('l \<Rightarrow> bool) \<Rightarrow> ('l \<Rightarrow> nat) \<Rightarrow> ('l \<Rightarrow> nat) \<Rightarrow> nat option \<times> i64 option \<times> int \<Rightarrow> 'l tcpServer \<Rightarrow> bool" where
  "tcp_inv linv held cap lims s \<longleftrightarrow> control_ok s \<and> slots_ok linv held s \<and> limits cap s = lims"

sublocale admission \<subseteq> running: op_invariant "tcp_step acq rel" "tcp_inv linv held cap lims" for lims
  by unfold_locales (simp add: tcp_inv_def tcp_step_def tcp_do_ok tcp_do_slots)

context admission
begin

lemma run_no_panic: "tcp_inv linv held cap lims s \<Longrightarrow> True \<notin> set (fst (run_ops (tcp_step acq rel) es s))"
proof (induction es arbitrary: s)
  case (Cons e es)
  then have "\<not> fst (tcp_step acq rel e s)" by (simp add: tcp_step_def tcp_inv_def tcp_do_slots)
  with Cons.IH [OF running.step_inv [OF Cons.prems]] show ?case by auto
qed simp

text \<open>What the invariant says in terms of the limits.\<close>

lemma inv_bounds:
  assumes "tcp_inv linv held cap (la, lp, v6) s"
  shows "\<forall>n. la = Some n \<longrightarrow> num_in admitted (phases s) \<le> n"
    and "\<forall>m k. lp = Some m \<longrightarrow>
      length (filter (\<lambda>c. tc_phase c \<in> admitted \<and> ipKey (tc_addr c) v6 = (k, True)) (ts_heap s)) \<le> nat (sint m)"
proof -
  have s: "slots_ok linv held s" and lims: "limits cap s = (la, lp, v6)" using assms by (simp_all add: tcp_inv_def)
  show "\<forall>n. la = Some n \<longrightarrow> num_in admitted (phases s) \<le> n"
    using s lims held_le_cap by (auto simp: slots_ok_def admit_ok_def limits_def) (metis)
  have "length (filter (\<lambda>c. tc_phase c \<in> admitted \<and> ipKey (tc_addr c) v6 = (k, True)) (ts_heap s)) \<le> slots k (ts_heap s)"
    if "ts_perIP s \<noteq> None" for k
    using s lims that unfolding slots_def length_filter_conv_card
    by (intro card_mono) (auto simp: slots_ok_def key_ok_def limits_def)
  then show "\<forall>m k. lp = Some m \<longrightarrow>
      length (filter (\<lambda>c. tc_phase c \<in> admitted \<and> ipKey (tc_addr c) v6 = (k, True)) (ts_heap s)) \<le> nat (sint m)"
    using s lims perkey_held_le by (fastforce simp: slots_ok_def perip_ok_def limits_def intro: order.trans)
qed

end

interpretation conc_admission: admission Concurrency_TryAcquire Concurrency_Release concurrency_inv concurrency_held
    "\<lambda>c. nat (sint (c_max c))"
  by unfold_locales

lemma Tcp_NewServer_inv:
  assumes "Tcp_NewServer nilLn nilHandler opts lastID = Inr s0"
    and "\<And>l. to_Admit opts = Some l \<Longrightarrow> linv l \<and> held l = 0"
  shows "tcp_inv linv held cap
    (map_option cap (to_Admit opts),
     if 0 < sint (to_MaxConnsPerIP opts) then Some (to_MaxConnsPerIP opts) else None,
     if 0 < sint (to_MaxConnsPerIP opts) then (if to_IPv6PrefixBits opts = 0 then 64 else to_IPv6PrefixBits opts) else 0) s0"
proof -
  have s0: "ts_heap s0 = []" "ts_conns s0 = {}" "ts_serve s0 = NotServing" "\<not> ts_serving s0" "\<not> ts_stopped s0" "\<not> ts_ctxDone s0"
    "\<not> ts_lnClosed s0" "\<not> ts_draining s0" "ts_wg s0 = 0" "ts_accepted s0 = 0" "ts_rejected s0 = 0" "ts_rejectedPerIP s0 = 0"
    "ts_active s0 = 0" "ts_closed s0 = 0" "ts_admit s0 = to_Admit opts"
    "ts_perIP s0 = (if 0 < sint (to_MaxConnsPerIP opts) then Some \<lparr>pk_max = to_MaxConnsPerIP opts, pk_n = fmempty\<rparr> else None)"
    "ts_v6bits s0 = (if 0 < sint (to_MaxConnsPerIP opts) then (if to_IPv6PrefixBits opts = 0 then 64 else to_IPv6PrefixBits opts) else 0)"
    using assms(1) by (auto simp: Tcp_NewServer_def Let_def NewPerKey_def split: if_splits)
  have p: "phases s0 = []" using s0(1) by (simp add: phases_def)
  have "control_ok s0" by (simp add: control_ok_def counts_ok_def where_ok_def stop_ok_def s0 p)
  moreover have "slots_ok linv held s0" using assms(2)
    by (auto simp: slots_ok_def admit_ok_def perip_ok_def s0 p slots_def perkey_inv_def perkey_held_def map_get_def split: option.splits)
  ultimately show ?thesis by (simp add: tcp_inv_def limits_def s0)
qed

lemma fresh_concurrency:
  "NewConcurrency mx = Ret c () \<Longrightarrow> concurrency_inv c \<and> concurrency_held c = 0"
  by (auto dest!: NewConcurrency_inv simp: concurrency_held_def)

lemma conc_run:
  assumes new: "Tcp_NewServer nilLn nilHandler opts lastID = Inr s0"
    and fresh: "\<forall>c. to_Admit opts = Some c \<longrightarrow> (\<exists>mx. NewConcurrency mx = Ret c ())"
    and run: "run_ops (tcp_step Concurrency_TryAcquire Concurrency_Release) es s0 = (panicked, s)"
  shows "\<exists>lp v6. lp = (if 0 < sint (to_MaxConnsPerIP opts) then Some (to_MaxConnsPerIP opts) else None) \<and>
    tcp_inv concurrency_inv concurrency_held (\<lambda>c. nat (sint (c_max c)))
      (map_option (\<lambda>c. nat (sint (c_max c))) (to_Admit opts), lp, v6) s \<and> True \<notin> set panicked"
proof -
  let ?cap = "\<lambda>c. nat (sint (c_max c))"
  obtain lp v6 where i0: "tcp_inv concurrency_inv concurrency_held ?cap (map_option ?cap (to_Admit opts), lp, v6) s0"
    and lp: "lp = (if 0 < sint (to_MaxConnsPerIP opts) then Some (to_MaxConnsPerIP opts) else None)"
    using Tcp_NewServer_inv [OF new] fresh fresh_concurrency by blast
  from conc_admission.run_no_panic [OF i0, of es] conc_admission.running.run_inv [OF i0, of es] run lp show ?thesis by auto
qed

lemma returned_all_closed:
  assumes i: "tcp_inv concurrency_inv concurrency_held cap lims s" and ret: "ts_serve s = Returned r"
  shows "ts_stopped s \<and> ts_lnClosed s \<and> ts_draining s \<and> ts_ctxDone s \<and> ts_conns s = {} \<and>
    (\<forall>c \<in> set (ts_heap s). tc_closed c \<and> tc_phase c \<in> {PGone, PRejectedPerIP, PRejected, PRefused}) \<and>
    (\<forall>c. ts_admit s = Some c \<longrightarrow> c_inUse c = 0) \<and> (\<forall>p. ts_perIP s = Some p \<longrightarrow> PerKey_Keys p = 0) \<and>
    st_Active (Tcp_Stats s) = 0 \<and> st_Accepted (Tcp_Stats s) = st_Closed (Tcp_Stats s)"
proof -
  have c: "counts_ok s" "where_ok s" "stop_ok s" and sl: "slots_ok concurrency_inv concurrency_held s"
    using i by (simp_all add: tcp_inv_def control_ok_def)
  have stopped: "ts_stopped s" "ts_ctxDone s" "ts_wg s = 0" using c(3) ret by (simp_all add: stop_ok_def)
  have gone: "phases s ! j \<in> {PGone, PRejectedPerIP, PRejected, PRefused}" if j: "j < length (ts_heap s)" for j
  proof -
    have "phases s ! j \<notin> running" using c(1) stopped(3) j by (simp add: counts_ok_def num_in_0)
    moreover have "phases s ! j \<notin> accepting" using where_okD(2) [OF c(2), of j] ret j by simp
    ultimately show ?thesis by (cases "phases s ! j") (simp_all add: in_phases)
  qed
  then have none: "num_in S (phases s) = 0" if "S \<inter> {PGone, PRejectedPerIP, PRejected, PRefused} = {}" for S
    using that by (fastforce simp: num_in_0)
  have same: "num_in was_accepted (phases s) = num_in is_closed (phases s)"
    unfolding num_in_def
  proof (intro arg_cong [of _ _ length] filter_cong refl)
    fix p assume "p \<in> set (phases s)"
    then have "p \<in> {PGone, PRejectedPerIP, PRejected, PRefused}" using gone by (metis in_set_conv_nth length_closeds(2))
    then show "p \<in> was_accepted \<longleftrightarrow> p \<in> is_closed" by (auto simp: in_phases)
  qed
  have closed: "tc_closed x \<and> tc_phase x \<in> {PGone, PRejectedPerIP, PRejected, PRefused}" if "x \<in> set (ts_heap s)" for x
    using that gone where_okD(3) [OF c(2)] by (fastforce simp: in_set_conv_nth phases_def closeds_def in_phases)
  have free: "slots k (ts_heap s) = 0" for k
    using sl closed by (fastforce simp: slots_def slots_ok_def key_ok_def in_phases in_set_conv_nth filter_empty_conv)
  have "PerKey_Keys p = 0" if "ts_perIP s = Some p" for p
    using sl that free by (simp add: slots_ok_def perip_ok_def PerKey_Keys_eq)
  moreover have "c_inUse x = 0" if "ts_admit s = Some x" for x
    using sl that none [of admitted]
    by (auto simp: slots_ok_def admit_ok_def concurrency_inv_def concurrency_held_def phase_sets signed_eq_0_iff)
  moreover have "ts_conns s = {}" using where_okD(1) [OF c(2)] gone by (fastforce simp: in_phases)
  ultimately show ?thesis
    using stopped closed c(1,2) none [of is_active] same
    by (simp add: where_ok_def counts_ok_def Tcp_Stats_def Counter_Load_def phase_sets)
qed

section \<open>Properties\<close>

text \<open>
  C2: For every interleaving of the accept loop, the connections' goroutines, the handlers and any
  callers of Shutdown and Close, from a new server with a new Concurrency limiter (or none): no step
  panics; the permits in use are exactly the connections between their admission and their release,
  never more than the limiter's maximum; no client key has more than MaxConnsPerIP such connections;
  and Stats counts the connections by where they are.
\<close>

theorem slots_are_bounded_and_counted:
  assumes new: "Tcp_NewServer nilLn nilHandler opts lastID = Inr s0"
    and fresh: "\<forall>c. to_Admit opts = Some c \<longrightarrow> (\<exists>mx. NewConcurrency mx = Ret c ())"
    and run: "run_ops (tcp_step Concurrency_TryAcquire Concurrency_Release) es s0 = (panicked, s)"
  shows "True \<notin> set panicked \<and>
    (\<forall>c0 c. to_Admit opts = Some c0 \<and> ts_admit s = Some c \<longrightarrow>
      sint (c_inUse c) = int (num_in admitted (phases s)) \<and> int (num_in admitted (phases s)) \<le> sint (c_max c0)) \<and>
    (\<forall>k. 0 < sint (to_MaxConnsPerIP opts) \<longrightarrow>
      int (length (filter (\<lambda>c. tc_phase c \<in> admitted \<and> ipKey (tc_addr c) (ts_v6bits s) = (k, True)) (ts_heap s)))
        \<le> sint (to_MaxConnsPerIP opts)) \<and>
    Tcp_Stats s =
      \<lparr>st_Accepted = of_nat (num_in was_accepted (phases s)), st_Rejected = of_nat (num_in {PRejected} (phases s)),
       st_RejectedPerIP = of_nat (num_in {PRejectedPerIP} (phases s)), st_Active = of_nat (num_in is_active (phases s)),
       st_Closed = of_nat (num_in is_closed (phases s)), st_AcceptErrors = ts_acceptErrors s\<rparr>"
proof (intro conjI allI impI)
  obtain lp v6 where lp: "lp = (if 0 < sint (to_MaxConnsPerIP opts) then Some (to_MaxConnsPerIP opts) else None)"
    and i: "tcp_inv concurrency_inv concurrency_held (\<lambda>c. nat (sint (c_max c)))
      (map_option (\<lambda>c. nat (sint (c_max c))) (to_Admit opts), lp, v6) s" and np: "True \<notin> set panicked"
    using conc_run [OF new fresh run] by blast
  note b = conc_admission.inv_bounds [OF i]
  have v6: "ts_v6bits s = v6" using i by (simp add: tcp_inv_def limits_def)
  show "True \<notin> set panicked" by (rule np)
  show "sint (c_inUse c) = int (num_in admitted (phases s))" "int (num_in admitted (phases s)) \<le> sint (c_max c0)"
    if "to_Admit opts = Some c0 \<and> ts_admit s = Some c" for c0 c
    using b(1) i fresh that fresh_concurrency
    by (auto simp: tcp_inv_def slots_ok_def admit_ok_def concurrency_inv_def concurrency_held_def) fastforce+
  show "int (length (filter (\<lambda>c. tc_phase c \<in> admitted \<and> ipKey (tc_addr c) (ts_v6bits s) = (k, True)) (ts_heap s)))
      \<le> sint (to_MaxConnsPerIP opts)" if "0 < sint (to_MaxConnsPerIP opts)" for k
    using b(2) that by (simp add: lp v6 le_nat_iff)
  show "Tcp_Stats s =
      \<lparr>st_Accepted = of_nat (num_in was_accepted (phases s)), st_Rejected = of_nat (num_in {PRejected} (phases s)),
       st_RejectedPerIP = of_nat (num_in {PRejectedPerIP} (phases s)), st_Active = of_nat (num_in is_active (phases s)),
       st_Closed = of_nat (num_in is_closed (phases s)), st_AcceptErrors = ts_acceptErrors s\<rparr>"
    using i by (simp add: tcp_inv_def control_ok_def counts_ok_def Tcp_Stats_def Counter_Load_def)
qed

text \<open>
  One permit, one connection per address: the second connection of a client is refused by
  \<open>MaxConnsPerIP\<close>, the connection of another client by \<open>Admit\<close>, and after the first has gone a third is
  served.
\<close>

definition demo_tcp_opts :: "concurrency tcpOptions" where
  "demo_tcp_opts = \<lparr>to_Admit = Some \<lparr>c_max = 1, c_inUse = 0\<rparr>, to_MaxConnsPerIP = 1, to_IPv6PrefixBits = 0, to_Socket = zero_Options\<rparr>"

definition demo_tcp :: "concurrency tcpServer" where
  "demo_tcp = projr (Tcp_NewServer False False demo_tcp_opts 0)"

lemmas tcp_eval = tcp_step_def tcp_do_def Tcp_Serve_begin_def accept_conn_def ipKey_def AddrFromSlice_def Unmap_def
  Is4In6_def Is6_def PerKey_TryAcquire_def map_get_def Tcp_Serve_def acceptLoop_def accept_admit_def accept_track_def track_def
  Concurrency_TryAcquire_eq at_phase_def upd_conn_def netConn_Close_def releasePerIP_def PerKey_Release_def
  Counter_Inc_def Let_def

lemma demo_tcp_new: "Tcp_NewServer False False demo_tcp_opts 0 = Inr demo_tcp"
  by code_simp

lemma demo_tcp_fresh: "\<forall>c. to_Admit demo_tcp_opts = Some c \<longrightarrow> (\<exists>mx. NewConcurrency mx = Ret c ())"
  by (auto simp: demo_tcp_opts_def NewConcurrency_def intro: exI [of _ 1])

lemma demo_tcp_eq:
  "demo_tcp = \<lparr>ts_admit = Some \<lparr>c_max = 1, c_inUse = 0\<rparr>, ts_perIP = Some \<lparr>pk_max = 1, pk_n = fmempty\<rparr>, ts_v6bits = 64,
     ts_accepted = 0, ts_rejected = 0, ts_rejectedPerIP = 0, ts_active = 0, ts_closed = 0, ts_acceptErrors = 0,
     ts_lastConnID = 0, ts_serving = False, ts_stopped = False, ts_lnClosed = False, ts_draining = False,
     ts_ctxDone = False, ts_conns = {}, ts_wg = 0, ts_delay = 0, ts_serve = NotServing, ts_heap = []\<rparr>"
  by (simp add: demo_tcp_def demo_tcp_opts_def Tcp_NewServer_def NewPerKey_def)

text \<open>Runs are evaluated in parts: this is the state with one handler running.\<close>

definition demo_accepted :: "tcp_ev list" where
  "demo_accepted = [EvServe, EvAccept (TCPAddr [10, 0, 0, 1]), EvLoop, EvLoop, EvLoop, EvLoop, EvLoop]"

definition demo_served :: "concurrency tcpServer" where
  "demo_served = \<lparr>ts_admit = Some \<lparr>c_max = 1, c_inUse = 1\<rparr>,
     ts_perIP = Some \<lparr>pk_max = 1, pk_n = fmupd (Addr4 [10, 0, 0, 1]) 1 fmempty\<rparr>, ts_v6bits = 64,
     ts_accepted = 1, ts_rejected = 0, ts_rejectedPerIP = 0, ts_active = 1, ts_closed = 0, ts_acceptErrors = 0,
     ts_lastConnID = 1, ts_serving = True, ts_stopped = False, ts_lnClosed = False, ts_draining = False,
     ts_ctxDone = False, ts_conns = {0}, ts_wg = 1, ts_delay = 0, ts_serve = Accepting,
     ts_heap = [\<lparr>tc_addr = TCPAddr [10, 0, 0, 1], tc_id = 1, tc_ipKey = Addr4 [10, 0, 0, 1], tc_keyed = True,
       tc_closed = False, tc_phase = PHandler\<rparr>]\<rparr>"

lemma demo_accepted_run:
  "run_ops (tcp_step Concurrency_TryAcquire Concurrency_Release) demo_accepted demo_tcp = (replicate 7 False, demo_served)"
  by (simp add: demo_tcp_eq demo_accepted_def demo_served_def numeral_eq_Suc) (simp add: tcp_eval)

lemma demo_accepted_then:
  "run_ops (tcp_step Concurrency_TryAcquire Concurrency_Release) (demo_accepted @ es) demo_tcp =
     (replicate 7 False @ fst (run_ops (tcp_step Concurrency_TryAcquire Concurrency_Release) es demo_served),
      snd (run_ops (tcp_step Concurrency_TryAcquire Concurrency_Release) es demo_served))"
  by (simp add: run_ops_append demo_accepted_run)

lemma replicate_10: "replicate 10 (0 :: byte) = [0, 0, 0, 0, 0, 0, 0, 0, 0, 0]" "replicate 10 False = replicate 7 False @ [False, False, False]"
  by (simp_all add: numeral_eq_Suc)

definition demo_tcp_events :: "tcp_ev list" where
  "demo_tcp_events = demo_accepted @
     [EvAccept (TCPAddr (replicate 10 0 @ [255, 255, 10, 0, 0, 1])), EvAccept (TCPAddr [10, 0, 0, 2]), EvLoop]"

lemma demo_tcp_run:
  "\<exists>s. run_ops (tcp_step Concurrency_TryAcquire Concurrency_Release) demo_tcp_events demo_tcp = (replicate 10 False, s) \<and>
     phases s = [PHandler, PRejectedPerIP, PRejected] \<and> ts_acceptErrors s = 0"
  unfolding demo_tcp_events_def demo_accepted_then by (simp add: demo_served_def tcp_eval phases_def replicate_10)

theorem slots_are_bounded_and_counted_witness:
  "\<exists>panicked s. run_ops (tcp_step Concurrency_TryAcquire Concurrency_Release) demo_tcp_events demo_tcp = (panicked, s) \<and>
     True \<notin> set panicked \<and>
     Tcp_Stats s = \<lparr>st_Accepted = 1, st_Rejected = 1, st_RejectedPerIP = 1, st_Active = 1, st_Closed = 0, st_AcceptErrors = 0\<rparr>"
proof -
  obtain s where s: "run_ops (tcp_step Concurrency_TryAcquire Concurrency_Release) demo_tcp_events demo_tcp = (replicate 10 False, s)"
    "phases s = [PHandler, PRejectedPerIP, PRejected]" "ts_acceptErrors s = 0"
    using demo_tcp_run by blast
  from slots_are_bounded_and_counted [OF demo_tcp_new demo_tcp_fresh s(1)] s(2,3)
  have "Tcp_Stats s = \<lparr>st_Accepted = 1, st_Rejected = 1, st_RejectedPerIP = 1, st_Active = 1, st_Closed = 0, st_AcceptErrors = 0\<rparr>"
    "True \<notin> set (replicate 10 False)"
    by (simp_all add: num_in_def in_phases)
  with s(1) show ?thesis by blast
qed


text \<open>A connection is aborted by \<open>Close\<close> while its handler runs; \<open>Accept\<close> then fails and \<open>Serve\<close> returns.\<close>

definition demo_tcp_close :: "tcp_ev list" where
  "demo_tcp_close = demo_accepted @
     [EvStop, EvAbort ''context canceled'', EvAcceptErr ''use of closed network connection'' False] @
     replicate 7 (EvConn 0) @ [EvLoop]"

lemmas tcp_eval_stop = tcp_eval serveConn_def tcp_release_def Concurrency_Release_def untrack_conns_def untrack_active_def
  untrack_closed_def wg_Done_def stopAccept_def abortAll_def close_conns_def Tcp_Shutdown_begin_def Tcp_Shutdown_wait_def
  accept_error_def Counter_Dec_eq

text \<open>The state after the abort, with the handler still running.\<close>

definition demo_aborted :: "concurrency tcpServer" where
  "demo_aborted = demo_served\<lparr>ts_stopped := True, ts_lnClosed := True, ts_draining := True, ts_ctxDone := True,
     ts_serve := Draining None,
     ts_heap := [\<lparr>tc_addr = TCPAddr [10, 0, 0, 1], tc_id = 1, tc_ipKey = Addr4 [10, 0, 0, 1], tc_keyed = True,
       tc_closed = True, tc_phase = PHandler\<rparr>]\<rparr>"

lemma demo_abort_run:
  "run_ops (tcp_step Concurrency_TryAcquire Concurrency_Release)
     [EvStop, EvAbort ''context canceled'', EvAcceptErr ''use of closed network connection'' False] demo_served =
   ([False, False, False], demo_aborted)"
  by (simp add: demo_served_def demo_aborted_def tcp_step_def tcp_do_def Tcp_Shutdown_begin_def Tcp_Shutdown_wait_def
      stopAccept_def abortAll_def close_conns_def accept_error_def)

lemma demo_conn_run:
  "run_ops (tcp_step Concurrency_TryAcquire Concurrency_Release) (replicate 7 (EvConn 0)) demo_aborted =
   (replicate 7 False, demo_aborted\<lparr>ts_admit := Some \<lparr>c_max = 1, c_inUse = 0\<rparr>, ts_perIP := Some \<lparr>pk_max = 1, pk_n = fmempty\<rparr>,
     ts_active := 0, ts_closed := 1, ts_conns := {}, ts_wg := 0,
     ts_heap := [\<lparr>tc_addr = TCPAddr [10, 0, 0, 1], tc_id = 1, tc_ipKey = Addr4 [10, 0, 0, 1], tc_keyed = False,
       tc_closed = True, tc_phase = PGone\<rparr>]\<rparr>)"
  by (simp add: demo_served_def demo_aborted_def numeral_eq_Suc) (simp add: tcp_step_def tcp_do_def serveConn_def at_phase_def
      upd_conn_def netConn_Close_def tcp_release_def releasePerIP_def Concurrency_Release_def PerKey_Release_def
      untrack_conns_def untrack_active_def untrack_closed_def wg_Done_def Counter_Dec_eq Counter_Inc_def fmdrop_fmupd_same Let_def)

lemma demo_tcp_closed:
  "\<exists>s p. run_ops (tcp_step Concurrency_TryAcquire Concurrency_Release) demo_tcp_close demo_tcp = (replicate 18 False, s) \<and>
     ts_serve s = Returned None \<and> phases s = [PGone] \<and> ts_perIP s = Some p"
proof -
  have "replicate 18 False = replicate 7 False @ [False, False, False] @ replicate 7 False @ [False]"
    by (simp add: numeral_eq_Suc)
  then show ?thesis unfolding demo_tcp_close_def demo_accepted_then
    by (simp only: run_ops_append demo_abort_run demo_conn_run fst_conv snd_conv)
       (simp add: demo_served_def demo_aborted_def tcp_step_def tcp_do_def Tcp_Serve_def phases_def)
qed


section \<open>Shutting down ends\<close>

text \<open>
  How far the goroutines still have to go once the server has stopped: a step of one of them that is
  not blocked brings the sum down.
\<close>

fun phase_rank :: "phase \<Rightarrow> nat" where
  "phase_rank PAdmit = 12" | "phase_rank PTrack = 11" | "phase_rank PCount = 10" | "phase_rank PActive = 9"
| "phase_rank PSpawn = 8" | "phase_rank PHandler = 7" | "phase_rank PClose = 6" | "phase_rank PRelease = 5"
| "phase_rank PUntrack = 4" | "phase_rank PDec = 3" | "phase_rank PInc = 2" | "phase_rank PDone = 1"
| "phase_rank PGone = 0" | "phase_rank PRejectedPerIP = 0" | "phase_rank PRejected = 0" | "phase_rank PRefused = 0"

fun pc_rank :: "servepc \<Rightarrow> nat" where
  "pc_rank (Returned r) = 0" | "pc_rank (Draining r) = 1" | "pc_rank (Aborting e) = 2" | "pc_rank pc = 3"

definition to_go :: "'l tcpServer \<Rightarrow> nat" where
  "to_go s = sum_list (map phase_rank (phases s)) + pc_rank (ts_serve s)"

lemma phase_rank_le: "phase_rank p \<le> 12"
  by (cases p) simp_all

lemma to_go_le: "to_go s \<le> 12 * length (ts_heap s) + 3"
proof -
  have "sum_list (map phase_rank (phases s)) \<le> sum_list (map (\<lambda>_. 12) (phases s))"
    by (rule sum_list_mono) (rule phase_rank_le)
  moreover have "pc_rank pc \<le> 3" for pc by (cases pc) simp_all
  ultimately show ?thesis by (simp add: to_go_def sum_list_triv add_mono)
qed

lemma rank_sum_update:
  "i < length ps \<Longrightarrow> sum_list (map phase_rank (ps[i := p])) + phase_rank (ps ! i) =
     sum_list (map phase_rank ps) + phase_rank p"
  using elem_le_sum_list [of i "map phase_rank ps"] by (simp add: map_update sum_list_update)

lemma to_go_move:
  assumes "i < length (ts_heap s)" and "phases t = (phases s)[i := p]" and "phase_rank p < phase_rank (phases s ! i)"
    and "pc_rank (ts_serve t) \<le> pc_rank (ts_serve s)"
  shows "to_go t < to_go s"
  using rank_sum_update [of i "phases s" p] assms by (simp add: to_go_def)

text \<open>Steps of the goroutines of a server that has stopped; handlers do return, \<open>Accept\<close> fails.\<close>

fun finishing :: "tcp_ev \<Rightarrow> bool" where
  "finishing EvLoop = True"
| "finishing (EvConn i) = True"
| "finishing (EvWait w) = (w = StopFires)"
| "finishing (EvAcceptErr m temp) = True"
| "finishing e = False"

lemma serveConn_goes_on:
  assumes "i < length (ts_heap s)" and "phases s ! i \<in> running"
  shows "to_go (res_state (serveConn rel i s)) < to_go s \<and> ts_stopped (res_state (serveConn rel i s)) = ts_stopped s \<and>
    ts_serve (res_state (serveConn rel i s)) = ts_serve s"
proof -
  note m = serveConn_moves [OF assms refl, of rel]
  have "phase_rank (next_phase (phases s ! i)) < phase_rank (phases s ! i)"
    using assms(2) by (cases "phases s ! i") (simp_all add: in_phases)
  with m to_go_move [OF assms(1), of "res_state (serveConn rel i s)" "next_phase (phases s ! i)"] show ?thesis by simp
qed

lemma acceptLoop_goes_on:
  assumes "control_ok s" and a: "ts_serve s = Admitting i" and np: "\<not> panics (acceptLoop acq rel i s)" and st: "ts_stopped s"
  shows "to_go (res_state (acceptLoop acq rel i s)) < to_go s \<and> ts_stopped (res_state (acceptLoop acq rel i s)) \<and>
    ts_serve (res_state (acceptLoop acq rel i s)) \<noteq> NotServing"
proof -
  have i: "i < length (ts_heap s)" and p: "phases s ! i \<in> accepting"
    using where_okD(2) [of s i] assms(1) a by (auto simp: control_ok_def)
  let ?t = "res_state (acceptLoop acq rel i s)"
  have go: "to_go t < to_go s \<and> ts_stopped t \<and> ts_serve t \<noteq> NotServing"
    if "phases t = (phases s)[i := q]" "phase_rank q < phase_rank (phases s ! i)" "ts_stopped t"
      "ts_serve t \<in> {Admitting i, Accepting, Draining None}" for t :: "'a tcpServer" and q
    using that to_go_move [OF i that(1,2)] a by auto
  show ?thesis
  proof (cases "phases s ! i = PAdmit \<or> phases s ! i = PTrack")
    case False
    then show ?thesis using p st go [of ?t "case phases s ! i of PCount \<Rightarrow> PActive | PActive \<Rightarrow> PSpawn | _ \<Rightarrow> PHandler"]
      by (cases "phases s ! i") (simp_all add: in_phases acceptLoop_def nth_phases [OF i] upd_conn_views a)
  next
    case True
    then show ?thesis
    proof
      assume q: "phases s ! i = PAdmit"
      then have e: "acceptLoop acq rel i s = accept_admit acq i s" by (simp add: acceptLoop_def nth_phases [OF i])
      obtain t where t: "same_control s t" and r: "if panics (accept_admit acq i s) then res_state (accept_admit acq i s) = t
          else res_state (accept_admit acq i s) \<in> {rejected_conn i t, at_phase i PTrack t}"
        by (rule accept_admit_control)
      note u = t [unfolded same_control_def]
      from r np e have "?t = rejected_conn i t \<or> ?t = at_phase i PTrack t" by auto
      then show ?thesis
        using go [of "rejected_conn i t" PRejected] go [of "at_phase i PTrack t" PTrack] q st a u
        by (auto simp: rejected_conn_def upd_conn_views)
    next
      assume q: "phases s ! i = PTrack"
      then have e: "acceptLoop acq rel i s = accept_track rel i s" by (simp add: acceptLoop_def nth_phases [OF i])
      obtain t where t: "same_control s t" and r: "res_state (accept_track rel i s) =
          (if \<not> ts_stopped s then at_phase i PCount (s\<lparr>ts_conns := insert i (ts_conns s)\<rparr>)
           else if panics (accept_track rel i s) then t else refused_conn i t)"
        by (rule accept_track_control)
      note u = t [unfolded same_control_def]
      from r np e st have "?t = refused_conn i t" by simp
      then show ?thesis using go [of "refused_conn i t" PRefused] q st u by (simp add: refused_conn_def upd_conn_views)
    qed
  qed
qed

context admission
begin

lemma goes_on:
  assumes inv: "tcp_inv linv held cap lims s" and st: "ts_stopped s" and "ts_serve s \<noteq> NotServing"
    and "\<forall>r. ts_serve s \<noteq> Returned r"
  obtains e where "finishing e" and "to_go (snd (tcp_step acq rel e s)) < to_go s"
    and "ts_stopped (snd (tcp_step acq rel e s))" and "ts_serve (snd (tcp_step acq rel e s)) \<noteq> NotServing"
proof (cases "ts_serve s")
  case (Draining r)
  show thesis
  proof (cases "ts_wg s = 0")
    case True
    then show thesis using that [of EvLoop] Draining st
      by (simp add: tcp_step_def tcp_do_def Tcp_Serve_def to_go_def)
  next
    case False
    then have "num_in running (phases s) \<noteq> 0" using inv by (simp add: tcp_inv_def control_ok_def counts_ok_def)
    then obtain i where "i < length (ts_heap s)" "phases s ! i \<in> running" by (auto simp: num_in_0)
    then show thesis using that [of "EvConn i"] serveConn_goes_on [of i s rel] Draining st
      by (simp add: tcp_step_def tcp_do_def)
  qed
next
  case (Admitting i)
  have "\<not> panics (acceptLoop acq rel i s)" using inv Admitting acceptLoop_slots [of s i] by (simp add: tcp_inv_def)
  then show thesis using that [of EvLoop] acceptLoop_goes_on [of s i acq rel] inv Admitting st
    by (simp add: tcp_step_def tcp_do_def Tcp_Serve_def tcp_inv_def)
next
  case Accepting
  then show thesis using that [of "EvAcceptErr m False" for m] st
    by (simp add: tcp_step_def tcp_do_def accept_error_def to_go_def)
next
  case Backoff
  moreover have "ts_draining s" using inv st by (simp add: tcp_inv_def control_ok_def where_ok_def)
  ultimately show thesis using that [of "EvWait StopFires"] st
    by (simp add: tcp_step_def tcp_do_def accept_wait_def Backoff_Wait_def to_go_def)
next
  case (Failed e)
  then show thesis using that [of EvLoop] st by (simp add: tcp_step_def tcp_do_def Tcp_Serve_def to_go_def)
next
  case (Aborting e)
  then show thesis using that [of EvLoop] st by (simp add: tcp_step_def tcp_do_def Tcp_Serve_def to_go_def)
qed (use assms(3,4) in auto)

lemma finishes:
  assumes "tcp_inv linv held cap lims s" and "ts_stopped s" and "ts_serve s \<noteq> NotServing"
  shows "\<exists>es r. list_all finishing es \<and> length es \<le> to_go s \<and> ts_serve (snd (run_ops (tcp_step acq rel) es s)) = Returned r"
  using assms
proof (induction "to_go s" arbitrary: s rule: less_induct)
  case less
  show ?case
  proof (cases "\<exists>r. ts_serve s = Returned r")
    case True
    then show ?thesis by (intro exI [of _ "[]"]) auto
  next
    case False
    obtain e where e: "finishing e" "to_go (snd (tcp_step acq rel e s)) < to_go s" "ts_stopped (snd (tcp_step acq rel e s))"
      "ts_serve (snd (tcp_step acq rel e s)) \<noteq> NotServing"
      using goes_on [OF less.prems] False by blast
    obtain es r where "list_all finishing es" "length es \<le> to_go (snd (tcp_step acq rel e s))"
      "ts_serve (snd (run_ops (tcp_step acq rel) es (snd (tcp_step acq rel e s)))) = Returned r"
      using less.hyps [OF e(2) running.step_inv [OF less.prems(1)] e(3,4)] by blast
    then show ?thesis using e(1,2) by (intro exI [of _ "e # es"] exI [of _ r]) simp
  qed
qed

end

text \<open>
  C11: Once the server has stopped (Shutdown or Close was called, or Accept failed for good), it can
  always finish: from every state any run can reach, the goroutines' own remaining steps, with
  handlers that return and an Accept that fails, bring Serve to its end, within twelve steps per
  connection and three of its own. No interleaving leaves it waiting for something that is gone.
\<close>

theorem stopped_server_can_finish:
  assumes new: "Tcp_NewServer nilLn nilHandler opts lastID = Inr s0"
    and fresh: "\<forall>c. to_Admit opts = Some c \<longrightarrow> (\<exists>mx. NewConcurrency mx = Ret c ())"
    and run: "run_ops (tcp_step Concurrency_TryAcquire Concurrency_Release) es s0 = (panicked, s)"
    and "ts_stopped s" and "ts_serving s"
  shows "\<exists>fs r. list_all finishing fs \<and> length fs \<le> 12 * length (ts_heap s) + 3 \<and>
    ts_serve (snd (run_ops (tcp_step Concurrency_TryAcquire Concurrency_Release) fs s)) = Returned r"
proof -
  obtain lims where i: "tcp_inv concurrency_inv concurrency_held (\<lambda>c. nat (sint (c_max c))) lims s"
    using conc_run [OF new fresh run] by blast
  then have "ts_serve s \<noteq> NotServing" using assms(5) by (simp add: tcp_inv_def control_ok_def where_ok_def)
  with conc_admission.finishes [OF i assms(4)] to_go_le [of s] show ?thesis by (meson order.trans)
qed

text \<open>A handler is running and a second connection has just been accepted when \<open>Shutdown\<close> is called.\<close>

definition demo_tcp_stop :: "tcp_ev list" where
  "demo_tcp_stop = demo_accepted @ [EvAccept (OtherAddr ''pipe''), EvStop]"

lemma demo_tcp_stopped:
  "\<exists>s. run_ops (tcp_step Concurrency_TryAcquire Concurrency_Release) demo_tcp_stop demo_tcp = (replicate 9 False, s) \<and>
     phases s = [PHandler, PAdmit] \<and> ts_stopped s \<and> ts_serving s"
proof -
  have "replicate 9 False = replicate 7 False @ [False, False]" by (simp add: numeral_eq_Suc)
  then show ?thesis unfolding demo_tcp_stop_def demo_accepted_then
    by (simp add: demo_served_def tcp_eval_stop phases_def)
qed

theorem stopped_server_can_finish_witness:
  "\<exists>s fs r. run_ops (tcp_step Concurrency_TryAcquire Concurrency_Release) demo_tcp_stop demo_tcp = (replicate 9 False, s) \<and>
     list_all finishing fs \<and> length fs \<le> 27 \<and>
     ts_serve (snd (run_ops (tcp_step Concurrency_TryAcquire Concurrency_Release) fs s)) = Returned r"
proof -
  obtain s where s: "run_ops (tcp_step Concurrency_TryAcquire Concurrency_Release) demo_tcp_stop demo_tcp = (replicate 9 False, s)"
    "phases s = [PHandler, PAdmit]" "ts_stopped s" "ts_serving s"
    using demo_tcp_stopped by blast
  have "length (ts_heap s) = 2" using arg_cong [OF s(2), of length] by simp
  with stopped_server_can_finish [OF demo_tcp_new demo_tcp_fresh s(1,3,4)] s(1) show ?thesis by fastforce
qed

end
