(* ===== verification/Lifecycle.thy ===== *)
theory Lifecycle
  imports Netx_Prelude
begin

text \<open>
  The root package (\<open>src/lifecycle.go\<close>): running a service from start to graceful stop.

  Services and hooks are not under our control: what they return, or that they panic, is an argument
  of the step in which their call ends. A run is any sequence of such steps and of the steps of the
  other goroutines: the one in \<open>Serve\<close>, the signal handler, and callers of \<open>Stop\<close> and \<open>Shutdown\<close>. The local
  variables of \<open>LoopContext\<close> are fields of the state; \<open>ls_calls\<close> is the history of the calls it made.

  The lemmas show that every run makes the calls of its hooks and of the service in one order, each
  at most once, and hands the final error to \<open>OnError\<close> once; that the result contains every failure
  except a cancelled drain; that it ends even when \<open>Serve\<close> never returns; and that the state of a server
  never goes back.
\<close>

section \<open>Errors\<close>

text \<open>
  Error values: those made by \<open>errors.New\<close>, the two of package \<open>context\<close>, what \<open>protect\<close> makes of a panic,
  and what \<open>errors.Join\<close> makes of several.
\<close>

datatype gerr = GErr string | Canceled | DeadlineExceeded | PanicErr string string | Joined "gerr list"

definition ErrAlreadyRunning :: gerr where
  "ErrAlreadyRunning = GErr ''netx: server is already running or has stopped''"
definition ErrNotRunning :: gerr where "ErrNotRunning = GErr ''netx: server is not running''"
definition ErrAbortTimeout :: gerr where "ErrAbortTimeout = GErr ''netx: service did not stop after abort''"

text \<open>\<open>errors.Join\<close> and \<open>errors.Is\<close>; a nil error is \<open>None\<close>.\<close>

definition errors_Join :: "gerr option list \<Rightarrow> gerr option" where
  "errors_Join errs = (let es = map the (filter (\<lambda>e. e \<noteq> None) errs) in if es = [] then None else Some (Joined es))"

fun errors_Is :: "gerr \<Rightarrow> gerr \<Rightarrow> bool" where
  "errors_Is (Joined es) t \<longleftrightarrow> Joined es = t \<or> list_ex (\<lambda>e. errors_Is e t) es"
| "errors_Is e t \<longleftrightarrow> e = t"

text \<open>How a call of a hook or of the service ends.\<close>

datatype outcome = Returns "gerr option" | Panics string

definition protect :: "string \<Rightarrow> outcome \<Rightarrow> gerr option" where
  "protect nm out = (case out of Returns e \<Rightarrow> e | Panics v \<Rightarrow> Some (PanicErr nm v))"

definition ignoreCanceled :: "gerr option \<Rightarrow> gerr option" where
  "ignoreCanceled err =
     (case err of None \<Rightarrow> None | Some e \<Rightarrow> if errors_Is e Canceled then None else Some e)"

section \<open>Services\<close>

text \<open>\<open>ServiceFuncs\<close>: a nil \<open>ShutdownFunc\<close> does nothing. \<open>'c\<close> is the context.\<close>

definition ServiceFuncs_Serve :: "('c \<Rightarrow> outcome) \<Rightarrow> 'c \<Rightarrow> outcome" where
  "ServiceFuncs_Serve f ctx = f ctx"

definition ServiceFuncs_Shutdown :: "('c \<Rightarrow> outcome) option \<Rightarrow> 'c \<Rightarrow> outcome" where
  "ServiceFuncs_Shutdown f ctx = (case f of None \<Rightarrow> Returns None | Some g \<Rightarrow> g ctx)"

text \<open>
  \<open>group.Serve\<close>: \<open>g_left\<close> is the count of the wait group. A panic of a member is not recovered in its
  goroutine and ends the process.
\<close>

record group =
  g_errs :: "gerr option list"
  g_left :: nat
  g_aborted :: bool

definition group_begin :: "nat \<Rightarrow> group" where
  "group_begin n = \<lparr>g_errs = replicate n None, g_left = n, g_aborted = False\<rparr>"

definition group_returned :: "nat \<Rightarrow> outcome \<Rightarrow> group \<Rightarrow> (unit, group) res" where
  "group_returned i out g =
     (case out of
        Panics v \<Rightarrow> Panic v g
      | Returns e \<Rightarrow>
          Ret () (g\<lparr>g_errs := (g_errs g)[i := e], g_aborted := (g_aborted g \<or> e \<noteq> None), g_left := g_left g - 1\<rparr>))"

text \<open>What \<open>Serve\<close> returns once \<open>wg.Wait\<close> does.\<close>

definition group_result :: "group \<Rightarrow> gerr option option" where
  "group_result g = (if g_left g = 0 then Some (errors_Join (g_errs g)) else None)"

text \<open>\<open>group.Shutdown\<close>, given what the members return.\<close>

definition group_Shutdown :: "gerr option list \<Rightarrow> gerr option" where
  "group_Shutdown outs = errors_Join outs"

section \<open>Server\<close>

datatype lstate = StateNew | StateStarting | StateRunning | StateStopping | StateStopped

definition LState_String :: "lstate \<Rightarrow> string" where
  "LState_String st =
     (case st of StateNew \<Rightarrow> ''new'' | StateStarting \<Rightarrow> ''starting'' | StateRunning \<Rightarrow> ''running''
      | StateStopping \<Rightarrow> ''stopping'' | StateStopped \<Rightarrow> ''stopped'')"

text \<open>Which fields of the \<open>Server\<close> its user has set.\<close>

record lconfig =
  cf_Service :: bool
  cf_OnStart :: bool
  cf_OnStop :: bool
  cf_OnError :: bool

text \<open>
  Where \<open>LoopContext\<close> is: not called, in \<open>OnStart\<close>, in \<open>Shutdown\<close> after a failed start, in the \<open>select\<close>, in
  \<open>Shutdown\<close>, waiting for \<open>Serve\<close> after the abort, in \<open>OnStop\<close>, in \<open>OnError\<close>, about to finish, returned. And
  where the goroutine that runs \<open>Serve\<close> is; its last place is the value in the channel \<open>served\<close>.
\<close>

datatype lpc = LIdle | LOnStart | LStartShutdown | LSelect | LShutdown | LAbort | LOnStop | LOnError gerr
  | LFinish "gerr option" | LReturned "gerr option"

datatype gopc = NoGo | Spawned | InServe | Served "gerr option"

datatype call = CallOnStart | CallServe | CallShutdown | CallOnStop | CallOnError gerr

text \<open>
  \<open>ls_stopped\<close> says that \<open>stopCtx\<close> is done, \<open>ls_aborted\<close> that \<open>runCtx\<close> is, \<open>ls_drainDone\<close> that the context of
  \<open>Shutdown\<close> is, \<open>ls_done\<close> that the channel is closed.
\<close>

record lserver =
  ls_state :: lstate
  ls_stopped :: bool
  ls_force :: bool
  ls_forced :: bool
  ls_done :: bool
  ls_result :: "gerr option"
  ls_pc :: lpc
  ls_go :: gopc
  ls_aborted :: bool
  ls_drainDone :: bool
  ls_returned :: bool
  ls_startErr :: "gerr option"
  ls_serveErr :: "gerr option"
  ls_shutdownErr :: "gerr option"
  ls_stopErr :: "gerr option"
  ls_calls :: "call list"

definition NewServer :: lserver where
  "NewServer = \<lparr>ls_state = StateNew, ls_stopped = False, ls_force = False, ls_forced = False, ls_done = False, ls_result = None,
     ls_pc = LIdle, ls_go = NoGo, ls_aborted = False, ls_drainDone = False, ls_returned = False, ls_startErr = None,
     ls_serveErr = None, ls_shutdownErr = None, ls_stopErr = None, ls_calls = []\<rparr>"

definition setState :: "lstate \<Rightarrow> lserver \<Rightarrow> lserver" where
  "setState st s = s\<lparr>ls_state := st\<rparr>"

definition forceAbort :: "lserver \<Rightarrow> lserver" where
  "forceAbort s = (if ls_force s \<and> \<not> ls_forced s then s\<lparr>ls_forced := True\<rparr> else s)"

text \<open>\<open>begin\<close>: its error, or the server is starting.\<close>

definition begin_loop :: "lserver \<Rightarrow> gerr option \<times> lserver" where
  "begin_loop s =
     (if ls_state s \<noteq> StateNew then (Some ErrAlreadyRunning, s)
      else (None, s\<lparr>ls_force := True, ls_stopped := False, ls_state := StateStarting\<rparr>))"

definition finish :: "gerr option \<Rightarrow> lserver \<Rightarrow> lserver" where
  "finish result s = s\<lparr>ls_stopped := True, ls_result := result, ls_state := StateStopped, ls_done := True\<rparr>"

definition Server_Stop :: "lserver \<Rightarrow> gerr option \<times> lserver" where
  "Server_Stop s =
     (if ls_state s = StateNew \<or> ls_state s = StateStopped then (Some ErrNotRunning, s)
      else (None, s\<lparr>ls_stopped := True\<rparr>))"

text \<open>
  \<open>Shutdown\<close>: first \<open>Stop\<close>, then, if that returned nil, the wait for \<open>done\<close> or (with \<open>Some e\<close>) for the
  end of the caller's context; \<open>None\<close> is a wait that goes on.
\<close>

definition Server_Shutdown_begin :: "lserver \<Rightarrow> gerr option \<times> lserver" where
  "Server_Shutdown_begin s = Server_Stop s"

definition Server_Shutdown_wait :: "gerr option \<Rightarrow> lserver \<Rightarrow> gerr option option" where
  "Server_Shutdown_wait ctx s =
     (case ctx of
        Some e \<Rightarrow> Some (Some e)
      | None \<Rightarrow> (if ls_done s then Some (ls_result s) else None))"

section \<open>LoopContext\<close>

definition log_call :: "call \<Rightarrow> lserver \<Rightarrow> lserver" where
  "log_call c s = s\<lparr>ls_calls := ls_calls s @ [c]\<rparr>"

text \<open>\<open>report\<close>: nothing to report, or \<open>OnError\<close> is called and its end handled.\<close>

definition report :: "lconfig \<Rightarrow> gerr option \<Rightarrow> lserver \<Rightarrow> lserver" where
  "report cfg err s =
     (case err of
        None \<Rightarrow> s\<lparr>ls_pc := LFinish None\<rparr>
      | Some e \<Rightarrow>
          (if \<not> cf_OnError cfg then s\<lparr>ls_pc := LFinish err\<rparr>
           else log_call (CallOnError e) (s\<lparr>ls_pc := LOnError e\<rparr>)))"

text \<open>The argument is what \<open>OnError\<close> panicked with, if it did.\<close>

definition report_returned :: "gerr \<Rightarrow> string option \<Rightarrow> lserver \<Rightarrow> lserver" where
  "report_returned e panic s =
     (case protect ''error hook'' (case panic of None \<Rightarrow> Returns None | Some v \<Rightarrow> Panics v) of
        Some perr \<Rightarrow> s\<lparr>ls_pc := LFinish (errors_Join [Some e, Some perr])\<rparr>
      | None \<Rightarrow> s\<lparr>ls_pc := LFinish (Some e)\<rparr>)"

text \<open>The two calls of \<open>errors.Join\<close>, after a failed start and otherwise.\<close>

definition final_error :: "lserver \<Rightarrow> gerr option" where
  "final_error s =
     (if ls_startErr s \<noteq> None then errors_Join [ls_startErr s, ls_shutdownErr s, ls_stopErr s]
      else errors_Join [ls_serveErr s, ignoreCanceled (ls_shutdownErr s), ls_stopErr s])"

definition onStop :: "lconfig \<Rightarrow> lserver \<Rightarrow> lserver" where
  "onStop cfg s =
     (if \<not> cf_OnStop cfg then report cfg (final_error s) s
      else log_call CallOnStop (s\<lparr>ls_pc := LOnStop\<rparr>))"

definition onStop_returned :: "lconfig \<Rightarrow> outcome \<Rightarrow> lserver \<Rightarrow> lserver" where
  "onStop_returned cfg out s =
     (let s1 = s\<lparr>ls_stopErr := protect ''stop'' out\<rparr> in report cfg (final_error s1) s1)"

text \<open>The service is started.\<close>

definition loop_run :: "lserver \<Rightarrow> lserver" where
  "loop_run s = (setState StateRunning s)\<lparr>ls_go := Spawned, ls_pc := LSelect\<rparr>"

text \<open>The call of \<open>LoopContext\<close>: its error, or it begins.\<close>

definition LoopContext :: "lconfig \<Rightarrow> lserver \<Rightarrow> gerr option \<times> lserver" where
  "LoopContext cfg s =
     (if \<not> cf_Service cfg then (Some (GErr ''netx: Service is required''), s)
      else (case begin_loop s of
              (Some e, s1) \<Rightarrow> (Some e, s1)
            | (None, s1) \<Rightarrow>
                (if cf_OnStart cfg then (None, log_call CallOnStart (s1\<lparr>ls_pc := LOnStart\<rparr>))
                 else (None, loop_run s1))))"

definition onStart_returned :: "outcome \<Rightarrow> lserver \<Rightarrow> lserver" where
  "onStart_returned out s =
     (case protect ''start'' out of
        Some e \<Rightarrow> log_call CallShutdown (s\<lparr>ls_startErr := Some e, ls_drainDone := False, ls_pc := LStartShutdown\<rparr>)
      | None \<Rightarrow> loop_run s)"

text \<open>
  The \<open>select\<close> took the result of \<open>Serve\<close> (\<open>Some\<close>) or saw the stop signal: the drain begins.
\<close>

definition loop_stop :: "gerr option option \<Rightarrow> lserver \<Rightarrow> lserver" where
  "loop_stop serveErr s =
     (let s1 = (case serveErr of
                  Some e \<Rightarrow> s\<lparr>ls_serveErr := e, ls_returned := True\<rparr>
                | None \<Rightarrow> s);
          s2 = setState StateStopping s1
      in log_call CallShutdown (s2\<lparr>ls_drainDone := False, ls_pc := LShutdown\<rparr>))"

definition shutdown_returned :: "lconfig \<Rightarrow> outcome \<Rightarrow> lserver \<Rightarrow> lserver" where
  "shutdown_returned cfg out s =
     (let s1 = s\<lparr>ls_shutdownErr := protect ''shutdown'' out\<rparr>
      in if ls_pc s = LStartShutdown \<or> ls_returned s then onStop cfg s1
         else s1\<lparr>ls_aborted := True, ls_pc := LAbort\<rparr>)"

text \<open>After the abort: \<open>Serve\<close> returned (\<open>Some\<close>), or \<open>AbortGrace\<close> is over.\<close>

definition abort_waited :: "lconfig \<Rightarrow> gerr option option \<Rightarrow> lserver \<Rightarrow> lserver" where
  "abort_waited cfg serveErr s =
     onStop cfg (s\<lparr>ls_serveErr := (case serveErr of Some e \<Rightarrow> e | None \<Rightarrow> Some ErrAbortTimeout)\<rparr>)"

text \<open>The deferred calls: \<open>cancel\<close>, \<open>abort\<close>, \<open>finish\<close>.\<close>

definition loop_finish :: "gerr option \<Rightarrow> lserver \<Rightarrow> lserver" where
  "loop_finish result s = (finish result (s\<lparr>ls_drainDone := True, ls_aborted := True\<rparr>))\<lparr>ls_pc := LReturned result\<rparr>"

text \<open>
  The goroutine of \<open>Loop\<close> that watches the signals: the first cancels the context of \<open>LoopContext\<close>, the
  second forces the abort, later ones are not received.
\<close>

definition Loop_signals :: "string list \<Rightarrow> string list" where
  "Loop_signals signals = (if signals = [] then [''SIGINT'', ''SIGTERM''] else signals)"

definition parent_done :: "lserver \<Rightarrow> lserver" where
  "parent_done s = (if ls_state s = StateNew then s else s\<lparr>ls_stopped := True\<rparr>)"

definition Loop_signal :: "nat \<Rightarrow> lserver \<Rightarrow> nat \<times> lserver" where
  "Loop_signal n s =
     (if n = 0 then (1, parent_done s) else if n = 1 then (2, forceAbort s) else (n, s))"

text \<open>
  One step of the process. The events of \<open>LoopContext\<close> and of the goroutine in \<open>Serve\<close> happen only where
  these are; a \<open>select\<close> takes only a branch that is ready. \<open>EvDrainEnds\<close> is the end of the context of
  \<open>Shutdown\<close>: its deadline (if it has one), or a forced abort, which \<open>EvForce\<close> asks for.
\<close>

datatype lev = EvLoopContext | EvOnStart outcome | EvServeBegins | EvServeReturns outcome | EvTakeServed | EvTakeStop
  | EvShutdown outcome | EvGraceOver | EvOnStop outcome | EvOnError "string option" | EvFinish
  | EvStopCall | EvParentDone | EvForce | EvDrainEnds

fun lstep :: "lconfig \<Rightarrow> lev \<Rightarrow> lserver \<Rightarrow> lserver" where
  "lstep cfg EvLoopContext s = snd (LoopContext cfg s)"
| "lstep cfg (EvOnStart out) s = (if ls_pc s = LOnStart then onStart_returned out s else s)"
| "lstep cfg EvServeBegins s = (if ls_go s = Spawned then log_call CallServe (s\<lparr>ls_go := InServe\<rparr>) else s)"
| "lstep cfg (EvServeReturns out) s =
     (if ls_go s = InServe then s\<lparr>ls_go := Served (protect ''serve'' out)\<rparr> else s)"
| "lstep cfg EvTakeServed s =
     (case ls_go s of
        Served e \<Rightarrow> (if ls_pc s = LSelect then loop_stop (Some e) s
                     else if ls_pc s = LAbort then abort_waited cfg (Some e) s else s)
      | _ \<Rightarrow> s)"
| "lstep cfg EvTakeStop s = (if ls_pc s = LSelect \<and> ls_stopped s then loop_stop None s else s)"
| "lstep cfg (EvShutdown out) s =
     (if ls_pc s = LShutdown \<or> ls_pc s = LStartShutdown then shutdown_returned cfg out s else s)"
| "lstep cfg EvGraceOver s = (if ls_pc s = LAbort then abort_waited cfg None s else s)"
| "lstep cfg (EvOnStop out) s = (if ls_pc s = LOnStop then onStop_returned cfg out s else s)"
| "lstep cfg (EvOnError p) s = (case ls_pc s of LOnError e \<Rightarrow> report_returned e p s | _ \<Rightarrow> s)"
| "lstep cfg EvFinish s = (case ls_pc s of LFinish r \<Rightarrow> loop_finish r s | _ \<Rightarrow> s)"
| "lstep cfg EvStopCall s = snd (Server_Stop s)"
| "lstep cfg EvParentDone s = parent_done s"
| "lstep cfg EvForce s = forceAbort s"
| "lstep cfg EvDrainEnds s = (if ls_pc s = LShutdown \<or> ls_pc s = LStartShutdown then s\<lparr>ls_drainDone := True\<rparr> else s)"

definition lrun :: "lconfig \<Rightarrow> lev list \<Rightarrow> lserver \<Rightarrow> lserver" where
  "lrun cfg es s = fold (lstep cfg) es s"

section \<open>The invariant of every run\<close>

text \<open>The calls made, apart from that of \<open>Serve\<close>, depend only on where \<open>LoopContext\<close> is.\<close>

definition start_calls :: "lconfig \<Rightarrow> call list" where
  "start_calls cfg = (if cf_OnStart cfg then [CallOnStart] else [])"

definition stop_calls :: "lconfig \<Rightarrow> call list" where
  "stop_calls cfg = start_calls cfg @ [CallShutdown] @ (if cf_OnStop cfg then [CallOnStop] else [])"

definition error_calls :: "lconfig \<Rightarrow> gerr option \<Rightarrow> call list" where
  "error_calls cfg err = (case err of Some e \<Rightarrow> if cf_OnError cfg then [CallOnError e] else [] | None \<Rightarrow> [])"

fun calls_at :: "lconfig \<Rightarrow> lserver \<Rightarrow> lpc \<Rightarrow> call list" where
  "calls_at cfg s LIdle = []"
| "calls_at cfg s LOnStart = start_calls cfg"
| "calls_at cfg s LSelect = start_calls cfg"
| "calls_at cfg s LStartShutdown = start_calls cfg @ [CallShutdown]"
| "calls_at cfg s LShutdown = start_calls cfg @ [CallShutdown]"
| "calls_at cfg s LAbort = start_calls cfg @ [CallShutdown]"
| "calls_at cfg s LOnStop = stop_calls cfg"
| "calls_at cfg s (LOnError e) = stop_calls cfg @ error_calls cfg (final_error s)"
| "calls_at cfg s (LFinish r) = stop_calls cfg @ error_calls cfg (final_error s)"
| "calls_at cfg s (LReturned r) = stop_calls cfg @ error_calls cfg (final_error s)"

fun state_at :: "lserver \<Rightarrow> lpc \<Rightarrow> lstate" where
  "state_at s LIdle = StateNew"
| "state_at s LOnStart = StateStarting"
| "state_at s LStartShutdown = StateStarting"
| "state_at s LSelect = StateRunning"
| "state_at s (LReturned r) = StateStopped"
| "state_at s pc = (if ls_startErr s \<noteq> None then StateStarting else StateStopping)"

text \<open>The final error as it is returned: a panic of \<open>OnError\<close> is appended.\<close>

definition returned_as :: "lconfig \<Rightarrow> gerr option \<Rightarrow> gerr option \<Rightarrow> bool" where
  "returned_as cfg err r \<longleftrightarrow>
     r = err \<or> (cf_OnError cfg \<and> (\<exists>e v. err = Some e \<and> r = Some (Joined [e, PanicErr ''error hook'' v])))"

fun pc_ok :: "lconfig \<Rightarrow> lserver \<Rightarrow> lpc \<Rightarrow> bool" where
  "pc_ok cfg s LOnStop \<longleftrightarrow> cf_OnStop cfg \<and> ls_stopErr s = None"
| "pc_ok cfg s (LOnError e) \<longleftrightarrow> final_error s = Some e \<and> cf_OnError cfg"
| "pc_ok cfg s (LFinish r) \<longleftrightarrow> returned_as cfg (final_error s) r"
| "pc_ok cfg s (LReturned r) \<longleftrightarrow> returned_as cfg (final_error s) r \<and> ls_result s = r \<and> ls_aborted s"
| "pc_ok cfg s LStartShutdown \<longleftrightarrow> ls_startErr s \<noteq> None \<and> ls_stopErr s = None"
| "pc_ok cfg s LAbort \<longleftrightarrow> ls_startErr s = None \<and> ls_stopErr s = None \<and> ls_aborted s \<and> \<not> ls_returned s"
| "pc_ok cfg s pc \<longleftrightarrow> ls_startErr s = None \<and> ls_stopErr s = None"

definition serve_ok :: "lserver \<Rightarrow> bool" where
  "serve_ok s \<longleftrightarrow>
     (ls_go s = NoGo \<longleftrightarrow> ls_pc s \<in> {LIdle, LOnStart} \<or> ls_startErr s \<noteq> None) \<and>
     count_list (ls_calls s) CallServe = (case ls_go s of NoGo \<Rightarrow> 0 | Spawned \<Rightarrow> 0 | _ \<Rightarrow> 1) \<and>
     (ls_returned s \<longrightarrow> ls_go s = Served (ls_serveErr s)) \<and>
     (ls_pc s \<in> {LIdle, LOnStart, LStartShutdown, LSelect} \<longrightarrow> \<not> ls_returned s) \<and>
     (ls_startErr s = None \<and> (ls_pc s = LOnStop \<or> (\<exists>e. ls_pc s = LOnError e) \<or> (\<exists>r. ls_pc s \<in> {LFinish r, LReturned r})) \<longrightarrow>
        ls_go s = Served (ls_serveErr s) \<or> ls_serveErr s = Some ErrAbortTimeout \<and> ls_aborted s)"

definition linv :: "lconfig \<Rightarrow> lserver \<Rightarrow> bool" where
  "linv cfg s \<longleftrightarrow>
     filter (\<lambda>c. c \<noteq> CallServe) (ls_calls s) = calls_at cfg s (ls_pc s) \<and> ls_state s = state_at s (ls_pc s) \<and>
     pc_ok cfg s (ls_pc s) \<and> serve_ok s \<and> (ls_done s \<longleftrightarrow> (\<exists>r. ls_pc s = LReturned r)) \<and>
     (ls_pc s \<noteq> LIdle \<longrightarrow> cf_Service cfg) \<and> (ls_pc s = LOnStart \<longrightarrow> cf_OnStart cfg)"

lemma NewServer_linv: "linv cfg NewServer"
  by (simp add: linv_def NewServer_def serve_ok_def)

text \<open>After the drain, before \<open>OnStop\<close> and \<open>OnError\<close>.\<close>

definition drained :: "lconfig \<Rightarrow> call list \<Rightarrow> lserver \<Rightarrow> bool" where
  "drained cfg cs s \<longleftrightarrow> filter (\<lambda>c. c \<noteq> CallServe) (ls_calls s) = cs \<and>
     ls_state s = (if ls_startErr s \<noteq> None then StateStarting else StateStopping) \<and> \<not> ls_done s \<and> cf_Service cfg \<and>
     (ls_go s = NoGo \<longleftrightarrow> ls_startErr s \<noteq> None) \<and>
     count_list (ls_calls s) CallServe = (case ls_go s of NoGo \<Rightarrow> 0 | Spawned \<Rightarrow> 0 | _ \<Rightarrow> 1) \<and>
     (ls_returned s \<longrightarrow> ls_go s = Served (ls_serveErr s)) \<and>
     (ls_startErr s = None \<longrightarrow> ls_go s = Served (ls_serveErr s) \<or> ls_serveErr s = Some ErrAbortTimeout \<and> ls_aborted s)"

lemma final_error_frame [simp]:
  "final_error (s\<lparr>ls_pc := pc\<rparr>) = final_error s" "final_error (s\<lparr>ls_calls := cs\<rparr>) = final_error s"
  "final_error (s\<lparr>ls_go := g\<rparr>) = final_error s" "final_error (s\<lparr>ls_stopped := b\<rparr>) = final_error s"
  "final_error (s\<lparr>ls_forced := b\<rparr>) = final_error s" "final_error (s\<lparr>ls_drainDone := b\<rparr>) = final_error s"
  "final_error (s\<lparr>ls_aborted := b\<rparr>) = final_error s" "final_error (finish r s) = final_error s"
  by (simp_all add: final_error_def log_call_def finish_def)

lemma count_list_snoc [simp]: "count_list (xs @ [x]) y = count_list xs y + of_bool (x = y)"
  by (induction xs) auto

lemma report_linv:
  assumes "drained cfg (stop_calls cfg) s"
  shows "linv cfg (report cfg (final_error s) s)"
proof (cases "final_error s")
  case None
  then show ?thesis using assms
    by (simp add: report_def linv_def drained_def serve_ok_def returned_as_def error_calls_def)
next
  case (Some e)
  then show ?thesis using assms
    by (simp add: report_def log_call_def linv_def drained_def serve_ok_def returned_as_def error_calls_def)
qed

lemma onStop_linv:
  assumes "drained cfg (start_calls cfg @ [CallShutdown]) s" and "ls_stopErr s = None"
  shows "linv cfg (onStop cfg s)"
proof (cases "cf_OnStop cfg")
  case True
  then show ?thesis using assms
    by (simp add: onStop_def log_call_def linv_def drained_def serve_ok_def stop_calls_def)
next
  case False
  then show ?thesis using assms report_linv [of cfg s] by (simp add: onStop_def stop_calls_def)
qed

lemma LoopContext_linv: "linv cfg s \<Longrightarrow> linv cfg (snd (LoopContext cfg s))"
proof (cases "cf_Service cfg \<and> ls_state s = StateNew")
  case True
  assume inv: "linv cfg s"
  then have "ls_pc s = LIdle" using True by (cases "ls_pc s") (auto simp: linv_def split: if_splits)
  then show ?thesis using inv True
    by (simp add: LoopContext_def begin_loop_def loop_run_def setState_def log_call_def linv_def serve_ok_def start_calls_def)
qed (auto simp: LoopContext_def begin_loop_def)

lemma onStart_linv:
  assumes "linv cfg s" and "ls_pc s = LOnStart"
  shows "linv cfg (onStart_returned out s)"
  using assms
  by (simp add: onStart_returned_def loop_run_def setState_def log_call_def linv_def serve_ok_def split: option.splits)

lemma loop_stop_linv:
  assumes "linv cfg s" and "ls_pc s = LSelect" and "\<forall>e. serveErr = Some e \<longrightarrow> ls_go s = Served e"
  shows "linv cfg (loop_stop serveErr s)"
  using assms by (simp add: loop_stop_def setState_def log_call_def linv_def serve_ok_def Let_def split: option.splits)

lemma shutdown_linv:
  assumes inv: "linv cfg s" and pc: "ls_pc s = LShutdown \<or> ls_pc s = LStartShutdown"
  shows "linv cfg (shutdown_returned cfg out s)"
proof (cases "ls_pc s = LStartShutdown \<or> ls_returned s")
  case True
  let ?s = "s\<lparr>ls_shutdownErr := protect ''shutdown'' out\<rparr>"
  consider "ls_pc s = LStartShutdown" | "ls_pc s = LShutdown" "ls_returned s" using True pc by blast
  then have "drained cfg (start_calls cfg @ [CallShutdown]) ?s \<and> ls_stopErr ?s = None"
  proof cases
    case 1
    then show ?thesis using inv by (auto simp: linv_def serve_ok_def drained_def)
  next
    case 2
    then show ?thesis using inv by (simp add: linv_def serve_ok_def drained_def)
  qed
  then show ?thesis using True onStop_linv [of cfg ?s] by (simp add: shutdown_returned_def)
next
  case False
  then show ?thesis using inv pc by (simp add: shutdown_returned_def linv_def serve_ok_def)
qed

lemma abort_linv:
  assumes "linv cfg s" and "ls_pc s = LAbort" and "\<forall>e. serveErr = Some e \<longrightarrow> ls_go s = Served e"
  shows "linv cfg (abort_waited cfg serveErr s)"
  unfolding abort_waited_def
  by (rule onStop_linv) (use assms in \<open>simp_all add: linv_def serve_ok_def drained_def split: option.splits\<close>)

lemma onStop_returned_linv:
  assumes inv: "linv cfg s" and "ls_pc s = LOnStop"
  shows "linv cfg (onStop_returned cfg out s)"
  unfolding onStop_returned_def Let_def
  by (rule report_linv) (use assms in \<open>simp add: linv_def serve_ok_def drained_def\<close>)

lemma report_returned_linv:
  assumes "linv cfg s" and "ls_pc s = LOnError e"
  shows "linv cfg (report_returned e p s)"
  using assms
  by (simp add: report_returned_def protect_def linv_def serve_ok_def returned_as_def errors_Join_def split: option.splits)

lemma loop_finish_linv:
  assumes "linv cfg s" and "ls_pc s = LFinish r"
  shows "linv cfg (loop_finish r s)"
  using assms by (simp add: loop_finish_def finish_def linv_def serve_ok_def) (auto simp: final_error_def)

text \<open>The goroutine in \<open>Serve\<close>, and calls from outside.\<close>

lemma calls_at_cong: "final_error t = final_error s \<Longrightarrow> calls_at cfg t pc = calls_at cfg s pc"
  by (cases pc) simp_all

lemma serve_okD:
  assumes "serve_ok s"
  shows "count_list (ls_calls s) CallServe = (case ls_go s of NoGo \<Rightarrow> 0 | Spawned \<Rightarrow> 0 | _ \<Rightarrow> 1)"
    and "ls_returned s \<Longrightarrow> ls_go s = Served (ls_serveErr s)"
    and "ls_startErr s \<noteq> None \<Longrightarrow> ls_go s = NoGo"
  using assms by (simp_all add: serve_ok_def)

lemma serve_goroutine_linv:
  assumes inv: "linv cfg s" and g: "ls_go s = Spawned \<and> t = log_call CallServe (s\<lparr>ls_go := InServe\<rparr>) \<or>
    ls_go s = InServe \<and> t = s\<lparr>ls_go := Served e\<rparr>"
  shows "linv cfg t"
proof -
  have f: "final_error t = final_error s" "ls_pc t = ls_pc s" "ls_startErr t = ls_startErr s" "ls_stopErr t = ls_stopErr s"
    "ls_state t = ls_state s" "ls_done t = ls_done s" "ls_aborted t = ls_aborted s" "ls_returned t = ls_returned s"
    "ls_serveErr t = ls_serveErr s" "ls_result t = ls_result s"
    using g by (auto simp: log_call_def)
  have "state_at t pc = state_at s pc" "pc_ok cfg t pc = pc_ok cfg s pc" for pc by (cases pc; simp add: f)+
  moreover have "filter (\<lambda>c. c \<noteq> CallServe) (ls_calls t) = filter (\<lambda>c. c \<noteq> CallServe) (ls_calls s)"
    using g by (auto simp: log_call_def)
  moreover have "serve_ok t"
  proof -
    have s: "serve_ok s" using inv by (simp add: linv_def)
    have c: "count_list (ls_calls t) CallServe = 1" and go: "ls_go s \<noteq> NoGo" "ls_go t \<in> {InServe, Served e}"
      "\<not> ls_returned s" "\<And>x. ls_go s \<noteq> Served x"
      using g serve_okD(1,2) [OF s] by (auto simp: log_call_def)
    have "ls_go t \<noteq> NoGo" "(case ls_go t of NoGo \<Rightarrow> 0 | Spawned \<Rightarrow> 0 | _ \<Rightarrow> 1) = (1 :: nat)" using go(2) by auto
    with s c go(1,3,4) show ?thesis unfolding serve_ok_def f by simp
  qed
  ultimately show ?thesis using inv unfolding linv_def f calls_at_cong [OF f(1)] by simp
qed

lemma outside_linv [simp]:
  "linv cfg (s\<lparr>ls_stopped := b\<rparr>) = linv cfg s" "linv cfg (s\<lparr>ls_forced := b\<rparr>) = linv cfg s"
  "linv cfg (s\<lparr>ls_drainDone := b\<rparr>) = linv cfg s"
proof -
  have "state_at t pc = state_at s pc" "pc_ok cfg t pc = pc_ok cfg s pc" "calls_at cfg t pc = calls_at cfg s pc"
    if "t = s\<lparr>ls_stopped := b\<rparr> \<or> t = s\<lparr>ls_forced := b\<rparr> \<or> t = s\<lparr>ls_drainDone := b\<rparr>" for t pc
    using that by (cases pc; auto)+
  then show "linv cfg (s\<lparr>ls_stopped := b\<rparr>) = linv cfg s" "linv cfg (s\<lparr>ls_forced := b\<rparr>) = linv cfg s"
    "linv cfg (s\<lparr>ls_drainDone := b\<rparr>) = linv cfg s"
    by (simp_all add: linv_def serve_ok_def)
qed

lemma lstep_linv: "linv cfg s \<Longrightarrow> linv cfg (lstep cfg e s)"
  by (cases e)
     (auto simp: LoopContext_linv onStart_linv loop_stop_linv shutdown_linv abort_linv onStop_returned_linv report_returned_linv
        loop_finish_linv serve_goroutine_linv Server_Stop_def parent_done_def forceAbort_def split: gopc.splits lpc.splits)

lemma lrun_Cons: "lrun cfg (e # es) s = lrun cfg es (lstep cfg e s)"
  by (simp add: lrun_def)

interpretation loops: event_invariant "lstep cfg" "linv cfg" for cfg
  by unfold_locales (rule lstep_linv)

lemma lrun_linv: "linv cfg s \<Longrightarrow> linv cfg (lrun cfg es s)"
  unfolding lrun_def by (rule loops.events_keep)

section \<open>The order of the states\<close>

text \<open>A \<open>State\<close> is a \<open>uint8\<close>, and its constants are numbered in the order in which a server passes them.\<close>

fun state_rank :: "lstate \<Rightarrow> nat" where
  "state_rank StateNew = 0"
| "state_rank StateStarting = 1"
| "state_rank StateRunning = 2"
| "state_rank StateStopping = 3"
| "state_rank StateStopped = 4"

instantiation lstate :: linorder
begin

definition less_eq_lstate :: "lstate \<Rightarrow> lstate \<Rightarrow> bool" where
  "less_eq_lstate a b \<longleftrightarrow> state_rank a \<le> state_rank b"

definition less_lstate :: "lstate \<Rightarrow> lstate \<Rightarrow> bool" where
  "less_lstate a b \<longleftrightarrow> state_rank a < state_rank b"

instance
proof
  fix a b :: lstate
  show "a \<le> b \<Longrightarrow> b \<le> a \<Longrightarrow> a = b" by (cases a; cases b; simp add: less_eq_lstate_def)
qed (auto simp: less_eq_lstate_def less_lstate_def)

end

lemma onStop_state [simp]: "ls_state (onStop cfg s) = ls_state s" "ls_state (report cfg e s) = ls_state s"
  by (simp_all add: onStop_def report_def log_call_def split: option.splits)

lemma rank_le: "StateNew \<le> a" "a \<le> StateStopped" "StateStarting \<le> StateRunning" "StateRunning \<le> StateStopping"
  by (cases a; simp add: less_eq_lstate_def)+

lemma lstep_state:
  assumes "linv cfg s"
  shows "ls_state s \<le> ls_state (lstep cfg e s)"
proof -
  have st: "ls_pc s = LOnStart \<Longrightarrow> ls_state s = StateStarting" "ls_pc s = LSelect \<Longrightarrow> ls_state s = StateRunning"
    using assms by (simp_all add: linv_def)
  have "ls_state s \<le> ls_state (snd (LoopContext cfg s))"
    by (simp add: LoopContext_def begin_loop_def loop_run_def setState_def log_call_def rank_le)
  moreover have "ls_pc s = LOnStart \<Longrightarrow> ls_state s \<le> ls_state (onStart_returned out s)" for out
    by (simp add: st onStart_returned_def loop_run_def setState_def log_call_def rank_le split: option.splits)
  moreover have "ls_pc s = LSelect \<Longrightarrow> ls_state s \<le> ls_state (loop_stop x s)" for x
    by (simp add: st loop_stop_def setState_def log_call_def Let_def rank_le split: option.splits)
  moreover have "ls_state (shutdown_returned cfg out s) = ls_state s" "ls_state (abort_waited cfg x s) = ls_state s"
    "ls_state (onStop_returned cfg out s) = ls_state s" "ls_state (report_returned err pn s) = ls_state s" for out x err pn
    by (simp_all add: shutdown_returned_def abort_waited_def onStop_returned_def report_returned_def Let_def split: option.splits)
  moreover have "ls_state s \<le> ls_state (loop_finish r s)" for r by (simp add: loop_finish_def finish_def rank_le)
  ultimately show ?thesis
    by (cases e) (simp_all add: log_call_def Server_Stop_def parent_done_def forceAbort_def split: gopc.splits lpc.splits)
qed

text \<open>The state of a server never goes back, in any run.\<close>

theorem state_never_goes_back: "ls_state (lrun cfg es NewServer) \<le> ls_state (lrun cfg (es @ fs) NewServer)"
proof -
  have "linv cfg s \<Longrightarrow> ls_state s \<le> ls_state (lrun cfg fs s)" for s
    by (induction fs arbitrary: s) (auto simp: lrun_def intro: order.trans lstep_state lstep_linv)
  then show ?thesis using lrun_linv [OF NewServer_linv] by (simp add: lrun_def)
qed

section \<open>Joined errors\<close>

lemma errors_Is_refl [simp]: "errors_Is e e"
  by (cases e) simp_all

lemma errors_Join_None: "errors_Join errs = None \<longleftrightarrow> (\<forall>e \<in> set errs. e = None)"
  by (auto simp: errors_Join_def Let_def filter_empty_conv)

lemma errors_Join_Is:
  assumes "Some e \<in> set errs"
  shows "\<exists>j. errors_Join errs = Some j \<and> errors_Is j e"
proof -
  have "e \<in> set (map the (filter (\<lambda>e. e \<noteq> None) errs))" using assms by force
  moreover have "filter (\<lambda>e. e \<noteq> None) errs \<noteq> []" using assms by (auto simp: filter_empty_conv)
  ultimately show ?thesis by (auto simp: errors_Join_def Let_def list_ex_iff intro: exI [of _ e])
qed

lemma returned_as_Is: "returned_as cfg (Some j) r \<Longrightarrow> errors_Is j e \<Longrightarrow> \<exists>k. r = Some k \<and> errors_Is k e"
  by (auto simp: returned_as_def)

lemma returned_as_None: "returned_as cfg err r \<Longrightarrow> r = None \<longleftrightarrow> err = None"
  by (auto simp: returned_as_def)

section \<open>Groups\<close>

fun group_run :: "(nat \<times> outcome) list \<Rightarrow> group \<Rightarrow> (unit, group) res" where
  "group_run [] g = Ret () g"
| "group_run ((i, out) # rs) g =
     (case group_returned i out g of Ret u g' \<Rightarrow> group_run rs g' | Panic m g' \<Rightarrow> Panic m g')"

text \<open>
  Members that return in any order: the errors are joined in the order of the members, and the
  others are aborted from the first failure on.
\<close>

lemma group_run_returns:
  assumes "list_all (\<lambda>(i, out). i < n \<and> out = Returns (errs i)) rs"
  shows "\<exists>g'. group_run rs g = Ret () g' \<and> g_left g' = g_left g - length rs \<and>
    (length (g_errs g) = n \<longrightarrow> length (g_errs g') = n \<and>
      (\<forall>i < n. g_errs g' ! i = (if i \<in> fst ` set rs then errs i else g_errs g ! i))) \<and>
    g_aborted g' = (g_aborted g \<or> (\<exists>i \<in> fst ` set rs. errs i \<noteq> None))"
  using assms
proof (induction rs arbitrary: g)
  case Nil
  then show ?case by simp
next
  case (Cons r rs)
  obtain i where r: "r = (i, Returns (errs i))" "i < n" using Cons.prems by (cases r) auto
  obtain g1 where g1: "group_returned i (Returns (errs i)) g = Ret () g1" "g_left g1 = g_left g - 1"
    "g_errs g1 = (g_errs g)[i := errs i]" "g_aborted g1 = (g_aborted g \<or> errs i \<noteq> None)"
    by (rule that [of "g\<lparr>g_errs := (g_errs g)[i := errs i], g_aborted := (g_aborted g \<or> errs i \<noteq> None), g_left := g_left g - 1\<rparr>"])
       (simp_all add: group_returned_def)
  have "list_all (\<lambda>(i, out). i < n \<and> out = Returns (errs i)) rs" using Cons.prems by simp
  from Cons.IH [OF this, of g1] obtain g' where g': "group_run rs g1 = Ret () g'" "g_left g' = g_left g1 - length rs"
    and len: "length (g_errs g1) = n \<Longrightarrow> length (g_errs g') = n"
    and nth: "\<And>j. length (g_errs g1) = n \<Longrightarrow> j < n \<Longrightarrow>
      g_errs g' ! j = (if j \<in> fst ` set rs then errs j else g_errs g1 ! j)"
    and ab: "g_aborted g' = (g_aborted g1 \<or> (\<exists>i \<in> fst ` set rs. errs i \<noteq> None))"
    by blast
  have "g_errs g' ! j = (if j \<in> fst ` set (r # rs) then errs j else g_errs g ! j)" if "length (g_errs g) = n" "j < n" for j
    using nth [of j] that g1(3) r by (simp add: nth_list_update)
  then show ?case using g' g1 r len ab by (intro exI [of _ g']) auto
qed

text \<open>What is left of a run after each of the places of \<open>LoopContext\<close>, from the last one back.\<close>

lemma ends_finish: "\<exists>r. ls_pc t \<in> {LFinish r, LReturned r} \<Longrightarrow> \<exists>r. ls_pc (lrun cfg [EvFinish] t) = LReturned r"
  by (auto simp: lrun_def loop_finish_def)

lemma ends_error:
  assumes "\<exists>r e. ls_pc t \<in> {LOnError e, LFinish r, LReturned r}"
  shows "\<exists>r. ls_pc (lrun cfg [EvOnError p, EvFinish] t) = LReturned r"
proof -
  have "\<exists>r. ls_pc (lstep cfg (EvOnError p) t) \<in> {LFinish r, LReturned r}"
    using assms by (auto simp: report_returned_def split: option.splits)
  from ends_finish [OF this] show ?thesis by (simp only: lrun_Cons)
qed

lemma ends_stop:
  assumes "\<exists>r e. ls_pc t \<in> {LOnStop, LOnError e, LFinish r, LReturned r}"
  shows "\<exists>r. ls_pc (lrun cfg [EvOnStop o3, EvOnError p, EvFinish] t) = LReturned r"
proof -
  have "\<exists>r e. ls_pc (lstep cfg (EvOnStop o3) t) \<in> {LOnError e, LFinish r, LReturned r}"
    using assms by (auto simp: onStop_returned_def Let_def report_def log_call_def split: option.splits)
  from ends_error [OF this] show ?thesis by (simp only: lrun_Cons)
qed

lemma onStop_pc: "\<exists>r e. ls_pc (onStop cfg t) \<in> {LOnStop, LOnError e, LFinish r, LReturned r}"
  by (auto simp: onStop_def report_def log_call_def split: option.splits)

lemma ends_grace:
  assumes "\<exists>r e. ls_pc t \<in> {LAbort, LOnStop, LOnError e, LFinish r, LReturned r}"
  shows "\<exists>r. ls_pc (lrun cfg [EvGraceOver, EvOnStop o3, EvOnError p, EvFinish] t) = LReturned r"
proof -
  have "\<exists>r e. ls_pc (lstep cfg EvGraceOver t) \<in> {LOnStop, LOnError e, LFinish r, LReturned r}"
    using assms onStop_pc by (auto simp: abort_waited_def)
  from ends_stop [OF this] show ?thesis by (simp only: lrun_Cons)
qed

lemma ends_drain:
  assumes "ls_pc t \<notin> {LIdle, LOnStart, LSelect}"
  shows "\<exists>r. ls_pc (lrun cfg [EvShutdown o2, EvGraceOver, EvOnStop o3, EvOnError p, EvFinish] t) = LReturned r"
proof -
  have "\<exists>r e. ls_pc (lstep cfg (EvShutdown o2) t) \<in> {LAbort, LOnStop, LOnError e, LFinish r, LReturned r}"
    using assms onStop_pc [of cfg "t\<lparr>ls_shutdownErr := protect ''shutdown'' o2\<rparr>"]
    by (cases "ls_pc t") (auto simp: shutdown_returned_def Let_def)
  from ends_grace [OF this] show ?thesis by (simp only: lrun_Cons)
qed

section \<open>Properties\<close>

text \<open>
  C7: Whatever the service and the hooks return or panic with, and however the stop signal, the
  signal handler, Stop calls and the goroutine in Serve are interleaved, a LoopContext that has
  returned called OnStart, then Service.Shutdown, then OnStop, each exactly once (the hooks if they
  are set), then OnError exactly once if and only if there was a final error, with that error; Serve was called at
  most once, and not after a failed OnStart; the service context is cancelled, the state is stopped,
  waiters in Shutdown get the result, and the server cannot be run or stopped again.
\<close>

theorem loop_calls_in_order:
  assumes run: "s = lrun cfg es NewServer" and ret: "ls_pc s = LReturned r"
  shows "filter (\<lambda>c. c \<noteq> CallServe) (ls_calls s) =
      (if cf_OnStart cfg then [CallOnStart] else []) @ [CallShutdown] @ (if cf_OnStop cfg then [CallOnStop] else []) @
      (case final_error s of Some e \<Rightarrow> if cf_OnError cfg then [CallOnError e] else [] | None \<Rightarrow> []) \<and>
    count_list (ls_calls s) CallServe \<le> 1 \<and> (ls_startErr s \<noteq> None \<longrightarrow> count_list (ls_calls s) CallServe = 0) \<and>
    ls_aborted s \<and> ls_state s = StateStopped \<and> Server_Shutdown_wait None s = Some r \<and>
    fst (Server_Stop s) = Some ErrNotRunning \<and> fst (LoopContext cfg s) = Some ErrAlreadyRunning"
proof -
  have inv: "linv cfg s" unfolding run by (rule lrun_linv [OF NewServer_linv])
  then have sv: "serve_ok s" by (simp add: linv_def)
  have "count_list (ls_calls s) CallServe \<le> 1" using serve_okD(1) [OF sv] by (simp split: gopc.splits)
  moreover have "ls_startErr s \<noteq> None \<longrightarrow> count_list (ls_calls s) CallServe = 0"
    using serve_okD(1,3) [OF sv] by simp
  ultimately show ?thesis using inv ret
    by (simp add: linv_def stop_calls_def start_calls_def error_calls_def Server_Shutdown_wait_def Server_Stop_def
        LoopContext_def begin_loop_def)
qed

definition demo_cfg :: lconfig where
  "demo_cfg = \<lparr>cf_Service = True, cf_OnStart = True, cf_OnStop = True, cf_OnError = True\<rparr>"

text \<open>A stop signal, a drain that times out, a service that does not react to the abort, an \<open>OnError\<close> that panics.\<close>

definition demo_stuck :: "lev list" where
  "demo_stuck = [EvLoopContext, EvOnStart (Returns None), EvServeBegins, EvStopCall, EvTakeStop, EvDrainEnds,
     EvShutdown (Returns (Some DeadlineExceeded)), EvGraceOver, EvOnStop (Panics ''boom''), EvOnError (Some ''log''), EvFinish]"

lemmas loop_eval = lrun_def LoopContext_def begin_loop_def log_call_def onStart_returned_def protect_def loop_run_def setState_def
  Server_Stop_def loop_stop_def shutdown_returned_def abort_waited_def onStop_def onStop_returned_def report_def
  report_returned_def loop_finish_def finish_def final_error_def errors_Join_def ignoreCanceled_def NewServer_def demo_cfg_def

lemma demo_stuck_returned:
  "ls_pc (lrun demo_cfg demo_stuck NewServer) = LReturned (Some (Joined
     [Joined [ErrAbortTimeout, DeadlineExceeded, PanicErr ''stop'' ''boom''], PanicErr ''error hook'' ''log'']))"
  by (simp add: demo_stuck_def loop_eval)

theorem loop_calls_in_order_witness:
  "\<exists>s r. s = lrun demo_cfg demo_stuck NewServer \<and> ls_pc s = LReturned r \<and> ls_state s = StateStopped \<and>
     filter (\<lambda>c. c \<noteq> CallServe) (ls_calls s) = [CallOnStart, CallShutdown, CallOnStop,
       CallOnError (Joined [ErrAbortTimeout, DeadlineExceeded, PanicErr ''stop'' ''boom''])]"
proof -
  have "final_error (lrun demo_cfg demo_stuck NewServer) =
      Some (Joined [ErrAbortTimeout, DeadlineExceeded, PanicErr ''stop'' ''boom''])"
    by (simp add: demo_stuck_def loop_eval)
  with loop_calls_in_order [OF refl demo_stuck_returned] demo_stuck_returned show ?thesis
    by (simp add: demo_cfg_def)
qed

text \<open>
  C12: The result of LoopContext loses no failure except a cancelled drain: it is nil exactly when
  OnStart, Serve, OnStop and the drain all succeeded (a drain whose error contains context.Canceled
  counts as one), and otherwise errors.Is finds in it the error of each of them, also when
  OnError panics. The Serve error is the one Serve returned, or ErrAbortTimeout.
\<close>

theorem result_reports_every_failure:
  assumes run: "s = lrun cfg es NewServer" and ret: "ls_pc s = LReturned r"
  shows "(r = None \<longleftrightarrow> final_error s = None) \<and>
    (final_error s = None \<longleftrightarrow> ls_startErr s = None \<and> ls_serveErr s = None \<and>
       ignoreCanceled (ls_shutdownErr s) = None \<and> ls_stopErr s = None) \<and>
    (\<forall>e. ls_startErr s = Some e \<or> ls_stopErr s = Some e \<or> ls_startErr s = None \<and> ls_serveErr s = Some e \<or>
         ls_shutdownErr s = Some e \<and> (ls_startErr s \<noteq> None \<or> \<not> errors_Is e Canceled) \<longrightarrow>
       (\<exists>k. r = Some k \<and> errors_Is k e)) \<and>
    (ls_startErr s = None \<longrightarrow> ls_go s = Served (ls_serveErr s) \<or> ls_serveErr s = Some ErrAbortTimeout)"
proof (intro conjI allI impI)
  have inv: "linv cfg s" unfolding run by (rule lrun_linv [OF NewServer_linv])
  have r: "returned_as cfg (final_error s) r" using inv ret by (simp add: linv_def)
  show "r = None \<longleftrightarrow> final_error s = None" by (rule returned_as_None [OF r])
  show "final_error s = None \<longleftrightarrow> ls_startErr s = None \<and> ls_serveErr s = None \<and>
      ignoreCanceled (ls_shutdownErr s) = None \<and> ls_stopErr s = None"
    by (auto simp: final_error_def errors_Join_None)
  show "\<exists>k. r = Some k \<and> errors_Is k e"
    if "ls_startErr s = Some e \<or> ls_stopErr s = Some e \<or> ls_startErr s = None \<and> ls_serveErr s = Some e \<or>
      ls_shutdownErr s = Some e \<and> (ls_startErr s \<noteq> None \<or> \<not> errors_Is e Canceled)" for e
  proof -
    have "\<exists>j. final_error s = Some j \<and> errors_Is j e"
      using that unfolding final_error_def by (auto intro!: errors_Join_Is simp: ignoreCanceled_def)
    then show ?thesis using r returned_as_Is by metis
  qed
  show "ls_go s = Served (ls_serveErr s) \<or> ls_serveErr s = Some ErrAbortTimeout" if "ls_startErr s = None"
    using inv ret that by (auto simp: linv_def serve_ok_def)
qed

theorem result_reports_every_failure_witness:
  "\<exists>s r k. s = lrun demo_cfg demo_stuck NewServer \<and> ls_pc s = LReturned r \<and> r = Some k \<and>
     errors_Is k (PanicErr ''stop'' ''boom'')"
proof -
  have "ls_stopErr (lrun demo_cfg demo_stuck NewServer) = Some (PanicErr ''stop'' ''boom'')"
    by (simp add: demo_stuck_def loop_eval)
  with result_reports_every_failure [OF refl demo_stuck_returned] demo_stuck_returned show ?thesis by blast
qed



section \<open>A drain error that is lost\<close>

text \<open>
  \<open>ignoreCanceled\<close> drops the whole error of \<open>Service.Shutdown\<close> when \<open>errors.Is\<close> finds \<open>context.Canceled\<close> in
  it. For a group, that error joins those of all members: when a second signal cancels the drain of
  one member, the failure of another is lost with it, and \<open>LoopContext\<close> returns nil.
\<close>

theorem cancelled_group_drain_hides_failure:
  assumes "cfg = \<lparr>cf_Service = True, cf_OnStart = False, cf_OnStop = False, cf_OnError = True\<rparr>"
    and "s = lrun cfg [EvLoopContext, EvServeBegins, EvStopCall, EvTakeStop, EvForce, EvDrainEnds,
      EvShutdown (Returns (group_Shutdown [Some Canceled, Some e])), EvServeReturns (Returns None), EvTakeServed, EvFinish] NewServer"
  shows "ls_pc s = LReturned None \<and> ls_shutdownErr s = Some (Joined [Canceled, e])"
  by (simp add: assms loop_eval group_Shutdown_def forceAbort_def)

end
