(* ===== verification/Tcp_Service.thy ===== *)
theory Tcp_Service
  imports Tcp_Run Lifecycle
begin

text \<open>
  A \<open>tcp.Server\<close> run by \<open>LoopContext\<close>: the model of \<open>Lifecycle\<close>, in which the calls of the service are
  answered by the model of \<open>Tcp\<close> instead of by arbitrary results. The lemmas carry the invariants of
  both through every run of the two together and add the one that links them.
\<close>

section \<open>The process\<close>

text \<open>
  \<open>pr_begun\<close> is \<open>None\<close> before the call of \<open>Serve\<close>; after it, the error with which that call returned at
  once, if it did.
\<close>

record process =
  pr_loop :: lserver
  pr_tcp :: "concurrency tcpServer"
  pr_begun :: "terr option option"

definition new_process :: "concurrency tcpServer \<Rightarrow> process" where
  "new_process t = \<lparr>pr_loop = NewServer, pr_tcp = t, pr_begun = None\<rparr>"

text \<open>The errors of the server, as \<open>error\<close> values.\<close>

fun service_err :: "terr \<Rightarrow> gerr" where
  "service_err TErrClosed = GErr ''tcp: closed''"
| "service_err (TMsg m) = GErr m"
| "service_err (TAccept m) = GErr (''tcp: accept: '' @ m)"
| "service_err (TListen e) = GErr ''tcp: listen''"
| "service_err (TCtx m) = (if m = ''context canceled'' then Canceled else DeadlineExceeded)"

text \<open>What the call of \<open>Serve\<close> returns, once it does.\<close>

definition serve_result :: "process \<Rightarrow> terr option option" where
  "serve_result p =
     (case pr_begun p of
        None \<Rightarrow> None
      | Some (Some e) \<Rightarrow> Some (Some e)
      | Some None \<Rightarrow> (case ts_serve (pr_tcp p) of Returned r \<Rightarrow> Some r | _ \<Rightarrow> None))"

definition in_Shutdown :: "lserver \<Rightarrow> bool" where
  "in_Shutdown s \<longleftrightarrow> ls_pc s = LShutdown \<or> ls_pc s = LStartShutdown"

fun calls_service :: "lev \<Rightarrow> bool" where
  "calls_service EvServeBegins = True"
| "calls_service (EvServeReturns out) = True"
| "calls_service (EvShutdown out) = True"
| "calls_service e = False"

definition tcp_conc :: "tcp_ev \<Rightarrow> concurrency tcpServer \<Rightarrow> concurrency tcpServer" where
  "tcp_conc e t = snd (tcp_step Concurrency_TryAcquire Concurrency_Release e t)"

text \<open>
  One step of the process: of \<open>LoopContext\<close>, its hooks and its callers, where the step that enters
  \<open>Service.Shutdown\<close> also runs the server's \<open>Shutdown\<close> up to its wait; the begin and the end of \<open>Serve\<close>;
  the end of \<open>Shutdown\<close>, with \<open>Some m\<close> when its context ended with \<open>m\<close>; and any step of the goroutines of the
  server, or of others that call its \<open>Close\<close>.
\<close>

datatype pev = PLoop lev | PServeBegins | PServeReturns | PShutdownReturns "string option" | PNet tcp_ev

fun process_step :: "lconfig \<Rightarrow> pev \<Rightarrow> process \<Rightarrow> process" where
  "process_step cfg (PLoop e) p =
     (if calls_service e then p
      else (let l = lstep cfg e (pr_loop p)
            in p\<lparr>pr_loop := l,
                 pr_tcp := (if in_Shutdown l \<and> \<not> in_Shutdown (pr_loop p) then snd (Tcp_Shutdown_begin (pr_tcp p)) else pr_tcp p)\<rparr>))"
| "process_step cfg PServeBegins p =
     (if ls_go (pr_loop p) = Spawned
      then (let (e, t) = Tcp_Serve_begin (pr_tcp p)
            in p\<lparr>pr_loop := lstep cfg EvServeBegins (pr_loop p), pr_tcp := t, pr_begun := Some e\<rparr>)
      else p)"
| "process_step cfg PServeReturns p =
     (case serve_result p of
        None \<Rightarrow> p
      | Some r \<Rightarrow> p\<lparr>pr_loop := lstep cfg (EvServeReturns (Returns (map_option service_err r))) (pr_loop p)\<rparr>)"
| "process_step cfg (PShutdownReturns ctx) p =
     (if \<not> in_Shutdown (pr_loop p) then p
      else if \<not> ts_serving (pr_tcp p) then p\<lparr>pr_loop := lstep cfg (EvShutdown (Returns None)) (pr_loop p)\<rparr>
      else if (case ctx of None \<Rightarrow> serve_result p \<noteq> None | Some m \<Rightarrow> ls_drainDone (pr_loop p))
      then (let (e, t) = Tcp_Shutdown_wait ctx (pr_tcp p)
            in p\<lparr>pr_loop := lstep cfg (EvShutdown (Returns (map_option service_err e))) (pr_loop p), pr_tcp := t\<rparr>)
      else p)"
| "process_step cfg (PNet e) p = (if e = EvServe then p else p\<lparr>pr_tcp := tcp_conc e (pr_tcp p)\<rparr>)"

definition process_run :: "lconfig \<Rightarrow> pev list \<Rightarrow> process \<Rightarrow> process" where
  "process_run cfg es p = fold (process_step cfg) es p"

section \<open>The server under its own steps\<close>

text \<open>The calls of the loop are steps of the server.\<close>

lemma tcp_conc_calls:
  "tcp_conc EvServe t = snd (Tcp_Serve_begin t)" "tcp_conc EvStop t = snd (Tcp_Shutdown_begin t)"
  "ts_stopped t \<Longrightarrow> tcp_conc (EvAbort m) t = snd (Tcp_Shutdown_wait (Some m) t)"
  by (simp_all add: tcp_conc_def tcp_step_def tcp_do_def)

abbreviation conc_inv :: "nat option \<times> i64 option \<times> int \<Rightarrow> concurrency tcpServer \<Rightarrow> bool" where
  "conc_inv \<equiv> tcp_inv concurrency_inv concurrency_held (\<lambda>c. nat (sint (c_max c)))"

lemma tcp_conc_inv: "conc_inv lims t \<Longrightarrow> conc_inv lims (tcp_conc e t)"
  unfolding tcp_conc_def by (rule conc_admission.running.step_inv)

text \<open>
  The server stays stopped, stays returned, and begins to serve only in a call of \<open>Serve\<close> before it has
  stopped.
\<close>

definition grows :: "'l tcpServer \<Rightarrow> 'l tcpServer \<Rightarrow> bool" where
  "grows s t \<longleftrightarrow> (ts_stopped s \<longrightarrow> ts_stopped t) \<and> (ts_serve s = NotServing \<longleftrightarrow> ts_serve t = NotServing) \<and>
     (\<forall>r. ts_serve s = Returned r \<longrightarrow> ts_serve t = Returned r)"

lemma grows_refl [simp]: "grows s s"
  by (simp add: grows_def)

lemma grows_upd [simp]: "grows s (upd_conn i f t) = grows s t" "grows s (at_phase i q t) = grows s t" "grows s (netConn_Close i t) = grows s t"
  by (simp_all add: grows_def)

lemma grows_release: "grows s (res_state (tcp_release rel i s))" "grows s (res_state (releasePerIP i s))"
  using tcp_release_control [of s rel i] releasePerIP_control [of s i] by (simp_all add: grows_def same_control_def)

lemma serveConn_grows: "grows s (res_state (serveConn rel i s))"
proof (cases "tc_phase (ts_heap s ! i)")
  case PRelease
  have "grows s (res_state (tcp_release rel i (at_phase i PUntrack s)))"
    using grows_release(1) [of "at_phase i PUntrack s" rel i] by (simp add: grows_def)
  with PRelease show ?thesis by (simp add: serveConn_def)
qed (simp_all add: serveConn_def grows_def untrack_conns_def untrack_active_def untrack_closed_def wg_Done_def)

lemma acceptLoop_grows:
  assumes "ts_serve s = Admitting i"
  shows "grows s (res_state (acceptLoop acq rel i s))"
proof (cases "tc_phase (ts_heap s ! i)")
  case PAdmit
  obtain t where "same_control s t"
    and "if panics (accept_admit acq i s) then res_state (accept_admit acq i s) = t
      else res_state (accept_admit acq i s) \<in> {rejected_conn i t, at_phase i PTrack t}"
    by (rule accept_admit_control)
  then show ?thesis using PAdmit assms
    by (auto simp: acceptLoop_def grows_def same_control_def rejected_conn_def split: if_splits)
next
  case PTrack
  obtain t where "same_control s t"
    and "res_state (accept_track rel i s) =
      (if \<not> ts_stopped s then at_phase i PCount (s\<lparr>ts_conns := insert i (ts_conns s)\<rparr>)
       else if panics (accept_track rel i s) then t else refused_conn i t)"
    by (rule accept_track_control)
  then show ?thesis using PTrack assms
    by (auto simp: acceptLoop_def grows_def same_control_def refused_conn_def split: if_splits)
qed (use assms in \<open>simp_all add: acceptLoop_def grows_def\<close>)

lemma Tcp_Serve_grows: "grows s (res_state (Tcp_Serve acq rel s))"
  by (cases "ts_serve s") (simp_all add: Tcp_Serve_def acceptLoop_grows, simp_all add: grows_def abortAll_def)

lemma accept_conn_grows: "ts_serve s = Accepting \<Longrightarrow> grows s (accept_conn a s)"
  by (auto simp: accept_conn_def grows_def Let_def split: option.splits prod.splits)

lemma tcp_conc_grows:
  assumes "e \<noteq> EvServe"
  shows "grows t (tcp_conc e t)"
proof (cases e)
  case (EvConn i)
  then show ?thesis by (simp add: tcp_conc_def tcp_step_def tcp_do_def serveConn_grows)
next
  case EvLoop
  then show ?thesis by (simp add: tcp_conc_def tcp_step_def tcp_do_def Tcp_Serve_grows)
next
  case (EvAccept a)
  then show ?thesis by (simp add: tcp_conc_def tcp_step_def tcp_do_def accept_conn_grows)
qed (use assms in \<open>auto simp: tcp_conc_def tcp_step_def tcp_do_def grows_def accept_error_def accept_wait_def abortAll_def
  Tcp_Shutdown_begin_def Tcp_Shutdown_wait_def Let_def\<close>)

section \<open>The loop under its own steps\<close>

lemma onStop_frame [simp]: "ls_go (onStop cfg s) = ls_go s" "\<not> in_Shutdown (onStop cfg s)"
  "CallShutdown \<in> set (ls_calls (onStop cfg s)) \<longleftrightarrow> CallShutdown \<in> set (ls_calls s)"
  by (auto simp: onStop_def report_def log_call_def in_Shutdown_def split: option.splits)

lemmas loop_steps = LoopContext_def begin_loop_def loop_run_def setState_def log_call_def onStart_returned_def
  loop_stop_def abort_waited_def onStop_returned_def report_def report_returned_def loop_finish_def finish_def
  Server_Stop_def parent_done_def forceAbort_def

text \<open>
  Only entering \<open>Shutdown\<close> calls it, and the goroutine of \<open>Serve\<close> is started once.
\<close>

lemma lstep_own:
  assumes inv: "linv cfg s" and "\<not> calls_service e"
  shows "CallShutdown \<in> set (ls_calls (lstep cfg e s)) \<Longrightarrow>
      CallShutdown \<in> set (ls_calls s) \<or> in_Shutdown (lstep cfg e s) \<and> \<not> in_Shutdown s"
    and "ls_go (lstep cfg e s) = ls_go s \<or> ls_go s = NoGo \<and> ls_go (lstep cfg e s) = Spawned"
proof -
  have go: "ls_pc s = LIdle \<Longrightarrow> ls_go s = NoGo" "ls_pc s = LOnStart \<Longrightarrow> ls_go s = NoGo"
    using inv by (simp_all add: linv_def serve_ok_def)
  have new: "ls_state s = StateNew \<Longrightarrow> ls_pc s = LIdle"
    using inv by (cases "ls_pc s") (auto simp: linv_def split: if_splits)
  show "CallShutdown \<in> set (ls_calls (lstep cfg e s)) \<Longrightarrow>
      CallShutdown \<in> set (ls_calls s) \<or> in_Shutdown (lstep cfg e s) \<and> \<not> in_Shutdown s"
    using assms(2)
    by (cases e) (auto simp: loop_steps in_Shutdown_def Let_def split: option.splits gopc.splits lpc.splits if_splits)
  show "ls_go (lstep cfg e s) = ls_go s \<or> ls_go s = NoGo \<and> ls_go (lstep cfg e s) = Spawned"
    using assms(2) go new
    by (cases e) (auto simp: loop_steps Let_def split: option.splits gopc.splits lpc.splits)
qed

section \<open>The two together\<close>

definition process_ok :: "lconfig \<Rightarrow> nat option \<times> i64 option \<times> int \<Rightarrow> process \<Rightarrow> bool" where
  "process_ok cfg lims p \<longleftrightarrow>
     linv cfg (pr_loop p) \<and> conc_inv lims (pr_tcp p) \<and>
     (pr_begun p = None \<longleftrightarrow> ls_go (pr_loop p) \<in> {NoGo, Spawned}) \<and>
     (ts_serve (pr_tcp p) = NotServing \<longleftrightarrow> pr_begun p \<noteq> Some None) \<and>
     (\<forall>x. ls_go (pr_loop p) = Served x \<longrightarrow> serve_result p \<noteq> None) \<and>
     (CallShutdown \<in> set (ls_calls (pr_loop p)) \<longrightarrow> ts_stopped (pr_tcp p))"

lemma new_process_ok: "conc_inv lims t \<Longrightarrow> ts_serve t = NotServing \<Longrightarrow> process_ok cfg lims (new_process t)"
  by (simp add: process_ok_def new_process_def NewServer_linv) (simp add: NewServer_def)

lemma serve_result_grows:
  assumes "grows (pr_tcp p) t" and "serve_result p \<noteq> None"
  shows "serve_result (p\<lparr>pr_loop := l, pr_tcp := t\<rparr>) \<noteq> None"
  using assms by (auto simp: serve_result_def grows_def split: option.splits servepc.splits)

text \<open>A step of the loop, of the server, or of both, that is not a call of \<open>Serve\<close>.\<close>

lemma process_ok_step:
  assumes ok: "process_ok cfg lims p" and inv: "linv cfg l" "conc_inv lims t" and t: "grows (pr_tcp p) t"
    and go: "ls_go l = ls_go (pr_loop p) \<or> ls_go (pr_loop p) = NoGo \<and> ls_go l = Spawned \<or>
      ls_go (pr_loop p) = InServe \<and> (\<exists>x. ls_go l = Served x) \<and> serve_result p \<noteq> None"
    and calls: "CallShutdown \<in> set (ls_calls l) \<Longrightarrow> CallShutdown \<in> set (ls_calls (pr_loop p)) \<or> ts_stopped t"
  shows "process_ok cfg lims (p\<lparr>pr_loop := l, pr_tcp := t\<rparr>)"
proof -
  have "serve_result (p\<lparr>pr_loop := l, pr_tcp := t\<rparr>) \<noteq> None" if "ls_go l = Served x" for x
  proof (rule serve_result_grows [OF t])
    from that go consider "ls_go (pr_loop p) = Served x" | "serve_result p \<noteq> None" by fastforce
    then show "serve_result p \<noteq> None" using ok by cases (auto simp: process_ok_def)
  qed
  moreover have "pr_begun p = None \<longleftrightarrow> ls_go l \<in> {NoGo, Spawned}"
    using ok go by (auto simp: process_ok_def)
  ultimately show ?thesis using ok inv t calls by (simp add: process_ok_def grows_def) blast
qed

lemma shutdown_frame:
  "ls_go (lstep cfg (EvShutdown out) s) = ls_go s"
  "CallShutdown \<in> set (ls_calls (lstep cfg (EvShutdown out) s)) \<longleftrightarrow> CallShutdown \<in> set (ls_calls s)"
  by (simp_all add: shutdown_returned_def Let_def)

lemma in_Shutdown_called: "linv cfg s \<Longrightarrow> in_Shutdown s \<Longrightarrow> CallShutdown \<in> set (ls_calls s)"
proof -
  assume "linv cfg s" "in_Shutdown s"
  then have "CallShutdown \<in> set (filter (\<lambda>c. c \<noteq> CallServe) (ls_calls s))" by (auto simp: linv_def in_Shutdown_def)
  then show ?thesis by simp
qed

lemma process_step_loop:
  assumes ok: "process_ok cfg lims p"
  shows "process_ok cfg lims (process_step cfg (PLoop e) p)"
proof (cases "calls_service e")
  case False
  let ?l = "lstep cfg e (pr_loop p)"
  let ?t = "if in_Shutdown ?l \<and> \<not> in_Shutdown (pr_loop p) then snd (Tcp_Shutdown_begin (pr_tcp p)) else pr_tcp p"
  have inv: "linv cfg (pr_loop p)" "conc_inv lims (pr_tcp p)" using ok by (simp_all add: process_ok_def)
  have "process_ok cfg lims (p\<lparr>pr_loop := ?l, pr_tcp := ?t\<rparr>)"
  proof (rule process_ok_step [OF ok lstep_linv [OF inv(1)]])
    show "conc_inv lims ?t" using inv(2) tcp_conc_inv [OF inv(2), of EvStop] by (simp add: tcp_conc_calls)
    show "grows (pr_tcp p) ?t" using tcp_conc_grows [of EvStop "pr_tcp p"] by (simp add: tcp_conc_calls)
    show "CallShutdown \<in> set (ls_calls (pr_loop p)) \<or> ts_stopped ?t" if "CallShutdown \<in> set (ls_calls ?l)"
      using lstep_own(1) [OF inv(1) False that] by (auto simp: Tcp_Shutdown_begin_def Let_def)
  qed (use lstep_own(2) [OF inv(1) False] in blast)
  with False show ?thesis by (simp add: Let_def)
qed (use ok in simp)

lemma process_step_serve:
  assumes ok: "process_ok cfg lims p"
  shows "process_ok cfg lims (process_step cfg PServeBegins p)" "process_ok cfg lims (process_step cfg PServeReturns p)"
proof -
  have inv: "linv cfg (pr_loop p)" "conc_inv lims (pr_tcp p)" using ok by (simp_all add: process_ok_def)
  have wh: "where_ok (pr_tcp p)" using inv(2) by (simp add: tcp_inv_def control_ok_def)
  show "process_ok cfg lims (process_step cfg PServeBegins p)"
  proof (cases "ls_go (pr_loop p) = Spawned")
    case True
    let ?t = "snd (Tcp_Serve_begin (pr_tcp p))"
    have no: "ts_serve (pr_tcp p) = NotServing" "\<not> ts_serving (pr_tcp p)"
      using ok True where_okD(4) [OF wh] by (simp_all add: process_ok_def)
    have "conc_inv lims ?t" using tcp_conc_inv [OF inv(2), of EvServe] by (simp add: tcp_conc_calls)
    moreover have "linv cfg (lstep cfg EvServeBegins (pr_loop p))" by (rule lstep_linv [OF inv(1)])
    moreover have "ts_serve ?t = NotServing \<longleftrightarrow> fst (Tcp_Serve_begin (pr_tcp p)) \<noteq> None" "ts_stopped ?t = ts_stopped (pr_tcp p)"
      using no by (simp_all add: Tcp_Serve_begin_def)
    ultimately show ?thesis using ok True by (simp add: process_ok_def log_call_def case_prod_beta)
  qed (use ok in simp)
  show "process_ok cfg lims (process_step cfg PServeReturns p)"
  proof (cases "serve_result p")
    case (Some r)
    let ?l = "lstep cfg (EvServeReturns (Returns (map_option service_err r))) (pr_loop p)"
    have "process_ok cfg lims (p\<lparr>pr_loop := ?l, pr_tcp := pr_tcp p\<rparr>)"
      by (rule process_ok_step [OF ok lstep_linv [OF inv(1)] inv(2)]) (use Some in \<open>auto split: if_splits\<close>)
    with Some show ?thesis by simp
  qed (use ok in simp)
qed

lemma process_step_shutdown:
  assumes ok: "process_ok cfg lims p"
  shows "process_ok cfg lims (process_step cfg (PShutdownReturns ctx) p)"
proof (cases "in_Shutdown (pr_loop p)")
  case True
  have inv: "linv cfg (pr_loop p)" "conc_inv lims (pr_tcp p)" using ok by (simp_all add: process_ok_def)
  have st: "ts_stopped (pr_tcp p)" using ok in_Shutdown_called [OF inv(1) True] by (simp add: process_ok_def)
  have step: "process_ok cfg lims (p\<lparr>pr_loop := lstep cfg (EvShutdown out) (pr_loop p), pr_tcp := t\<rparr>)"
    if "conc_inv lims t" "grows (pr_tcp p) t" for out t
    by (rule process_ok_step [OF ok lstep_linv [OF inv(1)] that]) (simp_all only: shutdown_frame, simp_all)
  have "process_ok cfg lims (p\<lparr>pr_loop := lstep cfg (EvShutdown out) (pr_loop p)\<rparr>)" for out
    using step [OF inv(2) grows_refl, of out] by simp
  moreover have "process_ok cfg lims (p\<lparr>pr_loop := lstep cfg (EvShutdown out) (pr_loop p), pr_tcp := snd (Tcp_Shutdown_wait ctx (pr_tcp p))\<rparr>)"
    for out
  proof (cases ctx)
    case None
    then show ?thesis using step [OF inv(2) grows_refl] by (simp add: Tcp_Shutdown_wait_def)
  next
    case (Some m)
    then show ?thesis
      using step [OF tcp_conc_inv [OF inv(2)] tcp_conc_grows, of "EvAbort m"] by (simp add: tcp_conc_calls st)
  qed
  ultimately show ?thesis using True ok by (simp add: case_prod_beta del: lstep.simps)
qed (use ok in simp)

lemma process_step_ok:
  assumes ok: "process_ok cfg lims p"
  shows "process_ok cfg lims (process_step cfg e p)"
proof (cases e)
  case (PNet ev)
  show ?thesis
  proof (cases "ev = EvServe")
    case False
    have inv: "linv cfg (pr_loop p)" "conc_inv lims (pr_tcp p)" using ok by (simp_all add: process_ok_def)
    have "process_ok cfg lims (p\<lparr>pr_loop := pr_loop p, pr_tcp := tcp_conc ev (pr_tcp p)\<rparr>)"
      by (rule process_ok_step [OF ok inv(1) tcp_conc_inv [OF inv(2)] tcp_conc_grows [OF False]]) simp_all
    with PNet False show ?thesis by simp
  qed (use PNet ok in simp)
qed (use process_step_loop [OF ok] process_step_serve [OF ok] process_step_shutdown [OF ok] in simp_all)

interpretation processes: event_invariant "process_step cfg" "process_ok cfg lims" for cfg lims
  by unfold_locales (rule process_step_ok)

lemma process_run_ok: "process_ok cfg lims p \<Longrightarrow> process_ok cfg lims (process_run cfg es p)"
  unfolding process_run_def by (rule processes.events_keep)

text \<open>A server whose \<open>Serve\<close> was never called, or returned at once, has not accepted anything.\<close>

lemma unserved_all_free:
  assumes i: "tcp_inv concurrency_inv concurrency_held cap lims s" and no: "ts_serve s = NotServing"
  shows "ts_heap s = [] \<and> ts_conns s = {} \<and> (\<forall>c. ts_admit s = Some c \<longrightarrow> c_inUse c = 0) \<and>
    (\<forall>p. ts_perIP s = Some p \<longrightarrow> PerKey_Keys p = 0)"
proof -
  have "where_ok s" and sl: "slots_ok concurrency_inv concurrency_held s" using i by (simp_all add: tcp_inv_def control_ok_def)
  then have h: "ts_heap s = []" "ts_conns s = {}" using no by (simp_all add: where_ok_def)
  then have "phases s = []" by (simp add: phases_def)
  with sl h show ?thesis
    by (auto simp: slots_ok_def admit_ok_def perip_ok_def slots_def PerKey_Keys_eq concurrency_held_def concurrency_inv_def
        signed_eq_0_iff)
qed

lemma returned_calls_Shutdown:
  assumes "linv cfg s" and "ls_pc s = LReturned r"
  shows "CallShutdown \<in> set (ls_calls s)"
proof -
  have "CallShutdown \<in> set (filter (\<lambda>c. c \<noteq> CallServe) (ls_calls s))" using assms by (simp add: linv_def stop_calls_def)
  then show ?thesis by simp
qed

text \<open>What a returned loop says about the goroutine of \<open>Serve\<close>: the service was not started, or has ended, or is reported.\<close>

lemma returned_loop:
  assumes inv: "linv cfg s" and ret: "ls_pc s = LReturned r"
    and "\<not> (\<exists>k. r = Some k \<and> errors_Is k ErrAbortTimeout)"
  shows "ls_go s = NoGo \<or> ls_go s = Served (ls_serveErr s)"
proof -
  have sv: "serve_ok s" and r: "returned_as cfg (final_error s) r" using inv ret by (simp_all add: linv_def)
  show ?thesis
  proof (cases "ls_startErr s")
    case None
    have "ls_serveErr s \<noteq> Some ErrAbortTimeout"
    proof
      assume "ls_serveErr s = Some ErrAbortTimeout"
      then have "\<exists>j. final_error s = Some j \<and> errors_Is j ErrAbortTimeout"
        using None unfolding final_error_def by (auto intro!: errors_Join_Is)
      with r assms(3) returned_as_Is show False by metis
    qed
    with sv None ret show ?thesis by (auto simp: serve_ok_def)
  qed (use serve_okD(3) [OF sv] in simp)
qed

section \<open>A run\<close>

text \<open>
  A connection is in its handler when \<open>Stop\<close> is called; the drain ends with its deadline, the connection
  is aborted and its goroutine ends, \<open>Serve\<close> returns, and so does \<open>LoopContext\<close>, with the error of the drain.
\<close>

lemma process_run_append: "process_run cfg (es @ fs) p = process_run cfg fs (process_run cfg es p)"
  by (simp add: process_run_def)

lemma process_run_net:
  "EvServe \<notin> set es \<Longrightarrow> process_run cfg (map PNet es) p =
     p\<lparr>pr_tcp := snd (run_ops (tcp_step Concurrency_TryAcquire Concurrency_Release) es (pr_tcp p))\<rparr>"
  by (induction es arbitrary: p) (auto simp: process_run_def tcp_conc_def)

definition bare_cfg :: lconfig where
  "bare_cfg = \<lparr>cf_Service = True, cf_OnStart = False, cf_OnStop = False, cf_OnError = False\<rparr>"

definition demo_process :: "pev list" where
  "demo_process = [PLoop EvLoopContext, PServeBegins] @ map PNet (tl demo_accepted) @
     [PLoop EvStopCall, PLoop EvTakeStop, PLoop EvDrainEnds, PShutdownReturns (Some ''context deadline exceeded''),
      PNet (EvAcceptErr ''use of closed network connection'' False)] @ map PNet (replicate 7 (EvConn 0)) @
     [PNet EvLoop, PServeReturns, PLoop EvTakeServed, PLoop EvFinish]"

definition demo_loop :: lserver where "demo_loop = lrun bare_cfg [EvLoopContext, EvServeBegins] NewServer"
definition demo_loop_aborted :: lserver where
  "demo_loop_aborted = lrun bare_cfg [EvStopCall, EvTakeStop, EvDrainEnds, EvShutdown (Returns (Some DeadlineExceeded))] demo_loop"

lemmas loop_demo = demo_loop_def demo_loop_aborted_def bare_cfg_def loop_eval

lemma demo_process_begun:
  "process_run bare_cfg [PLoop EvLoopContext, PServeBegins] (new_process demo_tcp) =
     \<lparr>pr_loop = demo_loop, pr_tcp = snd (Tcp_Serve_begin demo_tcp), pr_begun = Some None\<rparr>"
  by (simp add: process_run_def new_process_def in_Shutdown_def loop_demo demo_tcp_eq Tcp_Serve_begin_def)

lemma demo_process_served:
  "snd (run_ops (tcp_step Concurrency_TryAcquire Concurrency_Release) (tl demo_accepted) (snd (Tcp_Serve_begin demo_tcp))) = demo_served"
proof -
  have "demo_accepted = EvServe # tl demo_accepted" by (simp add: demo_accepted_def)
  then have "snd (run_ops (tcp_step Concurrency_TryAcquire Concurrency_Release) (EvServe # tl demo_accepted) demo_tcp) = demo_served"
    using demo_accepted_run by simp
  then show ?thesis by (simp add: tcp_step_def [of _ _ EvServe] tcp_do_def)
qed

lemma demo_process_aborted:
  "process_run bare_cfg [PLoop EvStopCall, PLoop EvTakeStop, PLoop EvDrainEnds,
       PShutdownReturns (Some ''context deadline exceeded''), PNet (EvAcceptErr ''use of closed network connection'' False)]
     \<lparr>pr_loop = demo_loop, pr_tcp = demo_served, pr_begun = Some None\<rparr> =
   \<lparr>pr_loop = demo_loop_aborted, pr_tcp = demo_aborted, pr_begun = Some None\<rparr>"
  by (simp add: process_run_def in_Shutdown_def loop_demo)
     (simp add: demo_served_def demo_aborted_def tcp_conc_def tcp_step_def tcp_do_def
      Tcp_Shutdown_begin_def Tcp_Shutdown_wait_def stopAccept_def abortAll_def close_conns_def accept_error_def)

lemma demo_process_returned:
  "\<exists>p. process_run bare_cfg demo_process (new_process demo_tcp) = p \<and>
     ls_pc (pr_loop p) = LReturned (Some (Joined [DeadlineExceeded])) \<and> length (ts_heap (pr_tcp p)) = 1"
proof -
  have no: "EvServe \<notin> set (tl demo_accepted)" "EvServe \<notin> set (replicate 7 (EvConn 0))"
    by (simp_all add: demo_accepted_def)
  show ?thesis unfolding demo_process_def
    by (simp only: process_run_append demo_process_begun process_run_net [OF no(1)] process_run_net [OF no(2)]
        demo_process_served demo_process_aborted demo_conn_run process.simps snd_conv)
       (simp add: process_run_def serve_result_def in_Shutdown_def tcp_conc_def tcp_step_def tcp_do_def Tcp_Serve_def
          demo_aborted_def demo_served_def loop_demo)
qed

end
