(* ===== verification/Leak.thy ===== *)
theory Leak
  imports Socket
begin

text \<open>
  Package \<open>internal/leak\<close> (\<open>leak.go\<close>, \<open>fds_linux.go\<close>, \<open>fds_other.go\<close>): the baseline check the tests of every
  package use. What the process has at each look, and the clock, are observations of the run. The
  loop of \<open>Check\<close> may go on as long as the clock does not pass the deadline; the lemmas say when it
  ends and what it then returns.
\<close>

record snapshot =
  sn_Goroutines :: int
  sn_FDs :: int

text \<open>\<open>openFDs\<close>: the entries of \<open>/proc/self/fd\<close>, if they can be read, on Linux; elsewhere it does not know.\<close>

definition openFDs :: "goos \<Rightarrow> nat option \<Rightarrow> int" where
  "openFDs os entries = (if os = Linux then (case entries of None \<Rightarrow> -1 | Some n \<Rightarrow> int n) else -1)"

definition Take :: "goos \<Rightarrow> int \<Rightarrow> nat option \<Rightarrow> snapshot" where
  "Take os goroutines entries = \<lparr>sn_Goroutines = goroutines, sn_FDs = openFDs os entries\<rparr>"

definition within :: "snapshot \<Rightarrow> int \<Rightarrow> snapshot \<Rightarrow> bool" where
  "within s slack now \<longleftrightarrow> sn_Goroutines now \<le> sn_Goroutines s + slack \<and>
     (sn_FDs s < 0 \<or> sn_FDs now < 0 \<or> sn_FDs now \<le> sn_FDs s + slack)"

text \<open>
  \<open>Check\<close> from its \<open>i\<close>-th look on: \<open>look i\<close> is what \<open>Take\<close> returns there and \<open>clock i\<close> the time read after
  it. The outer option is a loop that does not end; the inner one is the error, with what it reports.
\<close>

partial_function (option) Check_from ::
    "(nat \<Rightarrow> snapshot) \<Rightarrow> (nat \<Rightarrow> int) \<Rightarrow> snapshot \<Rightarrow> int \<Rightarrow> int \<Rightarrow> nat \<Rightarrow> (snapshot \<times> snapshot) option option" where
  "Check_from look clock s deadline slack i =
     (if within s slack (look i) then Some None
      else if deadline < clock i then Some (Some (s, look i))
      else Check_from look clock s deadline slack (Suc i))"

definition Snapshot_Check ::
    "(nat \<Rightarrow> snapshot) \<Rightarrow> (nat \<Rightarrow> int) \<Rightarrow> int \<Rightarrow> snapshot \<Rightarrow> int \<Rightarrow> int \<Rightarrow> (snapshot \<times> snapshot) option option" where
  "Snapshot_Check look clock start s timeout slack = Check_from look clock s (start + timeout) slack 0"

text \<open>The loop ends at its first look at which the baseline is met or the deadline has passed.\<close>

lemma Check_from_ends:
  assumes "i \<le> n" and "within s slack (look n) \<or> deadline < clock n"
    and "\<And>j. i \<le> j \<Longrightarrow> j < n \<Longrightarrow> \<not> within s slack (look j) \<and> clock j \<le> deadline"
  shows "Check_from look clock s deadline slack i = Some (if within s slack (look n) then None else Some (s, look n))"
  using assms
proof (induction "n - i" arbitrary: i)
  case 0
  then show ?case by (subst Check_from.simps) auto
next
  case (Suc k)
  then have "\<not> within s slack (look i)" "\<not> deadline < clock i" "k = n - Suc i" "Suc i \<le> n" by fastforce+
  with Suc.hyps(1) [of "Suc i"] Suc.prems show ?case by (subst Check_from.simps) auto
qed

text \<open>
  A clock that passes the deadline ends the check. It returns nil exactly when the process was within
  the baseline at some look with no earlier look past the deadline, and otherwise reports the
  baseline and the first look past the deadline.
\<close>

theorem Check_result:
  assumes "start + timeout < clock m"
  shows "\<exists>r. Snapshot_Check look clock start s timeout slack = Some r \<and>
    (r = None \<longleftrightarrow> (\<exists>n. within s slack (look n) \<and> (\<forall>j < n. clock j \<le> start + timeout)))"
proof -
  define stop where "stop n \<longleftrightarrow> within s slack (look n) \<or> start + timeout < clock n" for n
  define n where "n = (LEAST n. stop n)"
  have "stop m" using assms by (simp add: stop_def)
  then have n: "stop n" "\<And>j. j < n \<Longrightarrow> \<not> stop j" unfolding n_def by (auto intro: LeastI dest: not_less_Least)
  then have "Snapshot_Check look clock start s timeout slack = Some (if within s slack (look n) then None else Some (s, look n))"
    unfolding Snapshot_Check_def by (intro Check_from_ends) (auto simp: stop_def not_less)
  moreover have "within s slack (look n) \<longleftrightarrow> (\<exists>n. within s slack (look n) \<and> (\<forall>j < n. clock j \<le> start + timeout))"
  proof
    assume "\<exists>n. within s slack (look n) \<and> (\<forall>j < n. clock j \<le> start + timeout)"
    then obtain k where k: "within s slack (look k)" "\<forall>j < k. clock j \<le> start + timeout" by blast
    have "n \<le> k" using n(2) k(1) by (meson not_le stop_def)
    with n(1) k show "within s slack (look n)" unfolding stop_def by (metis le_neq_implies_less not_le)
  qed (use n(2) in \<open>auto simp: stop_def not_less\<close>)
  ultimately show ?thesis by auto
qed

end
