(* ===== verification/Socks5.thy ===== *)
theory Socks5
  imports Netx_Prelude
begin

text \<open>
  The SOCKS5 proxy among the examples (\<open>src/examples/socks5-server/main.go\<close>), the largest client of
  package \<open>tcp\<close> in the repository: the handshake that parses what an untrusted peer sends, the dial of
  the target, and the relay between the two connections.

  The lemmas show which byte streams the handshake accepts and what it makes of them, that the relay
  delivers every byte in order, and that it does not pass on the end of the upstream's stream.
\<close>

section \<open>Connections\<close>

datatype nerr = EOF | ErrUnexpectedEOF | NetErr string | SocksErr string

text \<open>
  A \<open>net.Conn\<close>: the bytes that have arrived and are not read yet and what a read returns after them
  (\<open>None\<close> while the peer keeps it open); the bytes written, how many more can be before a write fails
  (\<open>None\<close> for any number); whether its dynamic type has a \<open>CloseWrite\<close>, and whether that was called.
\<close>

record conn =
  cn_in :: "byte list"
  cn_end :: "nerr option"
  cn_out :: "byte list"
  cn_room :: "nat option"
  cn_halfcloses :: bool
  cn_fin :: bool

text \<open>\<open>io.ReadFull\<close> under a deadline, which ends a read that would wait.\<close>

definition ReadFull :: "nat \<Rightarrow> conn \<Rightarrow> (nerr + byte list) \<times> conn" where
  "ReadFull n c =
     (if n \<le> length (cn_in c) then (Inr (take n (cn_in c)), c\<lparr>cn_in := drop n (cn_in c)\<rparr>)
      else (Inl (case cn_end c of
                   None \<Rightarrow> NetErr ''i/o timeout''
                 | Some e \<Rightarrow> if e = EOF \<and> cn_in c \<noteq> [] then ErrUnexpectedEOF else e),
            c\<lparr>cn_in := []\<rparr>))"

definition conn_Write :: "byte list \<Rightarrow> conn \<Rightarrow> nerr option \<times> conn" where
  "conn_Write bs c =
     (case cn_room c of
        None \<Rightarrow> (None, c\<lparr>cn_out := cn_out c @ bs\<rparr>)
      | Some n \<Rightarrow>
          (if length bs \<le> n then (None, c\<lparr>cn_out := cn_out c @ bs, cn_room := Some (n - length bs)\<rparr>)
           else (Some (NetErr ''write''), c\<lparr>cn_out := cn_out c @ take n bs, cn_room := Some 0\<rparr>)))"

section \<open>Text forms\<close>

text \<open>\<open>strconv.Itoa\<close> of a number that is not negative, and its hexadecimal counterpart.\<close>

definition digit :: "nat \<Rightarrow> char" where
  "digit d = (if d < 10 then char_of (48 + d) else char_of (87 + d))"

fun digits :: "nat \<Rightarrow> nat \<Rightarrow> string" where
  "digits b n = (if b < 2 \<or> n < b then [digit n] else digits b (n div b) @ [digit (n mod b)])"

declare digits.simps [simp del]

definition Itoa :: "nat \<Rightarrow> string" where "Itoa n = digits 10 n"

text \<open>
  \<open>net.IP.String\<close>: dotted for 4 bytes and for the mapped form in 16; otherwise the eight groups of 16
  bits in hexadecimal, with the first longest run of at least two zero groups written as two colons.
\<close>

definition IP_To4 :: "byte list \<Rightarrow> byte list option" where
  "IP_To4 ip =
     (if length ip = 4 then Some ip
      else if length ip = 16 \<and> list_all (\<lambda>x. x = 0) (take 10 ip) \<and> ip ! 10 = 0xff \<and> ip ! 11 = 0xff then Some (drop 12 ip)
      else None)"

definition dotted :: "byte list \<Rightarrow> string" where
  "dotted ip = concat (map (\<lambda>i. (if i = 0 then '''' else ''.'') @ Itoa (unat (ip ! i))) [0..<4])"

definition group16 :: "byte list \<Rightarrow> nat \<Rightarrow> nat" where
  "group16 ip i = 256 * unat (ip ! (2 * i)) + unat (ip ! (2 * i + 1))"

definition zero_run :: "byte list \<Rightarrow> nat \<Rightarrow> nat" where
  "zero_run ip i = length (takeWhile (\<lambda>j. group16 ip j = 0) [i..<8])"

text \<open>The longest run so far: its start and its end.\<close>

definition longest_run :: "byte list \<Rightarrow> nat \<times> nat" where
  "longest_run ip =
     fold (\<lambda>i (a, b). let l = zero_run ip i in if 2 \<le> l \<and> b - a < l then (i, i + l) else (a, b)) [0..<8] (255, 255)"

fun groups_from :: "byte list \<Rightarrow> nat \<times> nat \<Rightarrow> nat \<Rightarrow> nat \<Rightarrow> string" where
  "groups_from ip (a, b) i 0 = ''''"
| "groups_from ip (a, b) i (Suc fuel) =
     (if 8 \<le> i then ''''
      else if i = a
      then ''::'' @ (if 8 \<le> b then '''' else digits 16 (group16 ip b) @ groups_from ip (a, b) (Suc b) fuel)
      else (if 0 < i then '':'' else '''') @ digits 16 (group16 ip i) @ groups_from ip (a, b) (Suc i) fuel)"

definition hexed :: "byte list \<Rightarrow> string" where
  "hexed ip = groups_from ip (longest_run ip) 0 9"

definition IP_String :: "byte list \<Rightarrow> string" where
  "IP_String ip =
     (if ip = [] then ''<nil>''
      else if length ip \<noteq> 4 \<and> length ip \<noteq> 16
      then ''?'' @ concat (map (\<lambda>b. [digit (unat b div 16), digit (unat b mod 16)]) ip)
      else (case IP_To4 ip of Some p4 \<Rightarrow> dotted p4 | None \<Rightarrow> hexed ip))"

definition JoinHostPort :: "string \<Rightarrow> string \<Rightarrow> string" where
  "JoinHostPort host port =
     (if CHR '':'' \<in> set host then ''['' @ host @ '']:'' @ port else host @ '':'' @ port)"

definition bytes_string :: "byte list \<Rightarrow> string" where
  "bytes_string bs = map (\<lambda>b. char_of (unat b)) bs"

section \<open>Handshake\<close>

text \<open>The address of a request, by its type.\<close>

definition read_host :: "byte \<Rightarrow> conn \<Rightarrow> (nerr + string) \<times> conn" where
  "read_host atyp c =
     (if atyp = 1
      then (case ReadFull 4 c of
              (Inl e, c1) \<Rightarrow> (Inl e, c1)
            | (Inr address, c1) \<Rightarrow> (Inr (IP_String address), c1))
      else if atyp = 3
      then (case ReadFull 1 c of
              (Inl e, c1) \<Rightarrow> (Inl e, c1)
            | (Inr len, c1) \<Rightarrow>
                (case ReadFull (unat (len ! 0)) c1 of
                   (Inl e, c2) \<Rightarrow> (Inl e, c2)
                 | (Inr address, c2) \<Rightarrow> (Inr (bytes_string address), c2)))
      else if atyp = 4
      then (case ReadFull 16 c of
              (Inl e, c1) \<Rightarrow> (Inl e, c1)
            | (Inr address, c1) \<Rightarrow> (Inr (IP_String address), c1))
      else (Inl (SocksErr (''SOCKS5: unsupported address type '' @ Itoa (unat atyp))), c))"

text \<open>The greeting: the client must offer the method without authentication.\<close>

definition greet :: "conn \<Rightarrow> nerr option \<times> conn" where
  "greet c =
     (case ReadFull 2 c of
        (Inl e, c1) \<Rightarrow> (Some e, c1)
      | (Inr header, c1) \<Rightarrow>
          (if header ! 0 \<noteq> 5 then (Some (SocksErr ''SOCKS5: unsupported version''), c1)
           else (case ReadFull (unat (header ! 1)) c1 of
                   (Inl e, c2) \<Rightarrow> (Some e, c2)
                 | (Inr methods, c2) \<Rightarrow>
                     (if \<not> list_ex (\<lambda>m. m = 0) methods
                      then (Some (SocksErr ''SOCKS5: no-auth method was not offered''), snd (conn_Write [5, 0xff] c2))
                      else conn_Write [5, 0] c2))))"

definition read_request :: "conn \<Rightarrow> (nerr + string) \<times> conn" where
  "read_request c =
     (case ReadFull 4 c of
        (Inl e, c1) \<Rightarrow> (Inl e, c1)
      | (Inr request, c1) \<Rightarrow>
          (if request ! 0 \<noteq> 5 \<or> request ! 1 \<noteq> 1 then (Inl (SocksErr ''SOCKS5: only CONNECT is supported''), c1)
           else (case read_host (request ! 3) c1 of
                   (Inl e, c2) \<Rightarrow> (Inl e, c2)
                 | (Inr host, c2) \<Rightarrow>
                     (case ReadFull 2 c2 of
                        (Inl e, c3) \<Rightarrow> (Inl e, c3)
                      | (Inr port, c3) \<Rightarrow>
                          (Inr (JoinHostPort host (Itoa (256 * unat (port ! 0) + unat (port ! 1)))), c3)))))"

definition handshake :: "conn \<Rightarrow> (nerr + string) \<times> conn" where
  "handshake c =
     (case greet c of
        (Some e, c1) \<Rightarrow> (Inl e, c1)
      | (None, c1) \<Rightarrow> read_request c1)"

section \<open>Relay\<close>

definition CloseWrite :: "conn \<Rightarrow> conn" where
  "CloseWrite c = (if cn_halfcloses c then c\<lparr>cn_fin := True\<rparr> else c)"

text \<open>
  The next action of \<open>copyConn\<close>: one chunk of at most \<open>k\<close> bytes; or, when the source ends or the write
  fails, what follows \<open>io.Copy\<close>. The first result says whether the goroutine is done.
\<close>

definition copyConn :: "nat \<Rightarrow> conn \<Rightarrow> conn \<Rightarrow> bool \<times> conn \<times> conn" where
  "copyConn k dst src =
     (if cn_in src = []
      then (case cn_end src of None \<Rightarrow> (False, dst, src) | Some e \<Rightarrow> (True, CloseWrite dst, src))
      else (case conn_Write (take (Suc k) (cn_in src)) dst of
              (None, dst1) \<Rightarrow> (False, dst1, src\<lparr>cn_in := drop (Suc k) (cn_in src)\<rparr>)
            | (Some e, dst1) \<Rightarrow> (True, CloseWrite dst1, src\<lparr>cn_in := drop (Suc k) (cn_in src)\<rparr>)))"

text \<open>The two goroutines of \<open>relay\<close>, which returns when both are done.\<close>

record relay =
  rl_left :: conn
  rl_right :: conn
  rl_doneLeft :: bool
  rl_doneRight :: bool

definition relay_start :: "conn \<Rightarrow> conn \<Rightarrow> relay" where
  "relay_start left right = \<lparr>rl_left = left, rl_right = right, rl_doneLeft = False, rl_doneRight = False\<rparr>"

definition relay_returns :: "relay \<Rightarrow> bool" where
  "relay_returns r \<longleftrightarrow> rl_doneLeft r \<and> rl_doneRight r"

definition peer_sends :: "byte list \<Rightarrow> conn \<Rightarrow> conn" where
  "peer_sends bs c = (if cn_end c = None then c\<lparr>cn_in := cn_in c @ bs\<rparr> else c)"

definition peer_ends :: "nerr \<Rightarrow> conn \<Rightarrow> conn" where
  "peer_ends e c = (if cn_end c = None then c\<lparr>cn_end := Some e\<rparr> else c)"

text \<open>A step of a goroutine (towards the left or the right connection), or of one of the two peers.\<close>

datatype relay_ev = ToLeft nat | ToRight nat | LeftSends "byte list" | RightSends "byte list" | LeftEnds nerr | RightEnds nerr

fun relay_step :: "relay_ev \<Rightarrow> relay \<Rightarrow> relay" where
  "relay_step (ToLeft k) r =
     (if rl_doneLeft r then r
      else (let (d, left, right) = copyConn k (rl_left r) (rl_right r)
            in r\<lparr>rl_left := left, rl_right := right, rl_doneLeft := d\<rparr>))"
| "relay_step (ToRight k) r =
     (if rl_doneRight r then r
      else (let (d, right, left) = copyConn k (rl_right r) (rl_left r)
            in r\<lparr>rl_left := left, rl_right := right, rl_doneRight := d\<rparr>))"
| "relay_step (LeftSends bs) r = r\<lparr>rl_left := peer_sends bs (rl_left r)\<rparr>"
| "relay_step (RightSends bs) r = r\<lparr>rl_right := peer_sends bs (rl_right r)\<rparr>"
| "relay_step (LeftEnds e) r = r\<lparr>rl_left := peer_ends e (rl_left r)\<rparr>"
| "relay_step (RightEnds e) r = r\<lparr>rl_right := peer_ends e (rl_right r)\<rparr>"

definition relay_run :: "relay_ev list \<Rightarrow> relay \<Rightarrow> relay" where
  "relay_run es r = fold relay_step es r"

text \<open>
  \<open>serveSOCKS5\<close> up to its call of \<open>relay\<close>: the error, or the relay that starts. \<open>deadline\<close> is the error of
  the first \<open>SetDeadline\<close>, \<open>dial\<close> is \<open>net.Dialer.DialContext\<close>.
\<close>

definition serveSOCKS5 :: "nerr option \<Rightarrow> (string \<Rightarrow> nerr + conn) \<Rightarrow> conn \<Rightarrow> (nerr + relay) \<times> conn" where
  "serveSOCKS5 deadline dial client =
     (case deadline of
        Some e \<Rightarrow> (Inl e, client)
      | None \<Rightarrow>
          (case handshake client of
             (Inl e, c1) \<Rightarrow> (Inl e, c1)
           | (Inr target, c1) \<Rightarrow>
               (case dial target of
                  Inl e \<Rightarrow> (Inl e, snd (conn_Write [5, 1, 0, 1, 0, 0, 0, 0, 0, 0] c1))
                | Inr upstream \<Rightarrow>
                    (case conn_Write [5, 0, 0, 1, 0, 0, 0, 0, 0, 0] c1 of
                       (Some e, c2) \<Rightarrow> (Inl e, c2)
                     | (None, c2) \<Rightarrow> (Inr (relay_start c2 upstream), c2)))))"

section \<open>Requests of a client\<close>

text \<open>The messages of RFC 1928 that a client sends to connect to an address.\<close>

datatype socksAddr = SockV4 "byte list" | SockName "byte list" | SockV6 "byte list"

fun addr_ok :: "socksAddr \<Rightarrow> bool" where
  "addr_ok (SockV4 bs) \<longleftrightarrow> length bs = 4"
| "addr_ok (SockName bs) \<longleftrightarrow> length bs < 256"
| "addr_ok (SockV6 bs) \<longleftrightarrow> length bs = 16"

fun addr_type :: "socksAddr \<Rightarrow> byte" where
  "addr_type (SockV4 bs) = 1"
| "addr_type (SockName bs) = 3"
| "addr_type (SockV6 bs) = 4"

fun addr_bytes :: "socksAddr \<Rightarrow> byte list" where
  "addr_bytes (SockV4 bs) = bs"
| "addr_bytes (SockName bs) = of_nat (length bs) # bs"
| "addr_bytes (SockV6 bs) = bs"

fun addr_host :: "socksAddr \<Rightarrow> string" where
  "addr_host (SockV4 bs) = IP_String bs"
| "addr_host (SockName bs) = bytes_string bs"
| "addr_host (SockV6 bs) = IP_String bs"

definition greeting :: "byte list \<Rightarrow> byte list" where
  "greeting ms = [5, of_nat (length ms)] @ ms"

definition connect_request :: "byte \<Rightarrow> socksAddr \<Rightarrow> byte \<Rightarrow> byte \<Rightarrow> byte list" where
  "connect_request rsv a hi lo = [5, 1, rsv, addr_type a] @ addr_bytes a @ [hi, lo]"

lemma ReadFull_Inr:
  "ReadFull n c = (Inr bs, c') \<longleftrightarrow> (\<exists>rest. length bs = n \<and> cn_in c = bs @ rest \<and> c' = c\<lparr>cn_in := rest\<rparr>)"
  by (auto simp: ReadFull_def intro!: exI [of _ "drop n (cn_in c)"])

lemma length_1D: "length xs = 1 \<Longrightarrow> xs = [xs ! 0]"
  by (cases xs) auto

lemma length_2D: "length xs = 2 \<Longrightarrow> xs = [xs ! 0, xs ! 1]"
  by (auto simp: numeral_2_eq_2 length_Suc_conv)

lemma length_4D: "length xs = 4 \<Longrightarrow> xs = [xs ! 0, xs ! 1, xs ! 2, xs ! 3]"
  by (auto simp: numeral_eq_Suc length_Suc_conv)

lemma byte_length: "n = unat (b :: byte) \<longleftrightarrow> n < 256 \<and> b = of_nat n"
  using unsigned_less [of b] by (auto simp: unat_of_nat)

text \<open>A read of a request succeeds on exactly the streams that begin with one.\<close>

lemma read_hostE:
  assumes "read_host t c = (Inr h, c')"
  obtains a rest where "addr_ok a" "addr_type a = t" "cn_in c = addr_bytes a @ rest" "h = addr_host a" "c' = c\<lparr>cn_in := rest\<rparr>"
proof -
  consider "t = 1" | "t = 3" | "t = 4" | "t \<notin> {1, 3, 4}" by blast
  then show ?thesis
  proof cases
    case 1
    with assms obtain bs where "ReadFull 4 c = (Inr bs, c')" "h = IP_String bs"
      by (auto simp: read_host_def split: prod.splits sum.splits)
    with 1 that [of "SockV4 bs"] show ?thesis by (auto simp: ReadFull_Inr)
  next
    case 2
    with assms obtain len bs c1 where r: "ReadFull 1 c = (Inr len, c1)" "ReadFull (unat (len ! 0)) c1 = (Inr bs, c')" "h = bytes_string bs"
      by (auto simp: read_host_def split: prod.splits sum.splits)
    obtain rest1 where 1: "length len = 1" "cn_in c = len @ rest1" "c1 = c\<lparr>cn_in := rest1\<rparr>" using r(1) ReadFull_Inr by blast
    obtain rest where 2: "length bs = unat (len ! 0)" "rest1 = bs @ rest" "c' = c\<lparr>cn_in := rest\<rparr>"
      using r(2) ReadFull_Inr [of _ c1] 1(3) by auto
    from 2(1) have "length bs < 256" "len ! 0 = of_nat (length bs)" by (simp_all add: byte_length)
    with 1 2 r(3) \<open>t = 3\<close> length_1D [OF 1(1)] that [of "SockName bs" rest] show ?thesis by (metis addr_ok.simps(2) addr_type.simps(2)
        addr_bytes.simps(2) addr_host.simps(2) append_Cons append_Nil)
  next
    case 3
    with assms obtain bs where "ReadFull 16 c = (Inr bs, c')" "h = IP_String bs"
      by (auto simp: read_host_def split: prod.splits sum.splits)
    with 3 that [of "SockV6 bs"] show ?thesis by (auto simp: ReadFull_Inr)
  qed (use assms in \<open>simp add: read_host_def\<close>)
qed

lemma read_host_ok:
  assumes "addr_ok a" and "cn_in c = addr_bytes a @ rest"
  shows "read_host (addr_type a) c = (Inr (addr_host a), c\<lparr>cn_in := rest\<rparr>)"
  using assms by (cases a) (simp_all add: read_host_def ReadFull_def unat_of_nat)

lemma read_requestE:
  assumes "read_request c = (Inr target, c')"
  obtains rsv a hi lo rest where "addr_ok a" "cn_in c = connect_request rsv a hi lo @ rest" "c' = c\<lparr>cn_in := rest\<rparr>"
    "target = JoinHostPort (addr_host a) (Itoa (256 * unat hi + unat lo))"
proof -
  obtain rq c1 h c2 port where r: "ReadFull 4 c = (Inr rq, c1)" "rq ! 0 = 5" "rq ! 1 = 1" "read_host (rq ! 3) c1 = (Inr h, c2)"
    "ReadFull 2 c2 = (Inr port, c')" "target = JoinHostPort h (Itoa (256 * unat (port ! 0) + unat (port ! 1)))"
    using assms by (auto simp: read_request_def split: prod.splits sum.splits if_splits)
  obtain rest1 where 1: "length rq = 4" "cn_in c = rq @ rest1" "c1 = c\<lparr>cn_in := rest1\<rparr>" using r(1) ReadFull_Inr by blast
  obtain a rest2 where 2: "addr_ok a" "addr_type a = rq ! 3" "rest1 = addr_bytes a @ rest2" "h = addr_host a" "c2 = c\<lparr>cn_in := rest2\<rparr>"
    using r(4) 1(3) by (auto elim: read_hostE)
  obtain rest where 3: "length port = 2" "rest2 = port @ rest" "c' = c\<lparr>cn_in := rest\<rparr>"
    using r(5) 2(5) by (auto simp: ReadFull_Inr)
  have "cn_in c = connect_request (rq ! 2) a (port ! 0) (port ! 1) @ rest"
    using 1(2) 2(2,3) 3(2) length_4D [OF 1(1)] length_2D [OF 3(1)] r(2,3) unfolding connect_request_def
    by (metis append_assoc append_Cons append_Nil)
  with 2(1,4) 3(3) r(6) that show ?thesis by blast
qed

lemma read_request_ok:
  assumes "addr_ok a" and "cn_in c = connect_request rsv a hi lo @ rest"
  shows "read_request c = (Inr (JoinHostPort (addr_host a) (Itoa (256 * unat hi + unat lo))), c\<lparr>cn_in := rest\<rparr>)"
proof -
  let ?c = "c\<lparr>cn_in := addr_bytes a @ hi # lo # rest\<rparr>"
  have "ReadFull 4 c = (Inr [5, 1, rsv, addr_type a], ?c)" using assms by (simp add: ReadFull_def connect_request_def)
  moreover have "read_host (addr_type a) ?c = (Inr (addr_host a), ?c\<lparr>cn_in := hi # lo # rest\<rparr>)"
    by (rule read_host_ok) (use assms in simp_all)
  ultimately show ?thesis by (simp add: read_request_def ReadFull_def)
qed

lemma greet_None:
  "greet c = (None, c') \<longleftrightarrow>
     (\<exists>ms rest. length ms < 256 \<and> 0 \<in> set ms \<and> cn_in c = greeting ms @ rest \<and> conn_Write [5, 0] (c\<lparr>cn_in := rest\<rparr>) = (None, c'))"
proof
  assume "greet c = (None, c')"
  then obtain hd c1 ms c2 where r: "ReadFull 2 c = (Inr hd, c1)" "hd ! 0 = 5" "ReadFull (unat (hd ! 1)) c1 = (Inr ms, c2)" "0 \<in> set ms"
    "conn_Write [5, 0] c2 = (None, c')"
    by (auto simp: greet_def list_ex_iff split: prod.splits sum.splits if_splits)
  obtain rest1 where 1: "length hd = 2" "cn_in c = hd @ rest1" "c1 = c\<lparr>cn_in := rest1\<rparr>" using r(1) ReadFull_Inr by blast
  obtain rest where 2: "length ms = unat (hd ! 1)" "rest1 = ms @ rest" "c2 = c\<lparr>cn_in := rest\<rparr>"
    using r(3) 1(3) by (auto simp: ReadFull_Inr)
  from 2(1) have "length ms < 256" "hd ! 1 = of_nat (length ms)" by (simp_all add: byte_length)
  moreover from this have "cn_in c = greeting ms @ rest"
    using 1(2) 2(2) length_2D [OF 1(1)] r(2) unfolding greeting_def by (metis append_assoc)
  ultimately show "\<exists>ms rest. length ms < 256 \<and> 0 \<in> set ms \<and> cn_in c = greeting ms @ rest \<and>
      conn_Write [5, 0] (c\<lparr>cn_in := rest\<rparr>) = (None, c')"
    using r(4,5) 2(3) by blast
qed (auto simp: greet_def greeting_def ReadFull_def unat_of_nat list_ex_iff)

lemma conn_Write_in:
  "conn_Write bs (c\<lparr>cn_in := x\<rparr>) = (fst (conn_Write bs c), (snd (conn_Write bs c))\<lparr>cn_in := x\<rparr>)"
  by (simp add: conn_Write_def split: option.splits)

section \<open>Properties\<close>


text \<open>The text forms at work.\<close>

lemma text_examples:
  "Itoa 443 = ''443''" "digits 16 8193 = ''2001''" "digits 16 3512 = ''db8''" "digits 16 1 = ''1''"
  by (simp_all add: Itoa_def digits.simps digit_def char_of_def bit_Suc_0_iff)

lemma groups_from_numeral:
  "groups_from ip (a, b) i (numeral k) =
     (if 8 \<le> i then ''''
      else if i = a
      then ''::'' @ (if 8 \<le> b then '''' else digits 16 (group16 ip b) @ groups_from ip (a, b) (Suc b) (pred_numeral k))
      else (if 0 < i then '':'' else '''') @ digits 16 (group16 ip i) @ groups_from ip (a, b) (Suc i) (pred_numeral k))"
  by (simp add: numeral_eq_Suc)

lemma hexed_example: "IP_String [32, 1, 13, 184, 0, 0, 0, 0, 0, 0, 0, 0, 0, 0, 0, 1] = ''2001:db8::1''"
proof -
  let ?ip = "[32, 1, 13, 184, 0, 0, 0, 0, 0, 0, 0, 0, 0, 0, 0, 1] :: byte list"
  have g: "group16 ?ip 0 = 8193" "group16 ?ip 1 = 3512" "group16 ?ip 2 = 0" "group16 ?ip 3 = 0" "group16 ?ip 4 = 0" "group16 ?ip 5 = 0"
    "group16 ?ip 6 = 0" "group16 ?ip 7 = 1"
    by (simp_all add: group16_def)
  have "[0..<8] = [0, 1, 2, 3, 4, 5, 6, 7]" "[1..<8] = [1, 2, 3, 4, 5, 6, 7]" "[2..<8] = [2, 3, 4, 5, 6, 7]" "[3..<8] = [3, 4, 5, 6, 7]"
    "[4..<8] = [4, 5, 6, 7]" "[5..<8] = [5, 6, 7]" "[6..<8] = [6, 7]" "[7..<8] = [7]"
    by (simp_all add: upt_rec)
  then have "longest_run ?ip = (2, 7)" by (simp add: longest_run_def zero_run_def g [simplified] del: upt_Suc upt_conv_Cons_Cons)
  then have "hexed ?ip = digits 16 8193 @ '':'' @ digits 16 3512 @ ''::'' @ digits 16 1"
    unfolding hexed_def by (simp add: g [simplified] groups_from_numeral)
  then show ?thesis by (simp add: IP_String_def IP_To4_def text_examples [simplified])
qed

section \<open>The relay\<close>

text \<open>
  What the peers send during a run; bytes sent after the end of a stream do not exist, so the runs of
  interest have none.
\<close>

fun right_sent :: "relay_ev list \<Rightarrow> byte list" where
  "right_sent [] = []"
| "right_sent (RightSends bs # es) = bs @ right_sent es"
| "right_sent (RightEnds e # es) = []"
| "right_sent (e # es) = right_sent es"

fun left_sent :: "relay_ev list \<Rightarrow> byte list" where
  "left_sent [] = []"
| "left_sent (LeftSends bs # es) = bs @ left_sent es"
| "left_sent (LeftEnds e # es) = []"
| "left_sent (e # es) = left_sent es"

lemma copyConn_moves:
  assumes "cn_room dst = None" and "copyConn k dst src = (d, dst', src')"
  shows "cn_out dst' @ cn_in src' = cn_out dst @ cn_in src" and "cn_room dst' = None" and "cn_in dst' = cn_in dst"
    and "cn_end dst' = cn_end dst" and "cn_end src' = cn_end src" and "cn_out src' = cn_out src" and "cn_room src' = cn_room src"
    and "d \<Longrightarrow> cn_in src' = [] \<and> cn_end src' \<noteq> None"
  using assms by (auto simp: copyConn_def conn_Write_def CloseWrite_def split: option.splits if_splits)

text \<open>While no write fails, each side has got a prefix of what the other sent, and all of it once its copier is done.\<close>

definition relay_ok :: "byte list \<Rightarrow> byte list \<Rightarrow> relay \<Rightarrow> bool" where
  "relay_ok sl sr r \<longleftrightarrow> cn_room (rl_left r) = None \<and> cn_room (rl_right r) = None \<and>
     cn_out (rl_left r) @ cn_in (rl_right r) = sr \<and> cn_out (rl_right r) @ cn_in (rl_left r) = sl \<and>
     (rl_doneLeft r \<longrightarrow> cn_in (rl_right r) = [] \<and> cn_end (rl_right r) \<noteq> None) \<and>
     (rl_doneRight r \<longrightarrow> cn_in (rl_left r) = [] \<and> cn_end (rl_left r) \<noteq> None)"

lemma relay_step_ok:
  assumes ok: "relay_ok sl sr r"
  shows "relay_ok (sl @ (if cn_end (rl_left r) = None then left_sent [e] else []))
    (sr @ (if cn_end (rl_right r) = None then right_sent [e] else [])) (relay_step e r)"
proof (cases e)
  case (ToLeft k)
  show ?thesis
  proof (cases "rl_doneLeft r")
    case False
    obtain d left right where cp: "copyConn k (rl_left r) (rl_right r) = (d, left, right)" by (cases "copyConn k (rl_left r) (rl_right r)")
    have "cn_room (rl_left r) = None" using ok by (simp add: relay_ok_def)
    note copyConn_moves [OF this cp]
    with ok False cp ToLeft show ?thesis by (simp add: relay_ok_def)
  qed (use ok ToLeft in simp)
next
  case (ToRight k)
  show ?thesis
  proof (cases "rl_doneRight r")
    case False
    obtain d right left where cp: "copyConn k (rl_right r) (rl_left r) = (d, right, left)" by (cases "copyConn k (rl_right r) (rl_left r)")
    have "cn_room (rl_right r) = None" using ok by (simp add: relay_ok_def)
    note copyConn_moves [OF this cp]
    with ok False cp ToRight show ?thesis by (simp add: relay_ok_def)
  qed (use ok ToRight in simp)
qed (use ok in \<open>auto simp: relay_ok_def peer_sends_def peer_ends_def\<close>)

lemma sent_step:
  "(if cn_end (rl_right r) = None then right_sent (e # es) else []) =
     (if cn_end (rl_right r) = None then right_sent [e] else []) @
     (if cn_end (rl_right (relay_step e r)) = None then right_sent es else [])"
  "(if cn_end (rl_left r) = None then left_sent (e # es) else []) =
     (if cn_end (rl_left r) = None then left_sent [e] else []) @
     (if cn_end (rl_left (relay_step e r)) = None then left_sent es else [])"
  by (cases e; auto simp: peer_sends_def peer_ends_def copyConn_def conn_Write_def CloseWrite_def split: prod.splits option.splits)+

lemma relay_run_ok:
  "relay_ok sl sr r \<Longrightarrow> relay_ok (sl @ (if cn_end (rl_left r) = None then left_sent es else []))
     (sr @ (if cn_end (rl_right r) = None then right_sent es else [])) (relay_run es r)"
proof (induction es arbitrary: sl sr r)
  case (Cons e es)
  from Cons.IH [OF relay_step_ok [OF Cons.prems, of e]] show ?case
    unfolding sent_step [of r e es] by (simp only: append_assoc) (simp add: relay_run_def)
qed (simp add: relay_run_def)

text \<open>
  As long as no write fails, the client has got a prefix of what the upstream sent and the upstream a
  prefix of what the client sent, and each has got everything when the relay returns.
\<close>

lemma relay_delivers:
  assumes "cn_room left = None" "cn_room right = None" "cn_end left = None" "cn_end right = None"
    and r: "r = relay_run es (relay_start left right)"
  shows "cn_out (rl_left r) @ cn_in (rl_right r) = cn_out left @ cn_in right @ right_sent es"
    and "cn_out (rl_right r) @ cn_in (rl_left r) = cn_out right @ cn_in left @ left_sent es"
    and "relay_returns r \<Longrightarrow> cn_in (rl_left r) = [] \<and> cn_in (rl_right r) = []"
proof -
  have "relay_ok (cn_out right @ cn_in left) (cn_out left @ cn_in right) (relay_start left right)"
    using assms by (simp add: relay_ok_def relay_start_def)
  from relay_run_ok [OF this, of es] have "relay_ok (cn_out right @ cn_in left @ left_sent es) (cn_out left @ cn_in right @ right_sent es) r"
    using assms by (simp add: relay_start_def)
  then show "cn_out (rl_left r) @ cn_in (rl_right r) = cn_out left @ cn_in right @ right_sent es"
    and "cn_out (rl_right r) @ cn_in (rl_left r) = cn_out right @ cn_in left @ left_sent es"
    and "relay_returns r \<Longrightarrow> cn_in (rl_left r) = [] \<and> cn_in (rl_right r) = []"
    by (simp_all add: relay_ok_def relay_returns_def)
qed

text \<open>
  The client's connection is a \<open>*tcp.Conn\<close>, which embeds the interface \<open>net.Conn\<close> and therefore has no
  \<open>CloseWrite\<close>. When the upstream has sent everything and ended, the client is never told: its side is not
  shut down, and the relay goes on until the client ends its own stream.
\<close>

definition unheard :: "relay \<Rightarrow> bool" where
  "unheard r \<longleftrightarrow> \<not> cn_halfcloses (rl_left r) \<and> \<not> cn_fin (rl_left r) \<and> cn_end (rl_left r) = None \<and>
     cn_room (rl_right r) = None \<and> \<not> rl_doneRight r"

lemma unheard_step: "unheard r \<Longrightarrow> \<forall>x. LeftEnds x \<noteq> e \<Longrightarrow> unheard (relay_step e r)"
  by (cases e) (auto simp: unheard_def peer_sends_def peer_ends_def copyConn_def conn_Write_def CloseWrite_def
      split: prod.splits option.splits if_splits)

theorem upstream_end_is_not_passed_on:
  assumes "\<not> cn_halfcloses left" "\<not> cn_fin left" "cn_end left = None" "cn_room right = None"
    and r: "r = relay_run es (relay_start left right)" and no: "\<forall>x. LeftEnds x \<notin> set es"
  shows "\<not> cn_fin (rl_left r) \<and> \<not> relay_returns r"
proof -
  have "unheard s \<Longrightarrow> unheard (relay_run es s)" for s
    using no by (induction es arbitrary: s) (auto simp: relay_run_def unheard_step)
  then have "unheard r" using assms by (simp add: unheard_def relay_start_def)
  then show ?thesis by (simp add: unheard_def relay_returns_def)
qed

end
