(* ===== verification/Testdoc.thy ===== *)
theory Testdoc
  imports Netx_Prelude "HOL-Library.List_Lexorder" "HOL-Library.AList"
begin

text \<open>
  The command \<open>internal/tools/testdoc\<close> (\<open>main.go\<close>), which keeps the checkpoint tables of
  \<open>docs/TESTING.md\<close> and the directives of the test functions in correspondence.

  Strings are lists of Unicode code points (the sources are UTF-8; the order of code points is the
  order of the encoded strings, so sorting agrees). The repository is a tree of directories and files,
  where a Go file carries what \<open>go/parser\<close> makes of it. The lemmas show that the rows that are found are
  well formed, and that a document regenerated by \<open>-w\<close> is up to date.
\<close>

section \<open>Strings\<close>

type_synonym runes = "nat list"

definition lit :: "string \<Rightarrow> runes" where "lit s = map of_char s"

definition HasPrefix :: "runes \<Rightarrow> runes \<Rightarrow> bool" where
  "HasPrefix s p \<longleftrightarrow> take (length p) s = p"

definition HasSuffix :: "runes \<Rightarrow> runes \<Rightarrow> bool" where
  "HasSuffix s p \<longleftrightarrow> HasPrefix (rev s) (rev p)"

definition TrimPrefix :: "runes \<Rightarrow> runes \<Rightarrow> runes" where
  "TrimPrefix s p = (if HasPrefix s p then drop (length p) s else s)"

definition TrimSuffix :: "runes \<Rightarrow> runes \<Rightarrow> runes" where
  "TrimSuffix s p = (if HasSuffix s p then take (length s - length p) s else s)"

definition trim :: "(nat \<Rightarrow> bool) \<Rightarrow> runes \<Rightarrow> runes" where
  "trim P s = rev (dropWhile P (rev (dropWhile P s)))"

text \<open>White space as \<open>unicode.IsSpace\<close> has it.\<close>

definition IsSpace :: "nat \<Rightarrow> bool" where
  "IsSpace r \<longleftrightarrow> 9 \<le> r \<and> r \<le> 13 \<or> 0x2000 \<le> r \<and> r \<le> 0x200a \<or>
     r \<in> set [32, 0x85, 0xa0, 0x1680, 0x2028, 0x2029, 0x202f, 0x205f, 0x3000]"

definition TrimSpace :: "runes \<Rightarrow> runes" where "TrimSpace s = trim IsSpace s"

fun Split :: "runes \<Rightarrow> nat \<Rightarrow> runes list" where
  "Split [] sep = [[]]"
| "Split (c # cs) sep = (if c = sep then [] # Split cs sep else (c # hd (Split cs sep)) # tl (Split cs sep))"

fun Join :: "runes list \<Rightarrow> runes \<Rightarrow> runes" where
  "Join [] sep = []"
| "Join [w] sep = w"
| "Join (w # v # ws) sep = w @ sep @ Join (v # ws) sep"

definition Contains :: "runes \<Rightarrow> runes \<Rightarrow> bool" where
  "Contains s sub \<longleftrightarrow> list_ex (\<lambda>i. HasPrefix (drop i s) sub) [0..<Suc (length s)]"

definition is_upper :: "nat \<Rightarrow> bool" where "is_upper r \<longleftrightarrow> 65 \<le> r \<and> r \<le> 90"
definition is_digit :: "nat \<Rightarrow> bool" where "is_digit r \<longleftrightarrow> 48 \<le> r \<and> r \<le> 57"

text \<open>The length of the match of \<open>[A-Z]+-\d+\<close> at the start of a string.\<close>

definition id_prefix :: "runes \<Rightarrow> nat option" where
  "id_prefix s =
     (let u = takeWhile is_upper s; r = dropWhile is_upper s; d = takeWhile is_digit (tl r)
      in if u \<noteq> [] \<and> r \<noteq> [] \<and> hd r = 45 \<and> d \<noteq> [] then Some (length u + 1 + length d) else None)"

definition idRe :: "runes \<Rightarrow> bool" where
  "idRe s \<longleftrightarrow> id_prefix s = Some (length s)"

text \<open>\<open>FindAllString\<close> with that expression.\<close>

function find_ids :: "runes \<Rightarrow> runes list" where
  "find_ids s =
     (if s = [] then []
      else (case id_prefix s of
              Some n \<Rightarrow> take n s # find_ids (drop n s)
            | None \<Rightarrow> find_ids (tl s)))"
  by auto
termination
  by (relation "measure length") (auto simp: id_prefix_def Let_def split: if_splits)

declare find_ids.simps [simp del]

text \<open>
  \<open>directiveRe\<close> on a trimmed string: what follows \<open>Checks:\<close> and white space, if that is one line and not empty.
\<close>

definition directiveRe :: "runes \<Rightarrow> runes option" where
  "directiveRe s =
     (if HasPrefix s (lit ''Checks:'')
      then (let r = dropWhile (\<lambda>c. c \<in> set [9, 10, 12, 13, 32]) (drop 7 s)
            in if r = [] \<or> 10 \<in> set r then None else Some r)
      else None)"

section \<open>Tests and rows\<close>

record test =
  te_Pkg :: runes
  te_Name :: runes
  te_Pos :: runes
  te_IDs :: "runes list"

definition Label :: "test \<Rightarrow> runes" where
  "Label t = te_Pkg t @ lit ''.'' @ TrimPrefix (te_Name t) (lit ''Test'')"

record row =
  ro_Line :: nat
  ro_Cells :: "runes list"
  ro_ID :: runes
  ro_Status :: runes

text \<open>The words and symbols of the document.\<close>

definition w_tests :: runes where "w_tests = [0x6d4b, 0x8bd5]"
definition w_notes :: runes where "w_notes = [0x8bf4, 0x660e]"
definition w_problem :: runes where "w_problem = [0x95ee, 0x9898]"

definition tested_marks :: "runes list" where "tested_marks = [[0x2705], [0x26a0, 0xfe0f]]"
definition untested_marks :: "runes list" where "untested_marks = [[0x274c], [0x1f527], [0x2796], [0x2699, 0xfe0f]]"

definition render :: "test list \<Rightarrow> runes" where
  "render tests = Join (sort (map (\<lambda>t. lit ''`'' @ Label t @ lit ''`'') tests)) (lit ''<br>'')"

definition split_cells :: "runes \<Rightarrow> runes list" where
  "split_cells line = map TrimSpace (Split (trim (\<lambda>r. r = 124) (TrimSpace line)) 124)"

definition contains_cell :: "runes list \<Rightarrow> runes \<Rightarrow> bool" where
  "contains_cell cells s \<longleftrightarrow> list_ex (\<lambda>c. c = s) cells"

definition statusOf :: "runes list \<Rightarrow> runes" where
  "statusOf cells = (if length cells < 3 then [] else cells ! (length cells - 3))"

text \<open>The loop of \<open>parseDoc\<close>: its two flags, the rows by ID, and the references with their lines.\<close>

record parse =
  pa_inCheckpoints :: bool
  pa_inRegression :: bool
  pa_rows :: "(runes \<times> row) list"
  pa_refs :: "(runes \<times> nat) list"

text \<open>A line whose first cell is an ID.\<close>

definition add_row :: "nat \<Rightarrow> runes list \<Rightarrow> parse \<Rightarrow> parse" where
  "add_row i cells p =
     (let p1 = (if pa_inCheckpoints p
                then p\<lparr>pa_rows := AList.update (cells ! 0)
                         \<lparr>ro_Line = i, ro_Cells = cells, ro_ID = cells ! 0, ro_Status = statusOf cells\<rparr> (pa_rows p)\<rparr>
                else p)
      in if pa_inRegression p1 \<and> 4 \<le> length cells
         then p1\<lparr>pa_refs := pa_refs p1 @ map (\<lambda>part. (part, i)) (find_ids (cells ! 3))\<rparr>
         else p1)"

definition parse_line :: "nat \<Rightarrow> runes \<Rightarrow> parse \<Rightarrow> parse" where
  "parse_line i l p =
     (if \<not> HasPrefix l (lit ''|'') then p\<lparr>pa_inCheckpoints := False, pa_inRegression := False\<rparr>
      else (let cells = split_cells l; n = length cells
            in if n = 0 then p
               else if 2 \<le> n \<and> cells ! (n - 2) = w_tests \<and> cells ! (n - 1) = w_notes then p\<lparr>pa_inCheckpoints := True\<rparr>
               else if cells ! 0 = lit ''ID'' \<and> contains_cell cells w_problem then p\<lparr>pa_inRegression := True\<rparr>
               else if \<not> idRe (cells ! 0) then p
               else add_row i cells p))"

fun parse_from :: "nat \<Rightarrow> runes list \<Rightarrow> parse \<Rightarrow> parse" where
  "parse_from i [] p = p"
| "parse_from i (l # ls) p = parse_from (Suc i) ls (parse_line i l p)"

definition parseDoc :: "runes list \<Rightarrow> (runes \<times> row) list \<times> (runes \<times> nat) list" where
  "parseDoc lines =
     (let p = parse_from 0 lines \<lparr>pa_inCheckpoints = False, pa_inRegression = False, pa_rows = [], pa_refs = []\<rparr>
      in (pa_rows p, pa_refs p))"

section \<open>Checking the document\<close>

datatype problem =
    UnknownCheckpoint runes runes runes
  | NoTest nat runes runes
  | TestsDeclared nat runes runes nat
  | StaleColumn nat runes
  | UnknownReference nat runes
  | NoDirective runes runes
  | NoDesign runes

text \<open>The tests that declare each checkpoint, and the declarations of unknown ones.\<close>

definition declare_id :: "(runes \<times> row) list \<Rightarrow> test \<Rightarrow> runes \<Rightarrow> (runes \<Rightarrow> test list) \<times> problem list
    \<Rightarrow> (runes \<Rightarrow> test list) \<times> problem list" where
  "declare_id rows t i acc =
     (let (byID, ps) = acc
      in if map_of rows i = None then (byID, ps @ [UnknownCheckpoint (te_Pos t) (te_Name t) i])
         else (byID(i := byID i @ [t]), ps))"

definition declared :: "(runes \<times> row) list \<Rightarrow> test list \<Rightarrow> problem list \<Rightarrow> (runes \<Rightarrow> test list) \<times> problem list" where
  "declared rows tests ps = fold (\<lambda>t. fold (declare_id rows t) (te_IDs t)) tests (\<lambda>_. [], ps)"

definition row_line :: "runes list \<Rightarrow> runes" where
  "row_line cells = lit ''| '' @ Join cells (lit '' | '') @ lit '' |''"

text \<open>One row: \<open>None\<close> is the panic of the index \<open>len(r.Cells)-2\<close> when it is negative.\<close>

definition check_row :: "bool \<Rightarrow> test list \<Rightarrow> runes \<Rightarrow> row \<Rightarrow> runes list \<times> problem list
    \<Rightarrow> (runes list \<times> problem list) option" where
  "check_row write tests i r acc =
     (let (lines, ps) = acc; n = length tests;
          ps1 = (if ro_Status r \<in> set tested_marks \<and> n = 0 then ps @ [NoTest (ro_Line r) i (ro_Status r)]
                 else if ro_Status r \<in> set untested_marks \<and> 0 < n then ps @ [TestsDeclared (ro_Line r) i (ro_Status r) n]
                 else ps);
          want = render tests; k = length (ro_Cells r)
      in if k < 2 then None
         else if ro_Cells r ! (k - 2) \<noteq> want
         then (if write then Some (lines[ro_Line r := row_line ((ro_Cells r)[k - 2 := want])], ps1)
               else Some (lines, ps1 @ [StaleColumn (ro_Line r) i]))
         else Some (lines, ps1))"

fun check_rows :: "bool \<Rightarrow> (runes \<Rightarrow> test list) \<Rightarrow> (runes \<times> row) list \<Rightarrow> runes list \<Rightarrow> runes list \<times> problem list
    \<Rightarrow> (runes list \<times> problem list) option" where
  "check_rows write byID rows [] acc = Some acc"
| "check_rows write byID rows (i # is) acc =
     (case check_row write (byID i) i (the (map_of rows i)) acc of
        None \<Rightarrow> None
      | Some acc' \<Rightarrow> check_rows write byID rows is acc')"

definition check_refs :: "(runes \<times> row) list \<Rightarrow> (runes \<times> nat) list \<Rightarrow> problem list" where
  "check_refs rows refs = map (\<lambda>(i, line). UnknownReference line i) (filter (\<lambda>(i, line). map_of rows i = None) refs)"

text \<open>The body of \<open>run\<close> between reading and writing: the problems and the lines.\<close>

definition check_doc :: "bool \<Rightarrow> test list \<Rightarrow> problem list \<Rightarrow> runes list \<Rightarrow> (problem list \<times> runes list) option" where
  "check_doc write tests problems lines =
     (let (rows, refs) = parseDoc lines; (byID, ps) = declared rows tests problems; ids = sort (map fst rows)
      in case check_rows write byID rows ids (lines, ps) of
           None \<Rightarrow> None
         | Some (lines', ps') \<Rightarrow> Some (ps' @ check_refs rows refs, lines'))"

section \<open>The repository\<close>

text \<open>
  A declaration of a Go file: whether it is a function, whether that has a receiver, its name, its
  position, and the comments of its documentation if it has any.
\<close>

record decl =
  dc_func :: bool
  dc_recv :: bool
  dc_name :: runes
  dc_pos :: runes
  dc_doc :: "runes list option"

record gofile =
  gf_Package :: runes
  gf_Decls :: "decl list"

text \<open>
  Directories with their entries in the order of \<open>ReadDir\<close>, directories that cannot be read, with the
  error, and files with their text and the result of \<open>parser.ParseFile\<close>.
\<close>

datatype node =
    DirNode runes "node list"
  | BadDir runes runes
  | FileNode runes runes "runes + gofile"

fun node_name :: "node \<Rightarrow> runes" where
  "node_name (DirNode nm ns) = nm"
| "node_name (BadDir nm e) = nm"
| "node_name (FileNode nm s f) = nm"

fun find_node :: "node \<Rightarrow> runes list \<Rightarrow> node option" where
  "find_node n [] = Some n"
| "find_node n (c # cs) =
     (case n of
        DirNode nm ns \<Rightarrow> (case find (\<lambda>m. node_name m = c) ns of None \<Rightarrow> None | Some m \<Rightarrow> find_node m cs)
      | _ \<Rightarrow> None)"

definition ReadFile :: "node \<Rightarrow> runes \<Rightarrow> runes option" where
  "ReadFile root path = (case find_node root (Split path 47) of Some (FileNode nm s f) \<Rightarrow> Some s | _ \<Rightarrow> None)"

definition exists_path :: "node \<Rightarrow> runes \<Rightarrow> bool" where
  "exists_path root path \<longleftrightarrow> find_node root (Split path 47) \<noteq> None"

section \<open>Collecting the tests\<close>

definition isTestFunc :: "runes \<Rightarrow> bool" where
  "isTestFunc name \<longleftrightarrow>
     list_ex (\<lambda>p. HasPrefix name p \<and> (length name = length p \<or> is_upper (name ! length p)))
       [lit ''Test'', lit ''Benchmark'', lit ''Fuzz'']"

definition directive :: "runes list option \<Rightarrow> runes list" where
  "directive doc =
     (case doc of
        None \<Rightarrow> []
      | Some cs \<Rightarrow>
          concat (map (\<lambda>c. case directiveRe (TrimSpace (TrimPrefix c (lit ''//''))) of
                             None \<Rightarrow> []
                           | Some m \<Rightarrow> filter (\<lambda>i. i \<noteq> []) (map TrimSpace (Split m 44))) cs))"

definition collect_decl :: "runes \<Rightarrow> decl \<Rightarrow> test list \<times> problem list \<Rightarrow> test list \<times> problem list" where
  "collect_decl pkg d acc =
     (let (tests, ps) = acc
      in if \<not> dc_func d \<or> dc_recv d \<or> \<not> isTestFunc (dc_name d) then acc
         else (let ids = directive (dc_doc d);
                   t = \<lparr>te_Pkg = pkg, te_Name = dc_name d, te_Pos = dc_pos d, te_IDs = ids\<rparr>
               in (tests @ [t], if ids = [] then ps @ [NoDirective (dc_pos d) (dc_name d)] else ps)))"

text \<open>The walk: the error of a directory or of the parser ends it.\<close>

fun collect_node :: "node \<Rightarrow> test list \<times> problem list \<Rightarrow> runes + test list \<times> problem list"
  and collect_nodes :: "node list \<Rightarrow> test list \<times> problem list \<Rightarrow> runes + test list \<times> problem list" where
  "collect_node (DirNode nm ns) acc =
     (if nm = lit ''.git'' \<or> nm = lit ''testdata'' then Inr acc else collect_nodes ns acc)"
| "collect_node (BadDir nm e) acc =
     (if nm = lit ''.git'' \<or> nm = lit ''testdata'' then Inr acc else Inl e)"
| "collect_node (FileNode nm s f) acc =
     (if \<not> HasSuffix nm (lit ''_test.go'') then Inr acc
      else (case f of
              Inl e \<Rightarrow> Inl e
            | Inr g \<Rightarrow> Inr (fold (collect_decl (TrimSuffix (gf_Package g) (lit ''_test''))) (gf_Decls g) acc)))"
| "collect_nodes [] acc = Inr acc"
| "collect_nodes (n # ns) acc = (case collect_node n acc of Inl e \<Rightarrow> Inl e | Inr acc' \<Rightarrow> collect_nodes ns acc')"

definition collectTests :: "node \<Rightarrow> runes + test list \<times> problem list" where
  "collectTests root = collect_node root ([], [])"

section \<open>Design documents\<close>

definition hasPackage :: "node \<Rightarrow> bool" where
  "hasPackage d =
     (case d of
        DirNode nm ns \<Rightarrow>
          list_ex (\<lambda>e. case e of
                         FileNode n s f \<Rightarrow> HasSuffix n (lit ''.go'') \<and> \<not> HasSuffix n (lit ''_test.go'')
                       | _ \<Rightarrow> False) ns
      | _ \<Rightarrow> False)"

definition skip_design :: "runes \<Rightarrow> runes \<Rightarrow> bool" where
  "skip_design nm rel \<longleftrightarrow>
     HasPrefix nm (lit ''.'') \<and> rel \<noteq> lit ''.'' \<or> nm = lit ''testdata'' \<or> rel = lit ''examples'' \<or>
     HasPrefix rel (lit ''examples/'') \<or> rel = lit ''docs''"

definition check_design :: "node \<Rightarrow> runes \<Rightarrow> runes \<Rightarrow> problem list" where
  "check_design root internal rel =
     (if rel = lit ''.''
      then (if exists_path root (lit ''docs/design/runtime.md'') then [] else [NoDesign rel])
      else if HasPrefix rel (lit ''internal/'')
      then (if \<not> Contains internal (lit ''## '' @ rel @ lit '' '') \<and> \<not> Contains internal (lit ''## '' @ rel @ [10])
            then [NoDesign rel] else [])
      else (if exists_path root (lit ''docs/design/'' @ rel @ lit ''.md'') then [] else [NoDesign rel]))"

text \<open>\<open>filepath.Rel\<close> of an entry, from that of its directory.\<close>

definition rel_of :: "runes \<Rightarrow> node \<Rightarrow> runes" where
  "rel_of dir n = (if dir = lit ''.'' then node_name n else dir @ lit ''/'' @ node_name n)"

fun design_node :: "node \<Rightarrow> runes \<Rightarrow> runes \<Rightarrow> node \<Rightarrow> problem list \<Rightarrow> runes + problem list"
  and design_nodes :: "node \<Rightarrow> runes \<Rightarrow> runes \<Rightarrow> node list \<Rightarrow> problem list \<Rightarrow> runes + problem list" where
  "design_node root internal rel (FileNode nm s f) ps = Inr ps"
| "design_node root internal rel (BadDir nm e) ps = (if skip_design nm rel then Inr ps else Inl e)"
| "design_node root internal rel (DirNode nm ns) ps =
     (if skip_design nm rel then Inr ps
      else design_nodes root internal rel ns
             (if hasPackage (DirNode nm ns) then ps @ check_design root internal rel else ps))"
| "design_nodes root internal dir [] ps = Inr ps"
| "design_nodes root internal dir (n # ns) ps =
     (case design_node root internal (rel_of dir n) n ps of
        Inl e \<Rightarrow> Inl e
      | Inr ps' \<Rightarrow> design_nodes root internal dir ns ps')"

definition checkDesignDocs :: "node \<Rightarrow> runes + problem list" where
  "checkDesignDocs root =
     (let internal = (case ReadFile root (lit ''docs/design/internal.md'') of None \<Rightarrow> [] | Some s \<Rightarrow> s)
      in design_node root internal (lit ''.'') root [])"

section \<open>The command\<close>

definition docPath :: runes where "docPath = lit ''docs/TESTING.md''"

text \<open>
  How \<open>run\<close> ends: an error, a panic, or the problems, with the text written to the document if one was.
  \<open>writeErr\<close> is the error of \<open>os.WriteFile\<close>.
\<close>

datatype run_result = RunErr runes | RunPanics | RunOK "problem list" "runes option"

definition run_testdoc :: "node \<Rightarrow> bool \<Rightarrow> runes option \<Rightarrow> run_result" where
  "run_testdoc root write writeErr =
     (case collectTests root of
        Inl e \<Rightarrow> RunErr e
      | Inr (tests, problems) \<Rightarrow>
          (case ReadFile root docPath of
             None \<Rightarrow> RunErr (lit ''open docs/TESTING.md'')
           | Some raw \<Rightarrow>
               (case check_doc write tests problems (Split raw 10) of
                  None \<Rightarrow> RunPanics
                | Some (ps, lines) \<Rightarrow>
                    (case checkDesignDocs root of
                       Inl e \<Rightarrow> RunErr e
                     | Inr design \<Rightarrow>
                         (if write
                          then (case writeErr of
                                  Some e \<Rightarrow> RunErr e
                                | None \<Rightarrow> RunOK (ps @ design) (Some (Join lines [10])))
                          else RunOK (ps @ design) None)))))"

text \<open>The exit status of \<open>main\<close>; a panic is 2 as well.\<close>

definition main_testdoc :: "run_result \<Rightarrow> nat" where
  "main_testdoc r = (case r of RunErr e \<Rightarrow> 2 | RunPanics \<Rightarrow> 2 | RunOK ps out \<Rightarrow> if ps = [] then 0 else 1)"

section \<open>Cells\<close>

lemma dropWhile_all: "list_all P xs \<Longrightarrow> dropWhile P (xs @ ys) = dropWhile P ys"
  by (induction xs) auto

lemma trim_around:
  assumes "list_all P xs" and "list_all P ys"
  shows "trim P (xs @ s @ ys) = trim P s"
proof (cases "list_all P s")
  case True
  then have "dropWhile P (xs @ s @ ys) = []" "dropWhile P s = []" using assms
    by (simp_all only: dropWhile_eq_Nil_conv) (auto simp: list_all_iff)
  then show ?thesis by (simp only: trim_def)
next
  case False
  then have "dropWhile P (xs @ s @ ys) = dropWhile P s @ ys" using assms(1)
    by (simp add: dropWhile_all) (auto simp: list_all_iff dropWhile_append1)
  moreover have "list_all P (rev ys)" using assms(2) by (simp add: list_all_iff)
  ultimately show ?thesis by (simp add: trim_def dropWhile_all)
qed

lemma trim_id: "s \<noteq> [] \<Longrightarrow> \<not> P (hd s) \<Longrightarrow> \<not> P (last s) \<Longrightarrow> trim P s = s"
proof -
  assume s: "s \<noteq> []" "\<not> P (hd s)" "\<not> P (last s)"
  have "dropWhile P s = s" using s(1,2) by (cases s) auto
  moreover have "dropWhile P (rev s) = rev s" using s(1,3) by (cases s rule: rev_cases) auto
  ultimately show ?thesis by (simp add: trim_def)
qed

lemma trim_trim [simp]: "trim P (trim P s) = trim P s"
proof (cases "trim P s = []")
  case False
  have "\<not> P (last (trim P s))"
    using False hd_dropWhile [of P "rev (dropWhile P s)"] by (simp add: trim_def last_rev)
  moreover have "\<not> P (hd (trim P s))"
  proof -
    define t where "t = dropWhile P s"
    obtain u where u: "t = trim P s @ u"
      by (metis (no_types) rev_append rev_rev_ident t_def takeWhile_dropWhile_id trim_def)
    with False have "hd t = hd (trim P s)" "t \<noteq> []" by auto
    then show ?thesis unfolding t_def using hd_dropWhile by metis
  qed
  ultimately show ?thesis using False by (intro trim_id)
next
  case True
  then show ?thesis by (simp only: True) (simp add: trim_def)
qed

lemma set_trim: "set (trim P s) \<subseteq> set s"
proof
  fix x assume "x \<in> set (trim P s)"
  then have "x \<in> set (dropWhile P (rev (dropWhile P s)))" by (simp add: trim_def)
  then have "x \<in> set (rev (dropWhile P s))" by (rule set_dropWhileD)
  then have "x \<in> set (dropWhile P s)" by simp
  then show "x \<in> set s" by (rule set_dropWhileD)
qed

lemma TrimSpace_TrimSpace [simp]: "TrimSpace (TrimSpace s) = TrimSpace s"
  by (simp add: TrimSpace_def)

lemma Split_ne [simp]: "Split s sep \<noteq> []"
  by (cases s) auto

lemma Split_no_sep: "c \<in> set (Split s sep) \<Longrightarrow> sep \<notin> set c"
proof (induction s arbitrary: c)
  case (Cons x s)
  have "hd (Split s sep) \<in> set (Split s sep)" "set (tl (Split s sep)) \<subseteq> set (Split s sep)"
    by (cases "Split s sep"; auto)+
  with Cons show ?case by (auto split: if_splits)
qed simp

lemma Split_one: "sep \<notin> set w \<Longrightarrow> Split w sep = [w]"
  by (induction w) auto

lemma Split_append: "sep \<notin> set w \<Longrightarrow> Split (w @ sep # s) sep = w # Split s sep"
  by (induction w) auto

text \<open>Cells as \<open>split_cells\<close> makes them.\<close>

definition cell_ok :: "runes \<Rightarrow> bool" where "cell_ok c \<longleftrightarrow> 124 \<notin> set c \<and> TrimSpace c = c"

lemma split_cells_ok: "list_all cell_ok (split_cells l)" "split_cells l \<noteq> []"
proof -
  have "124 \<notin> set (TrimSpace c)" if "c \<in> set (Split s 124)" for c s
    using Split_no_sep [OF that] set_trim by (fastforce simp: TrimSpace_def)
  then show "list_all cell_ok (split_cells l)" "split_cells l \<noteq> []"
    by (auto simp: split_cells_def cell_ok_def list_all_iff)
qed

lemma Split_row:
  assumes "list_all (\<lambda>c. 124 \<notin> set c) cells" and "cells \<noteq> []"
  shows "Split (32 # Join cells [32, 124, 32] @ [32]) 124 = map (\<lambda>c. 32 # c @ [32]) cells"
  using assms
proof (induction cells "[32, 124, 32] :: runes" rule: Join.induct)
  case (2 w)
  then show ?case by (subst Split_one) auto
next
  case (3 w v ws)
  then have "Split (((32 # w) @ [32]) @ 124 # (32 # Join (v # ws) [32, 124, 32] @ [32])) 124 =
      ((32 # w) @ [32]) # Split (32 # Join (v # ws) [32, 124, 32] @ [32]) 124"
    by (intro Split_append) auto
  with 3 show ?case by simp
qed simp

text \<open>A row that is written is read back.\<close>

lemma split_row_line:
  assumes "list_all cell_ok cells" and "cells \<noteq> []"
  shows "split_cells (row_line cells) = cells"
proof -
  let ?m = "32 # Join cells [32, 124, 32] @ [32]"
  have l: "row_line cells = [124] @ ?m @ [124]" by (simp add: row_line_def lit_def)
  have "TrimSpace (row_line cells) = row_line cells"
    unfolding TrimSpace_def by (rule trim_id) (simp_all add: l IsSpace_def)
  moreover have "trim (\<lambda>r. r = 124) (row_line cells) = ?m"
    unfolding l by (subst trim_around) (simp_all, rule trim_id, simp_all)
  moreover have "Split ?m 124 = map (\<lambda>c. 32 # c @ [32]) cells"
    by (rule Split_row) (use assms in \<open>auto simp: cell_ok_def list_all_iff\<close>)
  moreover have "TrimSpace (32 # c @ [32]) = c" if "c \<in> set cells" for c
  proof -
    have "TrimSpace ([32] @ c @ [32]) = TrimSpace c" unfolding TrimSpace_def by (rule trim_around) (simp_all add: IsSpace_def)
    with assms(1) that show ?thesis by (auto simp: cell_ok_def list_all_iff)
  qed
  ultimately show ?thesis by (simp add: split_cells_def map_idI)
qed

section \<open>Identifiers\<close>

lemma takeWhile_mid: "list_all P u \<Longrightarrow> \<not> P x \<Longrightarrow> takeWhile P (u @ x # s) = u \<and> dropWhile P (u @ x # s) = x # s"
  by (induction u) auto

lemma id_prefix_idRe:
  assumes "id_prefix s = Some n"
  shows "idRe (take n s)"
proof -
  define u where "u = takeWhile is_upper s"
  define r where "r = dropWhile is_upper s"
  define d where "d = takeWhile is_digit (tl r)"
  have r: "u \<noteq> []" "r \<noteq> []" "hd r = 45" "d \<noteq> []" "n = length u + 1 + length d"
    using assms by (auto simp: id_prefix_def u_def r_def d_def Let_def split: if_splits)
  have "s = u @ r" "tl r = d @ dropWhile is_digit (tl r)" by (simp_all add: u_def r_def d_def)
  then have "s = u @ 45 # d @ dropWhile is_digit (tl r)" using r(2,3) by (metis list.collapse)
  then have t: "take n s = u @ 45 # d" using r(5) by simp
  have u: "list_all is_upper u" "\<not> is_upper 45" unfolding u_def by (auto simp: list_all_iff is_upper_def dest: set_takeWhileD)
  have "list_all is_digit d" unfolding d_def by (auto simp: list_all_iff dest: set_takeWhileD)
  then have "takeWhile is_digit d = d" unfolding takeWhile_eq_all_conv list_all_iff .
  with r(1,4) takeWhile_mid [OF u, of d] show ?thesis unfolding t idRe_def id_prefix_def by (simp only: Let_def) (simp del: takeWhile_eq_all_conv)
qed

lemma find_ids_idRe: "x \<in> set (find_ids s) \<Longrightarrow> idRe x"
proof (induction s rule: find_ids.induct)
  case (1 s)
  then show ?case by (subst (asm) (2) find_ids.simps) (auto split: if_splits option.splits intro: id_prefix_idRe)
qed

lemma id_prefix_dash: "id_prefix s = Some n \<Longrightarrow> 45 \<in> set s"
proof -
  assume "id_prefix s = Some n"
  then have "dropWhile is_upper s \<noteq> []" "hd (dropWhile is_upper s) = 45"
    unfolding id_prefix_def Let_def by (metis option.distinct(1))+
  then have "45 \<in> set (dropWhile is_upper s)" by (metis hd_in_set)
  then show ?thesis by (rule set_dropWhileD)
qed

lemma find_ids_none: "45 \<notin> set s \<Longrightarrow> find_ids s = []"
proof (induction s rule: find_ids.induct)
  case (1 s)
  then have "id_prefix s = None" using id_prefix_dash [of s] by fastforce
  moreover have "45 \<notin> set (tl s)" using 1(3) by (cases s) auto
  ultimately show ?case using "1.IH" by (cases "s = []") (simp_all add: find_ids.simps [of s] find_ids.simps [of "[]"])
qed

lemma idRe_not_ID: "idRe s \<Longrightarrow> s \<noteq> lit ''ID''"
  using id_prefix_dash [of s] by (auto simp: idRe_def lit_def)

section \<open>Rows\<close>

definition header_row :: "runes list \<Rightarrow> bool" where
  "header_row c \<longleftrightarrow> 2 \<le> length c \<and> c ! (length c - 2) = w_tests \<and> c ! (length c - 1) = w_notes"

definition row_ok :: "runes list \<Rightarrow> runes \<Rightarrow> row \<Rightarrow> bool" where
  "row_ok lines i r \<longleftrightarrow> ro_ID r = i \<and> idRe i \<and> ro_Line r < length lines \<and> ro_Cells r = split_cells (lines ! ro_Line r) \<and>
     ro_Cells r ! 0 = i \<and> ro_Status r = statusOf (ro_Cells r) \<and> HasPrefix (lines ! ro_Line r) (lit ''|'') \<and>
     \<not> header_row (ro_Cells r)"

lemma row_okD:
  assumes "row_ok lines i r"
  shows "idRe i" "ro_Line r < length lines" "split_cells (lines ! ro_Line r) = ro_Cells r" "ro_Cells r ! 0 = i"
    "ro_Status r = statusOf (ro_Cells r)" "HasPrefix (lines ! ro_Line r) (lit ''|'')" "\<not> header_row (ro_Cells r)"
  using assms unfolding row_ok_def by (blast intro: sym)+

definition parse_ok :: "runes list \<Rightarrow> parse \<Rightarrow> bool" where
  "parse_ok lines p \<longleftrightarrow> distinct (map fst (pa_rows p)) \<and> (\<forall>(i, r) \<in> set (pa_rows p). row_ok lines i r) \<and>
     (\<forall>(x, k) \<in> set (pa_refs p). idRe x \<and> k < length lines)"

lemma set_update: "(a, b) \<in> set (AList.update k v xs) \<Longrightarrow> (a, b) = (k, v) \<or> (a, b) \<in> set xs"
  by (induction xs) (auto split: if_splits)

lemma parse_line_ok:
  assumes ok: "parse_ok lines p" and i: "i < length lines"
  shows "parse_ok lines (parse_line i (lines ! i) p)"
proof -
  let ?c = "split_cells (lines ! i)"
  let ?r = "\<lparr>ro_Line = i, ro_Cells = ?c, ro_ID = ?c ! 0, ro_Status = statusOf ?c\<rparr>"
  let ?p = "p\<lparr>pa_rows := AList.update (?c ! 0) ?r (pa_rows p)\<rparr>"
  have new: "parse_ok lines ?p" if "idRe (?c ! 0)" "HasPrefix (lines ! i) (lit ''|'')" "\<not> header_row ?c"
    using ok i that by (fastforce simp: parse_ok_def row_ok_def distinct_update dest: set_update)
  have refs: "parse_ok lines (q\<lparr>pa_refs := pa_refs q @ map (\<lambda>part. (part, i)) (find_ids x)\<rparr>)" if "parse_ok lines q" for q x
    using that i find_ids_idRe by (auto simp: parse_ok_def)
  have flags: "parse_ok lines (p\<lparr>pa_inCheckpoints := b\<rparr>)" "parse_ok lines (p\<lparr>pa_inRegression := b\<rparr>)"
    "parse_ok lines (p\<lparr>pa_inCheckpoints := b, pa_inRegression := b'\<rparr>)" for b b'
    using ok by (simp_all add: parse_ok_def)
  show ?thesis using ok new refs [OF ok] refs [OF new] flags by (simp add: parse_line_def add_row_def header_row_def Let_def)
qed

lemma parse_from_ok:
  assumes "parse_ok lines p" and "lines = pre @ ls"
  shows "parse_ok lines (parse_from (length pre) ls p)"
  using assms
proof (induction ls arbitrary: pre p)
  case (Cons l ls)
  from parse_line_ok [OF Cons.prems(1), of "length pre"] have "parse_ok lines (parse_line (length pre) l p)"
    using Cons.prems(2) by simp
  from Cons.IH [OF this, of "pre @ [l]"] Cons.prems(2) show ?case by simp
qed simp

definition parse0 :: parse where
  "parse0 = \<lparr>pa_inCheckpoints = False, pa_inRegression = False, pa_rows = [], pa_refs = []\<rparr>"

lemma parseDoc_eq: "parseDoc lines = (pa_rows (parse_from 0 lines parse0), pa_refs (parse_from 0 lines parse0))"
  by (simp add: parseDoc_def parse0_def Let_def)

lemma parseDoc_ok: "parse_ok lines (parse_from 0 lines parse0)"
  using parse_from_ok [of lines parse0 "[]" lines] by (simp add: parse_ok_def parse0_def)

section \<open>Reading a changed document\<close>

text \<open>A row as it is read from other lines.\<close>

definition reread :: "runes list \<Rightarrow> row \<Rightarrow> row" where
  "reread lines r =
     (let c = split_cells (lines ! ro_Line r)
      in \<lparr>ro_Line = ro_Line r, ro_Cells = c, ro_ID = ro_ID r, ro_Status = statusOf c\<rparr>)"

definition reread_rows :: "runes list \<Rightarrow> (runes \<times> row) list \<Rightarrow> (runes \<times> row) list" where
  "reread_rows lines rows = map (\<lambda>(i, r). (i, reread lines r)) rows"

lemma reread_update: "reread_rows ls (AList.update k r rows) = AList.update k (reread ls r) (reread_rows ls rows)"
  by (induction rows) (auto simp: reread_rows_def)

lemma map_of_reread: "map_of (reread_rows ls rows) i = map_option (reread ls) (map_of rows i)"
  by (induction rows) (auto simp: reread_rows_def)

text \<open>
  A line that may take the place of another: it is a row as that is, with the same ID and number of
  cells; and it holds no references if its table collects them.
\<close>

definition line_sim :: "bool \<Rightarrow> runes \<Rightarrow> runes \<Rightarrow> bool" where
  "line_sim reg l l' \<longleftrightarrow> l' = l \<or>
     (HasPrefix l (lit ''|'') \<and> HasPrefix l' (lit ''|'') \<and>
      (let c = split_cells l; c' = split_cells l'; n = length c
       in length c' = n \<and> 2 \<le> n \<and> idRe (c ! 0) \<and> c' ! 0 = c ! 0 \<and> \<not> (c ! (n - 2) = w_tests \<and> c ! (n - 1) = w_notes) \<and>
          c' ! (n - 2) \<noteq> w_tests \<and> (reg \<and> 4 \<le> n \<longrightarrow> find_ids (c ! 3) = [] \<and> find_ids (c' ! 3) = [])))"

definition parse_sim :: "runes list \<Rightarrow> parse \<Rightarrow> parse \<Rightarrow> bool" where
  "parse_sim ls p p' \<longleftrightarrow> pa_inCheckpoints p' = pa_inCheckpoints p \<and> pa_inRegression p' = pa_inRegression p \<and>
     pa_refs p' = pa_refs p \<and> pa_rows p' = reread_rows ls (pa_rows p)"

lemma parse_sim_fields:
  "parse_sim ls p p' \<Longrightarrow> pa_inCheckpoints p' = pa_inCheckpoints p" "parse_sim ls p p' \<Longrightarrow> pa_inRegression p' = pa_inRegression p"
  "parse_sim ls p p' \<Longrightarrow> parse_sim ls (p\<lparr>pa_inCheckpoints := b\<rparr>) (p'\<lparr>pa_inCheckpoints := b\<rparr>)"
  "parse_sim ls p p' \<Longrightarrow> parse_sim ls (p\<lparr>pa_inRegression := b\<rparr>) (p'\<lparr>pa_inRegression := b\<rparr>)"
  "parse_sim ls p p' \<Longrightarrow> parse_sim ls (p\<lparr>pa_refs := pa_refs p @ xs\<rparr>) (p'\<lparr>pa_refs := pa_refs p' @ xs\<rparr>)"
  by (simp_all add: parse_sim_def)

lemma add_row_sim:
  assumes "parse_sim ls p p'" and "split_cells (ls ! i) = c'" and "c' ! 0 = c ! 0" and "length c' = length c"
    and "pa_inRegression p \<Longrightarrow> 4 \<le> length c \<Longrightarrow> find_ids (c' ! 3) = find_ids (c ! 3)"
  shows "parse_sim ls (add_row i c p) (add_row i c' p')"
  using assms
  by (cases "pa_inCheckpoints p"; cases "pa_inRegression p \<and> 4 \<le> length c")
     (auto simp: add_row_def parse_sim_def reread_update reread_def Let_def)

lemma parse_line_row:
  assumes "HasPrefix l (lit ''|'')" and "idRe (split_cells l ! 0)" and "n = length (split_cells l)"
    and "\<not> (2 \<le> n \<and> split_cells l ! (n - 2) = w_tests \<and> split_cells l ! (n - 1) = w_notes)"
  shows "parse_line i l p = add_row i (split_cells l) p"
  using assms idRe_not_ID [OF assms(2)] split_cells_ok(2) [of l] unfolding parse_line_def Let_def by auto

lemma parse_line_sim:
  assumes sim: "parse_sim ls p p'" and l: "line_sim (pa_inRegression p) l l'" and i: "ls ! i = l'"
  shows "parse_sim ls (parse_line i l p) (parse_line i l' p')"
proof (cases "l' = l")
  case True
  let ?c = "split_cells l"
  have "parse_sim ls (add_row i ?c p) (add_row i ?c p')" by (rule add_row_sim [OF sim]) (use i True in simp_all)
  then have "parse_sim ls (parse_line i l p) (parse_line i l p')"
    using sim unfolding parse_line_def Let_def by (simp add: parse_sim_fields)
  then show ?thesis using True by simp
next
  case False
  let ?c = "split_cells l" and ?c' = "split_cells l'"
  from l False have f: "HasPrefix l (lit ''|'')" "HasPrefix l' (lit ''|'')" "length ?c' = length ?c" "2 \<le> length ?c" "idRe (?c ! 0)"
    "?c' ! 0 = ?c ! 0" "\<not> (?c ! (length ?c - 2) = w_tests \<and> ?c ! (length ?c - 1) = w_notes)" "?c' ! (length ?c - 2) \<noteq> w_tests"
    and ids: "pa_inRegression p \<Longrightarrow> 4 \<le> length ?c \<Longrightarrow> find_ids (?c' ! 3) = find_ids (?c ! 3)"
    by (simp_all add: line_sim_def Let_def)
  have "parse_line i l p = add_row i ?c p" "parse_line i l' p' = add_row i ?c' p'"
    by (rule parse_line_row [OF _ _ refl], use f in auto)+
  with add_row_sim [OF sim _ f(6,3) ids] i show ?thesis by simp
qed

text \<open>The state before each line, and the simulation of a whole document.\<close>

definition reg_at :: "runes list \<Rightarrow> nat \<Rightarrow> bool" where
  "reg_at lines i = pa_inRegression (parse_from 0 (take i lines) parse0)"

lemma parse_from_append: "parse_from i (xs @ ys) p = parse_from (i + length xs) ys (parse_from i xs p)"
  by (induction xs arbitrary: i p) auto

lemma parse_from_take:
  "i < length lines \<Longrightarrow> parse_from 0 (take (Suc i) lines) p = parse_line i (lines ! i) (parse_from 0 (take i lines) p)"
  by (simp add: take_Suc_conv_app_nth parse_from_append)

lemma parse_doc_sim:
  assumes "length lines' = length lines" and "\<And>i. i < length lines \<Longrightarrow> line_sim (reg_at lines i) (lines ! i) (lines' ! i)"
    and "k \<le> length lines"
  shows "parse_sim lines' (parse_from 0 (take k lines) parse0) (parse_from 0 (take k lines') parse0)"
  using assms(3)
proof (induction k)
  case (Suc k)
  from parse_line_sim [OF Suc.IH assms(2) [unfolded reg_at_def] refl] Suc.prems assms(1) show ?case
    by (simp add: parse_from_take)
qed (simp add: parse_sim_def parse0_def reread_rows_def)

lemma refs_grow: "set (pa_refs p) \<subseteq> set (pa_refs (parse_line i l p))" "set (pa_refs p) \<subseteq> set (pa_refs (parse_from i ls p))"
proof -
  show s: "set (pa_refs p) \<subseteq> set (pa_refs (parse_line i l p))" for i l p by (auto simp: parse_line_def add_row_def Let_def)
  show "set (pa_refs p) \<subseteq> set (pa_refs (parse_from i ls p))"
  proof (induction ls arbitrary: i p)
    case (Cons l ls)
    from s [of p i l] Cons [of "parse_line i l p" "Suc i"] show ?case by simp
  qed simp
qed

section \<open>Regenerating the column\<close>

abbreviation row_of :: "(runes \<times> row) list \<Rightarrow> runes \<Rightarrow> row" where "row_of rows i \<equiv> the (map_of rows i)"

definition stale :: "test list \<Rightarrow> row \<Rightarrow> bool" where
  "stale tests r \<longleftrightarrow> ro_Cells r ! (length (ro_Cells r) - 2) \<noteq> render tests"

definition new_cells :: "test list \<Rightarrow> row \<Rightarrow> runes list" where
  "new_cells tests r = (ro_Cells r)[length (ro_Cells r) - 2 := render tests]"

definition row_problems :: "bool \<Rightarrow> test list \<Rightarrow> runes \<Rightarrow> row \<Rightarrow> problem list" where
  "row_problems write tests i r =
     (if ro_Status r \<in> set tested_marks \<and> tests = [] then [NoTest (ro_Line r) i (ro_Status r)]
      else if ro_Status r \<in> set untested_marks \<and> tests \<noteq> [] then [TestsDeclared (ro_Line r) i (ro_Status r) (length tests)]
      else []) @ (if \<not> write \<and> stale tests r then [StaleColumn (ro_Line r) i] else [])"

definition write_row :: "(runes \<Rightarrow> test list) \<Rightarrow> (runes \<times> row) list \<Rightarrow> runes \<Rightarrow> runes list \<Rightarrow> runes list" where
  "write_row byID rows i ls =
     (if stale (byID i) (row_of rows i) then ls[ro_Line (row_of rows i) := row_line (new_cells (byID i) (row_of rows i))] else ls)"

lemma check_rows_eq:
  assumes "\<And>i. i \<in> set is \<Longrightarrow> 2 \<le> length (ro_Cells (row_of rows i))"
  shows "check_rows write byID rows is (ls, ps) =
    Some (if write then fold (write_row byID rows) is ls else ls, ps @ concat (map (\<lambda>i. row_problems write (byID i) i (row_of rows i)) is))"
  using assms
proof (induction "is" arbitrary: ls ps)
  case (Cons i "is")
  have "check_row write (byID i) i (row_of rows i) (ls, ps) =
      Some (if write then write_row byID rows i ls else ls, ps @ row_problems write (byID i) i (row_of rows i))"
    using Cons.prems [of i] by (simp add: check_row_def row_problems_def write_row_def stale_def new_cells_def Let_def)
  then show ?case using Cons.IH Cons.prems by simp
qed simp

abbreviation line_of :: "(runes \<times> row) list \<Rightarrow> runes \<Rightarrow> nat" where "line_of rows i \<equiv> ro_Line (row_of rows i)"

lemma write_rows_length [simp]: "length (fold (write_row byID rows) is ls) = length ls"
  by (induction "is" arbitrary: ls) (simp_all add: write_row_def)

lemma write_rows_other: "j \<notin> line_of rows ` set is \<Longrightarrow> fold (write_row byID rows) is ls ! j = ls ! j"
  by (induction "is" arbitrary: ls) (simp_all add: write_row_def)

lemma write_rows_nth:
  assumes "inj_on (line_of rows) (set is)" and "distinct is" and "i \<in> set is" and "line_of rows i < length ls"
  shows "fold (write_row byID rows) is ls ! line_of rows i =
    (if stale (byID i) (row_of rows i) then row_line (new_cells (byID i) (row_of rows i)) else ls ! line_of rows i)"
  using assms
proof (induction "is" arbitrary: ls)
  case (Cons k "is")
  show ?case
  proof (cases "i = k")
    case True
    then have "line_of rows i \<notin> line_of rows ` set is" using Cons.prems(1,2) by (auto dest: inj_onD)
    from write_rows_other [OF this] True Cons.prems(4) show ?thesis by (simp add: write_row_def [of byID rows k])
  next
    case False
    then have "line_of rows i \<noteq> line_of rows k" "i \<in> set is"
      using Cons.prems(1,3) inj_onD [OF Cons.prems(1), of i k] by auto
    with Cons.IH [of "write_row byID rows k ls"] Cons.prems show ?thesis by (simp add: write_row_def [of byID rows k])
  qed
qed simp

text \<open>Which tests declare a checkpoint depends only on which checkpoints there are.\<close>

lemma declared_reread: "declared (reread_rows ls rows) tests ps = declared rows tests ps"
proof -
  have "declare_id (reread_rows ls rows) t = declare_id rows t" for t
    by (intro ext) (simp add: declare_id_def map_of_reread split: prod.splits)
  then show ?thesis by (simp add: declared_def)
qed

lemma declared_subset: "set (fst (declared rows tests ps) i) \<subseteq> set tests"
proof -
  have 1: "set (fst (fold (declare_id rows t) xs acc) i) \<subseteq> insert t (set (fst acc i))" for t xs acc
  proof (induction xs arbitrary: acc)
    case (Cons x xs)
    have "set (fst (declare_id rows t x acc) i) \<subseteq> insert t (set (fst acc i))"
      by (auto simp: declare_id_def Let_def split: prod.splits if_splits)
    with Cons [of "declare_id rows t x acc"] show ?case by auto
  qed auto
  have "set (fst (fold (\<lambda>t. fold (declare_id rows t) (te_IDs t)) ts acc) i) \<subseteq> set ts \<union> set (fst acc i)" for ts acc
  proof (induction ts arbitrary: acc)
    case (Cons t ts)
    from Cons [of "fold (declare_id rows t) (te_IDs t) acc"] 1 [of t "te_IDs t" acc] show ?case by auto
  qed simp
  from this [of tests] show ?thesis by (fastforce simp: declared_def)
qed

text \<open>What is written into the column is a cell, and holds neither a bar nor a reference.\<close>

definition label_ok :: "test \<Rightarrow> bool" where
  "label_ok t \<longleftrightarrow> 124 \<notin> set (Label t) \<and> 45 \<notin> set (Label t)"

lemma Join_ends:
  assumes "ws \<noteq> []" and "list_all (\<lambda>w. w \<noteq> [] \<and> hd w = c \<and> last w = c) ws"
  shows "Join ws sep \<noteq> [] \<and> hd (Join ws sep) = c \<and> last (Join ws sep) = c"
  using assms by (induction ws sep rule: Join.induct) auto

lemma set_Join: "set (Join ws sep) \<subseteq> \<Union> (set ` set ws) \<union> set sep"
  by (induction ws sep rule: Join.induct) auto

lemma render_ok:
  assumes "list_all label_ok tests"
  shows "cell_ok (render tests)" and "45 \<notin> set (render tests)" and "render tests \<noteq> w_tests"
proof -
  let ?ws = "sort (map (\<lambda>t. lit ''`'' @ Label t @ lit ''`'') tests)"
  have s: "set (render tests) \<subseteq> \<Union> (set ` set ?ws) \<union> set (lit ''<br>'')" unfolding render_def by (rule set_Join)
  then have no: "124 \<notin> set (render tests)" "45 \<notin> set (render tests)"
    using assms by (fastforce simp: lit_def list_all_iff label_ok_def)+
  show "45 \<notin> set (render tests)" by (rule no)
  have e: "tests = [] \<or> render tests \<noteq> [] \<and> hd (render tests) = 96 \<and> last (render tests) = 96"
  proof (cases "tests = []")
    case False
    then have "?ws \<noteq> []" by (metis length_0_conv length_map length_sort)
    then show ?thesis unfolding render_def by (intro disjI2 Join_ends) (auto simp: list_all_iff lit_def)
  qed simp
  then have "TrimSpace (render tests) = render tests"
  proof
    assume "tests = []"
    then show ?thesis by (simp add: render_def TrimSpace_def trim_def)
  next
    assume "render tests \<noteq> [] \<and> hd (render tests) = 96 \<and> last (render tests) = 96"
    then show ?thesis unfolding TrimSpace_def by (intro trim_id) (simp_all add: IsSpace_def)
  qed
  with no show "cell_ok (render tests)" by (simp add: cell_ok_def)
  show "render tests \<noteq> w_tests" using e by (auto simp: w_tests_def render_def)
qed

text \<open>Documents whose rows have all their cells and are not in two kinds of table.\<close>

definition doc_ok :: "runes list \<Rightarrow> bool" where
  "doc_ok lines \<longleftrightarrow>
     (let (rows, refs) = parseDoc lines
      in list_all (\<lambda>(i, r). 3 \<le> length (ro_Cells r) \<and> list_all (\<lambda>(x, k). k \<noteq> ro_Line r) refs) rows)"

lemma row_refs:
  assumes j: "j < length lines" and reg: "reg_at lines j" and n: "4 \<le> length (split_cells (lines ! j))"
    and row: "HasPrefix (lines ! j) (lit ''|'')" "idRe (split_cells (lines ! j) ! 0)" "\<not> header_row (split_cells (lines ! j))"
    and no: "\<And>x. (x, j) \<notin> set (pa_refs (parse_from 0 lines parse0))"
  shows "find_ids (split_cells (lines ! j) ! 3) = []"
proof (rule ccontr)
  let ?c = "split_cells (lines ! j)" and ?p = "parse_from 0 (take j lines) parse0"
  assume "find_ids (?c ! 3) \<noteq> []"
  then obtain x where "x \<in> set (find_ids (?c ! 3))" by (cases "find_ids (?c ! 3)") auto
  moreover have "parse_line j (lines ! j) ?p = add_row j ?c ?p"
    by (rule parse_line_row [OF row(1,2) refl]) (use row(3) in \<open>simp add: header_row_def\<close>)
  ultimately have "(x, j) \<in> set (pa_refs (parse_from 0 (take (Suc j) lines) parse0))"
    using j reg n by (simp add: parse_from_take add_row_def Let_def reg_at_def)
  moreover have "parse_from 0 lines parse0 = parse_from (length (take (Suc j) lines)) (drop (Suc j) lines) (parse_from 0 (take (Suc j) lines) parse0)"
    using parse_from_append [of 0 "take (Suc j) lines" "drop (Suc j) lines" parse0] by simp
  ultimately show False using no refs_grow(2) by (metis subsetD)
qed

text \<open>A regenerated row in the place of the old one.\<close>

lemma written_line_sim:
  assumes ok: "row_ok lines i r" and n: "3 \<le> length (ro_Cells r)" and tests: "list_all label_ok tests"
    and no: "\<And>x. (x, ro_Line r) \<notin> set (pa_refs (parse_from 0 lines parse0))"
  shows "split_cells (row_line (new_cells tests r)) = new_cells tests r"
    and "line_sim (reg_at lines (ro_Line r)) (lines ! ro_Line r) (row_line (new_cells tests r))"
proof -
  let ?c = "ro_Cells r" and ?c' = "new_cells tests r" and ?l = "lines ! ro_Line r"
  have c: "split_cells ?l = ?c" "idRe (?c ! 0)" "\<not> header_row ?c" "HasPrefix ?l (lit ''|'')" "ro_Line r < length lines"
    using row_okD [OF ok] by simp_all
  have "list_all cell_ok ?c" "?c \<noteq> []" using split_cells_ok [of ?l] c(1) by simp_all
  moreover have "set ?c' \<subseteq> insert (render tests) (set ?c)" unfolding new_cells_def by (rule set_update_subset_insert)
  ultimately have "list_all cell_ok ?c'" "?c' \<noteq> []" using render_ok(1) [OF tests]
    by (auto simp: list_all_iff) (simp add: new_cells_def)
  then show split: "split_cells (row_line ?c') = ?c'" by (rule split_row_line)
  have "find_ids (?c ! 3) = []" "find_ids (?c' ! 3) = []" if "reg_at lines (ro_Line r)" "4 \<le> length ?c"
  proof -
    show 1: "find_ids (?c ! 3) = []" using row_refs [OF c(5) that(1)] that(2) c no by simp
    show "find_ids (?c' ! 3) = []" using 1 find_ids_none [OF render_ok(2) [OF tests]] that(2)
      by (simp add: new_cells_def nth_list_update)
  qed
  moreover have "HasPrefix (row_line ?c') (lit ''|'')" by (simp add: HasPrefix_def row_line_def lit_def)
  ultimately show "line_sim (reg_at lines (ro_Line r)) ?l (row_line ?c')"
    using c n split render_ok(3) [OF tests] by (auto simp: line_sim_def Let_def header_row_def new_cells_def)
qed

text \<open>The lines of the rows are those of the IDs.\<close>

lemma rows_lookup:
  assumes "parse_ok lines p" and "i \<in> set (map fst (pa_rows p))"
  shows "(i, row_of (pa_rows p) i) \<in> set (pa_rows p)" and "row_ok lines i (row_of (pa_rows p) i)"
proof -
  obtain r where r: "(i, r) \<in> set (pa_rows p)" using assms(2) by auto
  then have "map_of (pa_rows p) i = Some r" using assms(1) by (intro map_of_is_SomeI) (simp_all add: parse_ok_def)
  with r show 1: "(i, row_of (pa_rows p) i) \<in> set (pa_rows p)" by simp
  have "\<forall>(i, r) \<in> set (pa_rows p). row_ok lines i r" using assms(1) unfolding parse_ok_def by blast
  from bspec [OF this 1] show "row_ok lines i (row_of (pa_rows p) i)" by simp
qed

lemma rows_lines_inj: "parse_ok lines p \<Longrightarrow> inj_on (line_of (pa_rows p)) (set (map fst (pa_rows p)))"
proof (rule inj_onI)
  fix i j assume p: "parse_ok lines p" and i: "i \<in> set (map fst (pa_rows p))" and j: "j \<in> set (map fst (pa_rows p))"
    and e: "line_of (pa_rows p) i = line_of (pa_rows p) j"
  have k: "split_cells (lines ! line_of (pa_rows p) k) ! 0 = k" if "k \<in> set (map fst (pa_rows p))" for k
    unfolding row_okD(3) [OF rows_lookup(2) [OF p that]] by (rule row_okD(4) [OF rows_lookup(2) [OF p that]])
  have "i = split_cells (lines ! line_of (pa_rows p) i) ! 0" by (rule k [OF i, symmetric])
  also have "\<dots> = split_cells (lines ! line_of (pa_rows p) j) ! 0" by (simp only: e)
  also have "\<dots> = j" by (rule k [OF j])
  finally show "i = j" .
qed

lemma doc_row:
  assumes ok: "doc_ok lines" and rows: "parseDoc lines = (rows, refs)" and i: "i \<in> set (map fst rows)"
  shows "row_ok lines i (row_of rows i)" and "3 \<le> length (ro_Cells (row_of rows i))" and "(x, line_of rows i) \<notin> set refs"
    and "(i, row_of rows i) \<in> set rows" and "map_of rows i = Some (row_of rows i)"
proof -
  let ?p = "parse_from 0 lines parse0"
  have p: "parse_ok lines ?p" by (rule parseDoc_ok)
  have r: "rows = pa_rows ?p" "refs = pa_refs ?p" using rows by (simp_all add: parseDoc_eq)
  have i': "i \<in> set (map fst (pa_rows ?p))" using i r(1) by simp
  show "row_ok lines i (row_of rows i)" unfolding r(1) by (rule rows_lookup(2) [OF p i'])
  show in_rows: "(i, row_of rows i) \<in> set rows" unfolding r(1) by (rule rows_lookup(1) [OF p i'])
  have "distinct (map fst rows)" using p unfolding r(1) parse_ok_def by (rule conjunct1)
  then show "map_of rows i = Some (row_of rows i)" using in_rows by (rule map_of_is_SomeI)
  have "\<forall>(i, r) \<in> set rows. 3 \<le> length (ro_Cells r) \<and> list_all (\<lambda>(x, k). k \<noteq> ro_Line r) refs"
    using ok rows by (simp add: doc_ok_def list_all_iff)
  from bspec [OF this in_rows]
  show "3 \<le> length (ro_Cells (row_of rows i))" "(x, line_of rows i) \<notin> set refs" by (auto simp: list_all_iff)
qed

lemma reread_fst: "map fst (reread_rows ls rows) = map fst rows"
  by (simp add: reread_rows_def case_prod_beta)

lemma check_refs_reread: "check_refs (reread_rows ls rows) refs = check_refs rows refs"
  by (simp add: check_refs_def map_of_reread)

text \<open>The whole document, written and read again.\<close>

lemma written_doc:
  assumes ok: "doc_ok lines" and tests: "list_all label_ok tests"
    and rows: "parseDoc lines = (rows, refs)" and byID: "byID = fst (declared rows tests ps)"
    and lines': "lines' = fold (write_row byID rows) (sort (map fst rows)) lines"
  shows "parseDoc lines' = (reread_rows lines' rows, refs)"
    and "i \<in> set (map fst rows) \<Longrightarrow> ro_Cells (reread lines' (row_of rows i)) = new_cells (byID i) (row_of rows i)"
proof -
  let ?p = "parse_from 0 lines parse0"
  have p: "parse_ok lines ?p" by (rule parseDoc_ok)
  have r: "rows = pa_rows ?p" "refs = pa_refs ?p" using rows by (simp_all add: parseDoc_eq)
  note lk = doc_row [OF ok rows]
  have lab: "list_all label_ok (byID i)" for i
    using tests declared_subset [of rows tests ps i] byID by (auto simp: list_all_iff)
  have at: "lines' ! line_of rows i =
      (if stale (byID i) (row_of rows i) then row_line (new_cells (byID i) (row_of rows i)) else lines ! line_of rows i)"
    if "i \<in> set (map fst rows)" for i
    unfolding lines' by (rule write_rows_nth)
      (use that rows_lines_inj [OF p] p row_okD(2) [OF lk(1) [OF that]] r(1) in \<open>simp_all add: parse_ok_def\<close>)
  have sim: "line_sim (reg_at lines j) (lines ! j) (lines' ! j)" for j
  proof (cases "j \<in> line_of rows ` set (map fst rows)")
    case True
    then obtain i where i: "i \<in> set (map fst rows)" "j = line_of rows i" by blast
    have "line_sim (reg_at lines j) (lines ! j) (row_line (new_cells (byID i) (row_of rows i)))"
      unfolding i(2) by (rule written_line_sim(2) [OF lk(1,2) [OF i(1)] lab]) (use lk(3) [OF i(1)] r(2) in simp)
    then show ?thesis using at [OF i(1)] i(2) by (simp add: line_sim_def)
  next
    case False
    then have "lines' ! j = lines ! j" unfolding lines' by (intro write_rows_other) simp
    then show ?thesis by (simp add: line_sim_def)
  qed
  have len: "length lines' = length lines" by (simp add: lines')
  from parse_doc_sim [OF len sim le_refl] show "parseDoc lines' = (reread_rows lines' rows, refs)"
    using len by (simp add: parseDoc_eq parse_sim_def r)
  show "ro_Cells (reread lines' (row_of rows i)) = new_cells (byID i) (row_of rows i)" if "i \<in> set (map fst rows)"
  proof -
    have "split_cells (row_line (new_cells (byID i) (row_of rows i))) = new_cells (byID i) (row_of rows i)"
      by (rule written_line_sim(1) [OF lk(1,2) [OF that] lab]) (use lk(3) [OF that] r(2) in simp)
    moreover have "split_cells (lines ! line_of rows i) = ro_Cells (row_of rows i)" by (rule row_okD(3) [OF lk(1) [OF that]])
    moreover have "\<not> stale (byID i) (row_of rows i) \<Longrightarrow> new_cells (byID i) (row_of rows i) = ro_Cells (row_of rows i)"
      by (metis list_update_id new_cells_def stale_def)
    ultimately show ?thesis using at [OF that] by (simp add: reread_def Let_def)
  qed
qed

text \<open>What a row has to report is the same for the row that is read again, which is not stale.\<close>

lemma reread_problems:
  assumes "row_ok lines i r" and "3 \<le> length (ro_Cells r)" and c: "ro_Cells (reread ls r) = new_cells tests r"
  shows "row_problems w tests i (reread ls r) = row_problems True tests i r" and "\<not> stale tests (reread ls r)"
    and "2 \<le> length (ro_Cells (reread ls r))"
proof -
  have "ro_Status (reread ls r) = statusOf (new_cells tests r)" using c by (simp add: reread_def Let_def)
  also have "\<dots> = ro_Status r" unfolding row_okD(5) [OF assms(1)] using assms(2) by (simp add: statusOf_def new_cells_def)
  finally have st: "ro_Status (reread ls r) = ro_Status r" "ro_Line (reread ls r) = ro_Line r" by (simp_all add: reread_def Let_def)
  show ns: "\<not> stale tests (reread ls r)" using assms(2) c by (simp add: stale_def new_cells_def)
  show "row_problems w tests i (reread ls r) = row_problems True tests i r" using st ns by (simp add: row_problems_def)
  show "2 \<le> length (ro_Cells (reread ls r))" using assms(2) c by (simp add: new_cells_def)
qed

lemma no_stale: "StaleColumn k x \<notin> set (row_problems True tests i r)" "StaleColumn k x \<notin> set (check_refs rows refs)"
  by (auto simp: row_problems_def check_refs_def)

lemma declared_no_stale: "StaleColumn k x \<in> set (snd (declared rows tests ps)) \<Longrightarrow> StaleColumn k x \<in> set ps"
proof -
  have 1: "StaleColumn k x \<in> set (snd (fold (declare_id rows t) is acc)) \<Longrightarrow> StaleColumn k x \<in> set (snd acc)" for t "is" acc
    by (induction "is" arbitrary: acc) (fastforce simp: declare_id_def Let_def split: prod.splits if_splits)+
  have "StaleColumn k x \<in> set (snd (fold (\<lambda>t. fold (declare_id rows t) (te_IDs t)) ts acc)) \<Longrightarrow> StaleColumn k x \<in> set (snd acc)" for ts acc
  proof (induction ts arbitrary: acc)
    case (Cons t ts)
    then show ?case using 1 [of t "te_IDs t" acc] by simp
  qed simp
  then show "StaleColumn k x \<in> set (snd (declared rows tests ps)) \<Longrightarrow> StaleColumn k x \<in> set ps" by (fastforce simp: declared_def)
qed

text \<open>A table with one row, whose column is stale, and the test that declares it.\<close>

definition demo_doc :: "runes list" where
  "demo_doc = [[124, 0x6d4b, 0x8bd5, 124, 0x8bf4, 0x660e, 124], [124, 65, 45, 49, 124, 0x2705, 124, 120, 124, 110, 124], []]"

definition demo_test :: test where
  "demo_test = \<lparr>te_Pkg = [117], te_Name = [65], te_Pos = [], te_IDs = [[65, 45, 49]]\<rparr>"

lemmas doc_eval = demo_doc_def parseDoc_def parse_line_def add_row_def split_cells_def HasPrefix_def lit_def TrimSpace_def trim_def
  IsSpace_def w_tests_def w_notes_def w_problem_def contains_cell_def idRe_def id_prefix_def is_upper_def is_digit_def statusOf_def Let_def

lemma demo_doc_rows:
  "parseDoc demo_doc = ([([65, 45, 49], \<lparr>ro_Line = 1, ro_Cells = [[65, 45, 49], [0x2705], [120], [110]], ro_ID = [65, 45, 49],
     ro_Status = [0x2705]\<rparr>)], [])"
  by (simp add: doc_eval)

lemma demo_doc_ok: "doc_ok demo_doc"
  by (simp add: doc_ok_def demo_doc_rows)

lemma demo_test_ok: "list_all label_ok [demo_test]"
  by (simp add: label_ok_def Label_def demo_test_def TrimPrefix_def HasPrefix_def lit_def)

section \<open>Properties\<close>

text \<open>
  C40: The rows parseDoc finds are well formed, for every document: each is filed under its ID, which has
  the form of an ID and is its first cell; its line exists and its cells are those of that line, trimmed
  and free of bars; no two rows share an ID or a line; and every reference has the form of an ID and
  a line of the document.
\<close>

theorem parseDoc_rows_well_formed:
  assumes "parseDoc lines = (rows, refs)"
  shows "distinct (map fst rows) \<and>
    (\<forall>i r. (i, r) \<in> set rows \<longrightarrow> idRe i \<and> ro_ID r = i \<and> ro_Cells r ! 0 = i \<and> ro_Line r < length lines \<and>
       ro_Cells r = split_cells (lines ! ro_Line r) \<and> ro_Cells r \<noteq> [] \<and> list_all cell_ok (ro_Cells r)) \<and>
    (\<forall>i r j s. (i, r) \<in> set rows \<longrightarrow> (j, s) \<in> set rows \<longrightarrow> ro_Line r = ro_Line s \<longrightarrow> i = j) \<and>
    (\<forall>x k. (x, k) \<in> set refs \<longrightarrow> idRe x \<and> k < length lines)"
proof -
  have p: "parse_ok lines (parse_from 0 lines parse0)" by (rule parseDoc_ok)
  have r: "rows = pa_rows (parse_from 0 lines parse0)" "refs = pa_refs (parse_from 0 lines parse0)"
    using assms by (simp_all add: parseDoc_eq)
  have ok: "row_ok lines i r" if "(i, r) \<in> set rows" for i r using p that r(1) by (auto simp: parse_ok_def)
  have "i = j" if "(i, r) \<in> set rows" "(j, s) \<in> set rows" "ro_Line r = ro_Line s" for i r j s
  proof -
    have "ro_Cells r = ro_Cells s" using row_okD(3) [OF ok [OF that(1)]] row_okD(3) [OF ok [OF that(2)]] that(3) by metis
    then show ?thesis using row_okD(4) [OF ok [OF that(1)]] row_okD(4) [OF ok [OF that(2)]] by metis
  qed
  moreover have "list_all cell_ok (ro_Cells r) \<and> ro_Cells r \<noteq> []" if "(i, r) \<in> set rows" for i r
    using split_cells_ok [of "lines ! ro_Line r"] unfolding row_okD(3) [OF ok [OF that]] by simp
  moreover have "distinct (map fst rows)" "\<forall>x k. (x, k) \<in> set refs \<longrightarrow> idRe x \<and> k < length lines"
    using p unfolding r parse_ok_def by auto
  moreover have "idRe i \<and> ro_ID r = i \<and> ro_Cells r ! 0 = i \<and> ro_Line r < length lines \<and> ro_Cells r = split_cells (lines ! ro_Line r)"
    if "(i, r) \<in> set rows" for i r
    using ok [OF that] unfolding row_ok_def by blast
  ultimately show ?thesis by blast
qed

theorem parseDoc_rows_well_formed_witness:
  "\<exists>rows refs i r. parseDoc demo_doc = (rows, refs) \<and> rows = [(i, r)] \<and> idRe i \<and> ro_Line r < length demo_doc \<and>
     list_all cell_ok (ro_Cells r)"
proof -
  obtain rows refs i r where d: "parseDoc demo_doc = (rows, refs)" "rows = [(i, r)]" using demo_doc_rows by simp
  have "(i, r) \<in> set rows" using d(2) by simp
  then have "idRe i \<and> ro_Line r < length demo_doc \<and> list_all cell_ok (ro_Cells r)"
    using parseDoc_rows_well_formed [OF d(1)] by blast
  with d show ?thesis by blast
qed

text \<open>
  C21: Regenerating the document makes it up to date: for every document whose rows have at least three cells and
  are not regression rows as well, and tests whose names are Go identifiers, run with -w does not panic,
  changes only the lines of checkpoint rows, and a run right after it, with or without -w, reports exactly
  the same problems, none of them a stale column, and changes nothing.
\<close>

theorem regenerated_document_is_up_to_date:
  assumes ok: "doc_ok lines" and tests: "list_all label_ok tests"
  shows "\<exists>ps' lines'. check_doc True tests ps lines = Some (ps', lines') \<and> length lines' = length lines \<and>
    (\<forall>j. j \<notin> (\<lambda>(i, r). ro_Line r) ` set (fst (parseDoc lines)) \<longrightarrow> lines' ! j = lines ! j) \<and>
    (\<forall>w. check_doc w tests ps lines' = Some (ps', lines')) \<and>
    (\<forall>k i. StaleColumn k i \<in> set ps' \<longrightarrow> StaleColumn k i \<in> set ps)"
proof -
  obtain rows refs where rr: "parseDoc lines = (rows, refs)" by (cases "parseDoc lines")
  define byID where "byID = fst (declared rows tests ps)"
  define ps1 where "ps1 = snd (declared rows tests ps)"
  define ids where "ids = sort (map fst rows)"
  define lines' where "lines' = fold (write_row byID rows) ids lines"
  let ?rows = "reread_rows lines' rows"
  note W = written_doc [OF ok tests rr byID_def lines'_def [unfolded ids_def]]
  have dc: "declared rows tests ps = (byID, ps1)" by (simp add: byID_def ps1_def)
  have row: "row_ok lines i (row_of rows i) \<and> 3 \<le> length (ro_Cells (row_of rows i)) \<and> (i, row_of rows i) \<in> set rows \<and>
      row_of ?rows i = reread lines' (row_of rows i)" if "i \<in> set ids" for i
  proof -
    have i: "i \<in> set (map fst rows)" using that by (simp add: ids_def)
    have "row_of ?rows i = reread lines' (row_of rows i)"
      unfolding map_of_reread by (subst doc_row(5) [OF ok rr i]) simp
    then show ?thesis using doc_row(1,2,4) [OF ok rr i] by blast
  qed
  define out where "out = ps1 @ concat (map (\<lambda>i. row_problems True (byID i) i (row_of rows i)) ids) @ check_refs rows refs"
  have "2 \<le> length (ro_Cells (row_of rows i))" if "i \<in> set ids" for i using row [OF that] by linarith
  from check_rows_eq [OF this] have "check_doc True tests ps lines = Some (out, lines')"
    by (simp add: check_doc_def rr dc ids_def [symmetric] lines'_def out_def)
  moreover have "check_doc w tests ps lines' = Some (out, lines')" for w
  proof -
    have k: "row_problems w (byID i) i (row_of ?rows i) = row_problems True (byID i) i (row_of rows i)"
      "\<not> stale (byID i) (row_of ?rows i)" "2 \<le> length (ro_Cells (row_of ?rows i))" if "i \<in> set ids" for i
      using reread_problems [of lines i "row_of rows i" lines' "byID i"] row [OF that] W(2) [of i] that by (auto simp: ids_def)
    have nw: "fold (write_row byID ?rows) is ls = ls" if "set is \<subseteq> set ids" for "is" ls
      using that k(2) by (induction "is" arbitrary: ls) (auto simp: write_row_def)
    have same: "map (\<lambda>i. row_problems w (byID i) i (row_of ?rows i)) ids = map (\<lambda>i. row_problems True (byID i) i (row_of rows i)) ids"
      using k(1) by simp
    have "check_rows w byID ?rows ids (lines', ps1) =
        Some (lines', ps1 @ concat (map (\<lambda>i. row_problems True (byID i) i (row_of rows i)) ids))"
      by (simp only: check_rows_eq [OF k(3)] same nw [OF subset_refl] if_cancel)
    then show ?thesis
      by (simp add: check_doc_def W(1) declared_reread dc reread_fst ids_def [symmetric] out_def check_refs_reread)
  qed
  moreover have "lines' ! j = lines ! j" if "j \<notin> (\<lambda>(i, r). ro_Line r) ` set rows" for j
    unfolding lines'_def by (rule write_rows_other) (use that row in force)
  moreover have "StaleColumn k i \<in> set out \<Longrightarrow> StaleColumn k i \<in> set ps" for k i
    using declared_no_stale [of k i rows tests ps] no_stale by (auto simp: out_def ps1_def)
  ultimately show ?thesis unfolding rr by (intro exI [of _ out] exI [of _ lines']) (simp add: lines'_def)
qed
theorem regenerated_document_is_up_to_date_witness:
  "\<exists>ps' lines'. check_doc True [demo_test] [] demo_doc = Some (ps', lines') \<and> check_doc False [demo_test] [] lines' = Some (ps', lines') \<and>
     length lines' = 3 \<and> lines' ! 0 = demo_doc ! 0"
proof -
  obtain ps' lines' where r: "check_doc True [demo_test] [] demo_doc = Some (ps', lines')" "length lines' = length demo_doc"
    "\<And>w. check_doc w [demo_test] [] lines' = Some (ps', lines')"
    "\<And>j. j \<notin> (\<lambda>(i, r). ro_Line r) ` set (fst (parseDoc demo_doc)) \<Longrightarrow> lines' ! j = demo_doc ! j"
    using regenerated_document_is_up_to_date [OF demo_doc_ok demo_test_ok, of "[]"] by blast
  have "length demo_doc = 3" "lines' ! 0 = demo_doc ! 0" using r(4) [of 0] by (simp_all add: demo_doc_rows) (simp add: demo_doc_def)
  with r(1,2) r(3) [of False] show ?thesis by auto
qed

section \<open>Rows that are too short or not unique\<close>

text \<open>
  A checkpoint row with a single cell makes \<open>run\<close> panic: the index of the column is negative. A row with
  two cells has its ID overwritten. And when two rows have the same ID, only the last is checked: the
  column of the first may be stale without being reported.
\<close>

theorem short_row_panics:
  "check_doc w tests ps [[124, 0x6d4b, 0x8bd5, 124, 0x8bf4, 0x660e, 124], [124, 65, 45, 49, 124]] = None"
  by (simp add: check_doc_def doc_eval check_row_def case_prod_beta)

theorem short_row_loses_its_ID:
  "check_doc True [] [] [[124, 0x6d4b, 0x8bd5, 124, 0x8bf4, 0x660e, 124], [124, 65, 45, 49, 124, 110, 124]] =
   Some ([], [[124, 0x6d4b, 0x8bd5, 124, 0x8bf4, 0x660e, 124], row_line [[], [110]]])"
  by (simp add: check_doc_def doc_eval check_row_def case_prod_beta declared_def render_def check_refs_def tested_marks_def untested_marks_def)

theorem duplicate_row_is_not_checked:
  "check_doc False [] [] [[124, 0x6d4b, 0x8bd5, 124, 0x8bf4, 0x660e, 124], [124, 65, 45, 49, 124, 0x274c, 124, 120, 124, 110, 124],
     [124, 65, 45, 49, 124, 0x274c, 124, 32, 124, 110, 124]] =
   Some ([], [[124, 0x6d4b, 0x8bd5, 124, 0x8bf4, 0x660e, 124], [124, 65, 45, 49, 124, 0x274c, 124, 120, 124, 110, 124],
     [124, 65, 45, 49, 124, 0x274c, 124, 32, 124, 110, 124]])"
  by (simp add: check_doc_def doc_eval check_row_def case_prod_beta declared_def render_def check_refs_def tested_marks_def untested_marks_def)

end
