(* ===== verification/Spec2Isabelle.thy ===== *)
theory Spec2Isabelle
  imports Queue_Wait Stream_Reader Stream_Writer Flow_Table Udp Tcp_Key Tcp_Service Leak Socks5 Testdoc
begin

text \<open>
  A verification of go-netx (\<open>src/\<close>), a Go library of building blocks for network services.

  \<^bold>\<open>The program.\<close> A service is a \<open>tcp.Server\<close>, a \<open>udp.Conn\<close> or any other \<open>Service\<close>; \<open>netx.Server\<close>
  (\<open>lifecycle.go\<close>) runs one, or a \<open>Group\<close> of them, from start to graceful stop. The transports get their
  sockets from package \<open>socket\<close>, admit clients through package \<open>limit\<close>, and retry after temporary errors with
  \<open>internal/backoff\<close>; \<open>udp\<close> reads batches through \<open>internal/sys\<close>. Handlers read and write streams with package
  \<open>stream\<close>, which borrows buffers from package \<open>buf\<close>, whose memory a \<open>limit.Budget\<close> may bound; they pass work on
  through package \<open>queue\<close> and keep state per client in package \<open>flow\<close>.

  \<^bold>\<open>The theories.\<close> Each models the files named and proves their properties; definitions have the names of
  the source, with a prefix where two packages use the same one.

  \<^item> \<open>Netx_Prelude\<close>: 64-bit words, results that can panic, sequences of calls, the locales \<open>op_invariant\<close>,
    \<open>op_refinement\<close>, \<open>event_invariant\<close> and \<open>step_invariant\<close>, and the doubling loop.
  \<^item> \<open>Cas\<close>: the load / compare-and-swap loop for any number of goroutines, and that every interleaving of it
    is a sequence of indivisible calls. \<open>Limit\<close>, \<open>Flow\<close>, \<open>Flow_Table\<close> and \<open>Udp\<close> use it.
  \<^item> \<open>Queue\<close> (\<open>queue/queue.go\<close>): the ring, as a refinement of a bounded list under each overflow policy.
    \<open>Queue_Wait\<close>: its blocking calls in every interleaving, and that no waiter is left behind.
  \<^item> \<open>Limit\<close> (\<open>limit/limit.go\<close>): \<open>Concurrency\<close>, \<open>Rate\<close>, \<open>All\<close>, \<open>Budget\<close> and \<open>PerKey\<close>, their bounds and their
    accounts; the locale \<open>permit_limiter\<close> is what a client relies on.
  \<^item> \<open>Buf\<close> (\<open>buf/buf.go\<close>, \<open>debug.go\<close>, \<open>nodebug.go\<close>): size classes, the pool with its ownership and budget, and that the
    two builds agree.
  \<^item> \<open>Stream_Reader\<close> (\<open>stream/reader.go\<close>) and \<open>Stream_Writer\<close> (\<open>stream/writer.go\<close>): what is read is the stream, what
    is flushed is the queue, and every borrowed buffer is given back once.
  \<^item> \<open>Flow\<close> (\<open>flow/flow.go\<close>): the close state machine and the activity word. \<open>Flow_Table\<close> (\<open>flow/table.go\<close>): the
    sharded table as a refinement of one map, and the sweep.
  \<^item> \<open>Sys\<close> (\<open>internal/counter\<close>, \<open>internal/backoff\<close>, \<open>internal/sys\<close>): counters, delays, control messages and the
    batch reader. \<open>Socket\<close> (\<open>socket/*.go\<close>): options, by operating system.
  \<^item> \<open>Udp\<close> (\<open>udp/udp.go\<close>): readers, handlers, statistics and drop counts; batching changes nothing.
  \<^item> \<open>Tcp\<close> (\<open>tcp/server.go\<close>, \<open>tcp/dialer.go\<close>): the server with all its goroutines. \<open>Tcp_Run\<close>: the invariants of its
    runs, for any admission limiter (locale \<open>admission\<close>). \<open>Tcp_Key\<close>: the keys of the per-address limit.
  \<^item> \<open>Lifecycle\<close> (\<open>lifecycle.go\<close>): \<open>LoopContext\<close>, \<open>Loop\<close>, \<open>Stop\<close>, \<open>Shutdown\<close> and \<open>Group\<close>, with joined
    errors and the order of the states.
  \<^item> \<open>Tcp_Service\<close>: \<open>LoopContext\<close> running a \<open>tcp.Server\<close>, both models stepping together.
  \<^item> \<open>Leak\<close> (\<open>internal/leak\<close>): the baseline check of the tests. \<open>Socks5\<close> (\<open>examples/socks5-server/main.go\<close>): the
    handshake and the relay of the proxy. \<open>Testdoc\<close> (\<open>internal/tools/testdoc/main.go\<close>): the document checker.

  This theory holds what spans the lifecycle and the TCP server.

  \<^bold>\<open>How the code is translated.\<close> A struct is a record and a method a function from the state to the
  results and the new state; \<open>res\<close> adds the panics. Objects that are shared by pointer (buffers, flows,
  connections) are indices into a heap list in the state. Concurrent code is cut at its atomic actions (a
  locked region, an atomic operation, a channel operation, a call out), a goroutine is the place where it is,
  and a run is any sequence of actions, so that the theorems hold for every schedule. What comes from
  outside (the kernel, peers, clocks, handlers, hooks, dialers) is an argument of the step or a parameter with
  named hypotheses. \<open>int64\<close>, \<open>uint64\<close> and \<open>uint32\<close> are words wherever they can wrap; \<open>float64\<close>, in \<open>Rate\<close>, is
  the real numbers with a rounding function after every operation, a parameter.

  \<^bold>\<open>Loops and bounds.\<close> Loops are structural, or have a measure, or are \<open>partial_function (option)\<close> where they
  may not end: the doubling loop, which ends exactly up to the capacity \<open>2 ^ 62\<close>; the loop of \<open>Peek\<close>, which
  ends for every honest source; the loops that repeat an interrupted system call, which end with the
  interruptions; and the check for leaks, which ends when the clock passes the deadline. The only fuel is in the printing of IPv6 addresses: nine steps for eight groups. Allocation
  fails only where the code can ask for more than the runtime allows, in \<open>Buf\<close> and \<open>Stream_Reader\<close>.

  \<^bold>\<open>Findings.\<close> Theorems that show the code doing something else than it means to are stated beside the
  properties: an open \<open>Drain\<close> can strand a producer (\<open>Queue_Wait\<close>), the drain error of a group can hide
  a failure (\<open>Lifecycle\<close>), a stop that comes before \<open>Serve\<close> is reported as an error (below), the proxy does not
  pass on the end of the upstream (\<open>Socks5\<close>), and short or repeated rows of the document (\<open>Testdoc\<close>).

  \<^bold>\<open>Not modelled.\<close> The \<open>main\<close> functions of the examples and the two client examples, which only wire library
  calls to input, output and logging; the file \<open>http-server\<close>, which runs \<open>net/http\<close>; goroutine dumps and the
  wording of formatted errors; the memory model below atomics and locks; handlers that panic, which end the
  process; and a \<open>udp.Conn\<close> or a \<open>Group\<close> composed with \<open>LoopContext\<close>, beyond what \<open>Lifecycle\<close> shows for every
  service.
\<close>

section \<open>A server that is run to its end\<close>

text \<open>
  C3: A tcp server run by LoopContext leaves nothing behind: when LoopContext has returned, however its
  goroutines, hooks, stop signals and clients were interleaved, the listener is closed; and unless
  errors.Is finds ErrAbortTimeout in the returned error, every connection ever accepted is closed, its
  handler has returned and its goroutine is gone, and every admission and per-address slot is free.
  After a failed start no connection was ever accepted.
\<close>

theorem returned_loop_leaves_nothing_behind:
  assumes new: "Tcp_NewServer nilLn nilHandler opts lastID = Inr t0"
    and fresh: "\<forall>c. to_Admit opts = Some c \<longrightarrow> (\<exists>mx. NewConcurrency mx = Ret c ())"
    and run: "process_run cfg es (new_process t0) = p" and ret: "ls_pc (pr_loop p) = LReturned r"
  shows "ts_stopped (pr_tcp p) \<and> ts_lnClosed (pr_tcp p) \<and>
    (ls_startErr (pr_loop p) \<noteq> None \<longrightarrow> ts_heap (pr_tcp p) = []) \<and>
    (\<not> (\<exists>k. r = Some k \<and> errors_Is k ErrAbortTimeout) \<longrightarrow>
       ts_conns (pr_tcp p) = {} \<and>
       (\<forall>c \<in> set (ts_heap (pr_tcp p)). tc_closed c \<and> tc_phase c \<in> {PGone, PRejectedPerIP, PRejected, PRefused}) \<and>
       (\<forall>c. ts_admit (pr_tcp p) = Some c \<longrightarrow> c_inUse c = 0) \<and>
       (\<forall>k. ts_perIP (pr_tcp p) = Some k \<longrightarrow> PerKey_Keys k = 0))"
proof -
  obtain lims where "conc_inv lims t0" using conc_run [OF new fresh, of "[]" "[]" t0] by auto
  moreover have "ts_serve t0 = NotServing"
    using new by (auto simp: Tcp_NewServer_def Let_def NewPerKey_def split: if_splits)
  ultimately have ok: "process_ok cfg lims p" unfolding run [symmetric] by (intro process_run_ok new_process_ok)
  then have inv: "linv cfg (pr_loop p)" "conc_inv lims (pr_tcp p)" by (simp_all add: process_ok_def)
  show ?thesis
  proof (intro conjI impI)
    have "CallShutdown \<in> set (ls_calls (pr_loop p))" by (rule returned_calls_Shutdown [OF inv(1) ret])
    then show "ts_stopped (pr_tcp p)" using ok by (simp add: process_ok_def)
    then show "ts_lnClosed (pr_tcp p)" using inv(2) by (simp add: tcp_inv_def control_ok_def where_ok_def)
    show "ts_heap (pr_tcp p) = []" if "ls_startErr (pr_loop p) \<noteq> None"
      using ok inv that serve_okD(3) [of "pr_loop p"] unserved_all_free [OF inv(2)] by (simp add: process_ok_def linv_def)
  next
    assume "\<not> (\<exists>k. r = Some k \<and> errors_Is k ErrAbortTimeout)"
    from returned_loop [OF inv(1) ret this]
    consider "ts_serve (pr_tcp p) = NotServing" | r' where "ts_serve (pr_tcp p) = Returned r'"
      using ok by (fastforce simp: process_ok_def serve_result_def split: option.splits servepc.splits)
    then show "ts_conns (pr_tcp p) = {}"
      "\<forall>c \<in> set (ts_heap (pr_tcp p)). tc_closed c \<and> tc_phase c \<in> {PGone, PRejectedPerIP, PRejected, PRefused}"
      "\<forall>c. ts_admit (pr_tcp p) = Some c \<longrightarrow> c_inUse c = 0" "\<forall>k. ts_perIP (pr_tcp p) = Some k \<longrightarrow> PerKey_Keys k = 0"
      using unserved_all_free [OF inv(2)] returned_all_closed [OF inv(2)] by (cases; simp)+
  qed
qed

theorem returned_loop_leaves_nothing_behind_witness:
  "\<exists>p. process_run bare_cfg demo_process (new_process demo_tcp) = p \<and>
     ls_pc (pr_loop p) = LReturned (Some (Joined [DeadlineExceeded])) \<and> length (ts_heap (pr_tcp p)) = 1 \<and>
     list_all tc_closed (ts_heap (pr_tcp p)) \<and> ts_conns (pr_tcp p) = {} \<and> ts_lnClosed (pr_tcp p)"
proof -
  obtain p where p: "process_run bare_cfg demo_process (new_process demo_tcp) = p"
    "ls_pc (pr_loop p) = LReturned (Some (Joined [DeadlineExceeded]))" "length (ts_heap (pr_tcp p)) = 1"
    using demo_process_returned by blast
  from returned_loop_leaves_nothing_behind [OF demo_tcp_new demo_tcp_fresh p(1,2)] p show ?thesis
    by (auto simp: ErrAbortTimeout_def list_all_iff)
qed

section \<open>A stop that comes before Serve\<close>

text \<open>
  \<open>LoopContext\<close> starts \<open>Serve\<close> in a goroutine. When the stop signal is seen before that goroutine runs,
  \<open>Shutdown\<close> finds nothing served and returns nil, and \<open>Serve\<close> then returns \<open>ErrClosed\<close>: a graceful stop in
  which nothing failed is reported as an error, while the same stop a moment later returns nil.
\<close>

theorem early_stop_is_reported_as_failure:
  assumes "p = process_run bare_cfg [PLoop EvLoopContext, PLoop EvStopCall, PLoop EvTakeStop, PShutdownReturns None,
      PServeBegins, PServeReturns, PLoop EvTakeServed, PLoop EvFinish] (new_process demo_tcp)"
    and "q = process_run bare_cfg [PLoop EvLoopContext, PServeBegins, PLoop EvStopCall, PLoop EvTakeStop,
      PNet (EvAcceptErr ''use of closed network connection'' False), PNet EvLoop, PShutdownReturns None,
      PServeReturns, PLoop EvTakeServed, PLoop EvFinish] (new_process demo_tcp)"
  shows "ls_pc (pr_loop p) = LReturned (Some (Joined [GErr ''tcp: closed''])) \<and> ls_pc (pr_loop q) = LReturned None"
  by (simp add: assms process_run_def new_process_def in_Shutdown_def serve_result_def loop_demo demo_tcp_eq
      Tcp_Serve_begin_def Tcp_Shutdown_begin_def Tcp_Shutdown_wait_def stopAccept_def tcp_conc_def tcp_step_def tcp_do_def
      accept_error_def Tcp_Serve_def)

text \<open>The same with a \<open>udp.Conn\<close>, whose \<open>Serve\<close> promises nil on a requested stop.\<close>

theorem early_stop_of_udp_is_reported_as_failure:
  assumes "\<not> uc_serving c" "\<not> uc_closing c" and "Conn_Shutdown doneFirst ctxErr c = (e, c1)"
    and "s = lrun bare_cfg [EvLoopContext, EvStopCall, EvTakeStop, EvShutdown (outcome.Returns (map_option (\<lambda>_. GErr ''udp'') e)),
      EvServeBegins, EvServeReturns (outcome.Returns (map_option (\<lambda>_. GErr ''udp: closed'') (fst (Serve_begin c1)))),
      EvTakeServed, EvFinish] NewServer"
  shows "e = None \<and> fst (Serve_begin c1) = Some uerr.ErrClosed \<and> ls_pc s = LReturned (Some (Joined [GErr ''udp: closed'']))"
proof -
  have "uc_closed (Conn_Close c)" "uc_serving (Conn_Close c) = uc_serving c" using assms(2) by (simp_all add: Conn_Close_def closeSockets_def)
  then have "e = None" "fst (Serve_begin c1) = Some uerr.ErrClosed"
    using assms(1,3) by (auto simp: Conn_Shutdown_def Serve_begin_def Let_def)
  then show ?thesis by (simp add: assms(4) loop_demo)
qed

end
